(* ===== verification/Prelude.thy ===== *)
theory Prelude
  imports Main "HOL-Library.Word"
begin

text \<open>
  Shared vocabulary of the development: the machine types of the C sources
  (\<open>unsigned char\<close>, \<open>uint16_t\<close>, \<open>unsigned long\<close> of the Windows ABI, \<open>uint64_t\<close>),
  NUL-terminated strings as byte lists, and the generic facts on bytes, words and
  lists that the component theories use.
  A \<open>char *\<close> into a NUL-terminated string is the list of the bytes from that position to
  the terminator (excluded), so reading the pointer is \<open>deref\<close> and stepping it is \<open>tl\<close>.
  A C abort (a failed \<open>assert\<close>, \<open>out_of_memory\<close>) is the value \<open>None\<close>.
\<close>

unbundle bit_operations_syntax

type_synonym byte = "8 word"
type_synonym u16 = "16 word"
type_synonym u32 = "32 word"
type_synonym u64 = "64 word"

named_theorems wire_simps \<open>evaluation of the byte-order macros and the wire encodings\<close>
named_theorems cstr_simps \<open>facts on NUL-terminated strings\<close>

subsection \<open>NUL-terminated strings\<close>

definition deref :: "byte list \<Rightarrow> byte" where
  "deref s = (case s of [] \<Rightarrow> 0 | c # _ \<Rightarrow> c)"

definition cstring :: "byte list \<Rightarrow> bool" where
  "cstring s \<longleftrightarrow> 0 \<notin> set s"

text \<open>\<open>strchr(set, c) != NULL\<close>: the terminator counts as a member of the set.\<close>

definition strchr_mem :: "byte list \<Rightarrow> byte \<Rightarrow> bool" where
  "strchr_mem cs c \<longleftrightarrow> c = 0 \<or> c \<in> set cs"

lemma deref_Nil [simp]: "deref [] = 0"
  by (simp add: deref_def)

lemma deref_Cons [simp]: "deref (c # s) = c"
  by (simp add: deref_def)

lemma cstring_Nil [simp]: "cstring []"
  by (simp add: cstring_def)

lemma cstring_Cons [simp]: "cstring (c # s) \<longleftrightarrow> c \<noteq> 0 \<and> cstring s"
  by (auto simp: cstring_def)

lemma cstring_append [simp]: "cstring (s @ t) \<longleftrightarrow> cstring s \<and> cstring t"
  by (auto simp: cstring_def)

lemma deref_eq_0_iff [cstr_simps]: "cstring s \<Longrightarrow> deref s = 0 \<longleftrightarrow> s = []"
  by (cases s) auto

lemma cstring_tl: "cstring s \<Longrightarrow> cstring (tl s)"
  by (cases s) auto

lemma cstring_drop: "cstring s \<Longrightarrow> cstring (drop n s)"
  by (auto simp: cstring_def dest: in_set_dropD)

lemma cstring_take: "cstring s \<Longrightarrow> cstring (take n s)"
  by (auto simp: cstring_def dest: in_set_takeD)

subsection \<open>Lists\<close>

lemma take_length_append [simp]: "take (length xs) (xs @ ys) = xs"
  by simp

lemma drop_drop_add: "drop m (drop n xs) = drop (n + m) xs"
  by (simp add: add.commute)

lemma takeWhile_neq_append_hit:
  "x \<notin> set xs \<Longrightarrow> takeWhile (\<lambda>c. c \<noteq> x) (xs @ x # ys) = xs"
  by (induction xs) auto

lemma dropWhile_neq_append_hit:
  "x \<notin> set xs \<Longrightarrow> dropWhile (\<lambda>c. c \<noteq> x) (xs @ x # ys) = x # ys"
  by (induction xs) auto

lemma length_2_conv: "length xs = 2 \<longleftrightarrow> (\<exists>a b. xs = [a, b])"
  by (auto simp: numeral_2_eq_2 length_Suc_conv)

lemma length_4_conv: "length xs = 4 \<longleftrightarrow> (\<exists>a b c d. xs = [a, b, c, d])"
  by (auto simp: eval_nat_numeral length_Suc_conv)

subsection \<open>Words\<close>

lemma unat_byte_less [simp]: "unat (b :: byte) < 256"
proof -
  have "unat b < 2 ^ LENGTH(8)" by (rule unsigned_less)
  then show ?thesis by simp
qed

lemma unat_of_nat_byte: "n < 256 \<Longrightarrow> unat (word_of_nat n :: byte) = n"
  by (simp add: unat_of_nat)

lemma unat_of_nat_u32: "n < 2 ^ 32 \<Longrightarrow> unat (word_of_nat n :: u32) = n"
  by (simp add: unat_of_nat)

subsection \<open>The byte-order macros of misc.h\<close>

definition PUT_16BIT_MSB_FIRST :: "u16 \<Rightarrow> byte list" where
  "PUT_16BIT_MSB_FIRST v = [ucast (drop_bit 8 v), ucast v]"

definition PUT_32BIT_MSB_FIRST :: "u32 \<Rightarrow> byte list" where
  "PUT_32BIT_MSB_FIRST v =
     [ucast (drop_bit 24 v), ucast (drop_bit 16 v), ucast (drop_bit 8 v), ucast v]"

definition PUT_64BIT_MSB_FIRST :: "u64 \<Rightarrow> byte list" where
  "PUT_64BIT_MSB_FIRST v =
     [ucast (drop_bit 56 v), ucast (drop_bit 48 v), ucast (drop_bit 40 v), ucast (drop_bit 32 v),
      ucast (drop_bit 24 v), ucast (drop_bit 16 v), ucast (drop_bit 8 v), ucast v]"

definition GET_16BIT_MSB_FIRST :: "byte list \<Rightarrow> u16" where
  "GET_16BIT_MSB_FIRST p = ucast (p ! 1) OR push_bit 8 (ucast (p ! 0))"

definition GET_32BIT_MSB_FIRST :: "byte list \<Rightarrow> u32" where
  "GET_32BIT_MSB_FIRST p =
     ucast (p ! 3) OR push_bit 8 (ucast (p ! 2)) OR
     push_bit 16 (ucast (p ! 1)) OR push_bit 24 (ucast (p ! 0))"

definition GET_64BIT_MSB_FIRST :: "byte list \<Rightarrow> u64" where
  "GET_64BIT_MSB_FIRST p =
     ucast (p ! 7) OR push_bit 8 (ucast (p ! 6)) OR
     push_bit 16 (ucast (p ! 5)) OR push_bit 24 (ucast (p ! 4)) OR
     push_bit 32 (ucast (p ! 3)) OR push_bit 40 (ucast (p ! 2)) OR
     push_bit 48 (ucast (p ! 1)) OR push_bit 56 (ucast (p ! 0))"

lemma length_PUT [simp]:
  "length (PUT_16BIT_MSB_FIRST v) = 2"
  "length (PUT_32BIT_MSB_FIRST w) = 4"
  "length (PUT_64BIT_MSB_FIRST x) = 8"
  by (simp_all add: PUT_16BIT_MSB_FIRST_def PUT_32BIT_MSB_FIRST_def PUT_64BIT_MSB_FIRST_def)

text \<open>The byte of \<open>v\<close> at bit position \<open>k\<close>, put back at its place, holds the bits \<open>k .. k+7\<close>.\<close>

lemma bit_byte_of_word:
  "bit (push_bit k (ucast (ucast (drop_bit k v) :: byte)) :: 'a::len word) n \<longleftrightarrow>
     k \<le> n \<and> n < k + 8 \<and> bit v n" for v :: "'a::len word"
  by (auto simp: bit_simps dest: bit_imp_le_length)

lemma bit_low_byte_of_word:
  "bit (ucast (ucast v :: byte) :: 'a::len word) n \<longleftrightarrow> n < 8 \<and> bit v n" for v :: "'a::len word"
  by (auto simp: bit_simps dest: bit_imp_le_length)

lemma GET_PUT_16 [wire_simps]: "GET_16BIT_MSB_FIRST (PUT_16BIT_MSB_FIRST v) = v"
  unfolding GET_16BIT_MSB_FIRST_def PUT_16BIT_MSB_FIRST_def
  by (rule bit_word_eqI)
    (use bit_byte_of_word in \<open>force simp: bit_or_iff bit_low_byte_of_word\<close>)

lemma GET_PUT_32 [wire_simps]: "GET_32BIT_MSB_FIRST (PUT_32BIT_MSB_FIRST v) = v"
proof (rule bit_word_eqI)
  fix n assume "n < LENGTH(32)"
  then have "n < 8 \<or> 8 \<le> n \<and> n < 16 \<or> 16 \<le> n \<and> n < 24 \<or> 24 \<le> n \<and> n < 32" by simp linarith
  then show "bit (GET_32BIT_MSB_FIRST (PUT_32BIT_MSB_FIRST v)) n = bit v n"
    by (simp add: GET_32BIT_MSB_FIRST_def PUT_32BIT_MSB_FIRST_def bit_or_iff
        bit_low_byte_of_word bit_byte_of_word) linarith
qed

lemma GET_PUT_64 [wire_simps]: "GET_64BIT_MSB_FIRST (PUT_64BIT_MSB_FIRST v) = v"
proof (rule bit_word_eqI)
  fix n assume "n < LENGTH(64)"
  then have "n < 8 \<or> 8 \<le> n \<and> n < 16 \<or> 16 \<le> n \<and> n < 24 \<or> 24 \<le> n \<and> n < 32 \<or>
      32 \<le> n \<and> n < 40 \<or> 40 \<le> n \<and> n < 48 \<or> 48 \<le> n \<and> n < 56 \<or> 56 \<le> n \<and> n < 64"
    by simp linarith
  then show "bit (GET_64BIT_MSB_FIRST (PUT_64BIT_MSB_FIRST v)) n = bit v n"
    by (simp add: GET_64BIT_MSB_FIRST_def PUT_64BIT_MSB_FIRST_def bit_or_iff
        bit_low_byte_of_word bit_byte_of_word) linarith
qed

end
