(* ===== verification/Strbuf.thy ===== *)
theory Strbuf
  imports Prelude
begin

text \<open>
  \<open>utils/memory.c\<close> (the growth policy of dynamic arrays) and the \<open>strbuf\<close> of
  \<open>utils/utils.c\<close>. Whether the allocator can serve a request is a parameter \<open>malloc_ok\<close>
  (by size in bytes); a failed allocation ends in \<open>out_of_memory\<close>, which does not return:
  \<open>None\<close>. Sizes are \<open>nat\<close> bounded by \<open>SIZE_MAX\<close> of the 64-bit target.
\<close>

definition SIZE_MAX :: nat where "SIZE_MAX = 2 ^ 64 - 1"
definition INT_MAX :: nat where "INT_MAX = 2 ^ 31 - 1"

subsection \<open>memory.c\<close>

text \<open>\<open>safemalloc\<close>: the size passed to \<open>malloc\<close>, if the product and sum do not overflow.\<close>

definition safemalloc :: "(nat \<Rightarrow> bool) \<Rightarrow> nat \<Rightarrow> nat \<Rightarrow> nat \<Rightarrow> nat option" where
  "safemalloc malloc_ok factor1 factor2 addend =
     (if factor1 > SIZE_MAX div factor2 then None
      else let product = factor1 * factor2 in
        if addend > SIZE_MAX then None
        else if product > SIZE_MAX - addend then None
        else let sz = product + addend;
                 sz = (if sz = 0 then 1 else sz)
             in if malloc_ok sz then Some sz else None)"

definition saferealloc :: "(nat \<Rightarrow> bool) \<Rightarrow> nat \<Rightarrow> nat \<Rightarrow> nat option" where
  "saferealloc malloc_ok n sz =
     (if n > INT_MAX div sz then None
      else if malloc_ok (sz * n) then Some (sz * n) else None)"

text \<open>
  \<open>safegrowarray\<close>: the new value of \<open>*allocated\<close>. The asserts on the inputs and the two
  allocation paths (\<open>secret\<close> or not) are the ways not to return.
\<close>

definition safegrowarray ::
    "(nat \<Rightarrow> bool) \<Rightarrow> nat \<Rightarrow> nat \<Rightarrow> nat \<Rightarrow> nat \<Rightarrow> bool \<Rightarrow> nat option" where
  "safegrowarray malloc_ok allocated eltsize oldlen extralen secret =
     (if \<not> eltsize > 0 then None else
      let maxsize = SIZE_MAX div eltsize; oldsize = allocated in
      if \<not> oldsize \<le> maxsize then None
      else if \<not> oldlen \<le> maxsize then None
      else if \<not> extralen \<le> maxsize - oldlen then None
      else if oldsize > oldlen + extralen then Some oldsize
      else
        let increment = (oldlen + extralen) - oldsize;
            increment = (if increment < 256 div eltsize then 256 div eltsize else increment);
            increment = (if increment < oldsize div 16 then oldsize div 16 else increment);
            maxincr = maxsize - oldsize;
            increment = (if increment > maxincr then maxincr else increment);
            newsize = oldsize + increment
        in if secret
           then (case safemalloc malloc_ok newsize eltsize 0 of
                   None \<Rightarrow> None | Some _ \<Rightarrow> Some newsize)
           else (case saferealloc malloc_ok newsize eltsize of
                   None \<Rightarrow> None | Some _ \<Rightarrow> Some newsize))"

lemma safegrowarray_bounds:
  assumes "safegrowarray malloc_ok allocated eltsize oldlen extralen secret = Some n"
  shows "oldlen + extralen \<le> n \<and> allocated \<le> n \<and> n * eltsize \<le> SIZE_MAX"
proof -
  have e: "eltsize > 0" and r: "allocated \<le> SIZE_MAX div eltsize" "oldlen \<le> SIZE_MAX div eltsize"
    "extralen \<le> SIZE_MAX div eltsize - oldlen"
    using assms by (auto simp: safegrowarray_def Let_def split: if_splits)
  then have "oldlen + extralen \<le> n \<and> allocated \<le> n \<and> n \<le> SIZE_MAX div eltsize"
    using assms
    by (auto simp: safegrowarray_def Let_def split: if_splits option.splits)
  then show ?thesis
    using e by (metis div_times_less_eq_dividend le_trans mult_le_mono1)
qed

text \<open>
  Growing is geometric: a growth that had to happen, and that the address space allows, adds
  at least a sixteenth of the old size, and at least 256 bytes.
\<close>

lemma safegrowarray_geometric:
  assumes "safegrowarray malloc_ok allocated eltsize oldlen extralen secret = Some n"
    and "allocated \<le> oldlen + extralen" and "n < SIZE_MAX div eltsize"
  shows "allocated + allocated div 16 \<le> n \<and> allocated + 256 div eltsize \<le> n"
  using assms by (auto simp: safegrowarray_def Let_def split: if_splits option.splits)

subsection \<open>strbuf\<close>

text \<open>
  \<open>struct strbuf_impl\<close>: the allocated size, whether resizes must not leave copies of the
  data behind (\<open>nm\<close>), and the visible bytes \<open>s[0 .. len)\<close>; the byte \<open>s[len]\<close> is the
  terminator every operation rewrites.
\<close>

record strbuf =
  sb_size :: nat
  sb_nm :: bool
  sb_bytes :: "byte list"

definition sb_len :: "strbuf \<Rightarrow> nat" where
  "sb_len b = length (sb_bytes b)"

definition strbuf_new_general :: "(nat \<Rightarrow> bool) \<Rightarrow> bool \<Rightarrow> strbuf option" where
  "strbuf_new_general malloc_ok nm =
     (case safemalloc malloc_ok 512 1 0 of None \<Rightarrow> None
      | Some _ \<Rightarrow> Some \<lparr>sb_size = 512, sb_nm = nm, sb_bytes = []\<rparr>)"

text \<open>
  \<open>strbuf_append\<close> reserves \<open>len\<close> bytes and its caller fills them; the only callers that do
  so without reading them first copy \<open>len\<close> bytes there at once, so the model takes the bytes.
\<close>

definition strbuf_BinarySink_write :: "(nat \<Rightarrow> bool) \<Rightarrow> strbuf \<Rightarrow> byte list \<Rightarrow> strbuf option" where
  "strbuf_BinarySink_write malloc_ok buf data =
     (case safegrowarray malloc_ok (sb_size buf) 1 (sb_len buf + 1) (length data) (sb_nm buf) of
        None \<Rightarrow> None
      | Some sz \<Rightarrow> Some (buf\<lparr>sb_size := sz, sb_bytes := sb_bytes buf @ data\<rparr>))"

definition strbuf_shrink_to :: "strbuf \<Rightarrow> nat \<Rightarrow> strbuf option" where
  "strbuf_shrink_to buf new_len =
     (if \<not> new_len \<le> sb_len buf then None
      else Some (buf\<lparr>sb_bytes := take new_len (sb_bytes buf)\<rparr>))"

definition strbuf_shrink_by :: "strbuf \<Rightarrow> nat \<Rightarrow> strbuf option" where
  "strbuf_shrink_by buf amount_to_remove =
     (if \<not> amount_to_remove \<le> sb_len buf then None
      else Some (buf\<lparr>sb_bytes := take (sb_len buf - amount_to_remove) (sb_bytes buf)\<rparr>))"

definition strbuf_chomp :: "strbuf \<Rightarrow> byte \<Rightarrow> (strbuf \<times> bool) option" where
  "strbuf_chomp buf char_to_remove =
     (if sb_len buf > 0 \<and> sb_bytes buf ! (sb_len buf - 1) = char_to_remove
      then (case strbuf_shrink_by buf 1 of None \<Rightarrow> None | Some b \<Rightarrow> Some (b, True))
      else Some (buf, False))"

definition strbuf_new_for_agent_query :: "(nat \<Rightarrow> bool) \<Rightarrow> byte list \<Rightarrow> strbuf option" where
  \<comment> \<open>the four bytes reserved for the length are whatever the heap held: \<open>junk\<close>\<close>
  "strbuf_new_for_agent_query malloc_ok junk =
     (case strbuf_new_general malloc_ok False of None \<Rightarrow> None
      | Some b \<Rightarrow> strbuf_BinarySink_write malloc_ok b (take 4 junk))"

definition strbuf_finalise_agent_query :: "strbuf \<Rightarrow> strbuf option" where
  "strbuf_finalise_agent_query buf =
     (if \<not> sb_len buf \<ge> 5 then None
      else Some (buf\<lparr>sb_bytes := PUT_32BIT_MSB_FIRST (word_of_nat (sb_len buf - 4))
                                  @ drop 4 (sb_bytes buf)\<rparr>))"

text \<open>The visible bytes and their terminator always fit in the allocation.\<close>

definition strbuf_inv :: "strbuf \<Rightarrow> bool" where
  "strbuf_inv b \<longleftrightarrow> sb_len b + 1 \<le> sb_size b \<and> sb_size b \<le> SIZE_MAX"

lemma strbuf_inv_new: "strbuf_new_general malloc_ok nm = Some b \<Longrightarrow> strbuf_inv b \<and> sb_bytes b = []"
  by (auto simp: strbuf_new_general_def strbuf_inv_def sb_len_def SIZE_MAX_def split: option.splits)

lemma strbuf_write_Some:
  assumes "strbuf_BinarySink_write malloc_ok b data = Some b'"
  shows "sb_bytes b' = sb_bytes b @ data" and "sb_nm b' = sb_nm b" and "strbuf_inv b'"
  using assms
  by (auto simp: strbuf_BinarySink_write_def strbuf_inv_def sb_len_def
      split: option.splits dest: safegrowarray_bounds)

lemma strbuf_shrink_inv:
  "strbuf_inv b \<Longrightarrow> strbuf_shrink_to b n = Some b' \<Longrightarrow> strbuf_inv b'"
  "strbuf_inv b \<Longrightarrow> strbuf_shrink_by b n = Some b' \<Longrightarrow> strbuf_inv b'"
  by (auto simp: strbuf_shrink_to_def strbuf_shrink_by_def strbuf_inv_def sb_len_def
      split: if_splits)

lemma strbuf_chomp_inv:
  "strbuf_inv b \<Longrightarrow> strbuf_chomp b c = Some (b', r) \<Longrightarrow> strbuf_inv b'"
  by (auto simp: strbuf_chomp_def split: if_splits option.splits dest: strbuf_shrink_inv(2))

text \<open>With memory available, writing to a strbuf of less than a gigabyte cannot fail.\<close>

lemma strbuf_write_total:
  assumes "strbuf_inv b" "sb_size b < 2 ^ 30" "length data < 2 ^ 29" and "\<forall>n. malloc_ok n"
  shows "strbuf_BinarySink_write malloc_ok b data \<noteq> None"
  using assms
  by (auto simp: strbuf_BinarySink_write_def safegrowarray_def Let_def strbuf_inv_def
      safemalloc_def saferealloc_def SIZE_MAX_def INT_MAX_def split: option.splits)

subsection \<open>Properties\<close>

text \<open>C4: a strbuf never overflows its allocation. After any append that returns, the visible bytes
  are the old ones followed by the new ones, and with their terminator they fit in the size
  \<open>safegrowarray\<close> settled on, which never wraps around.\<close>

theorem strbuf_append_fits:
  assumes "strbuf_BinarySink_write malloc_ok b data = Some b'"
  shows "sb_bytes b' = sb_bytes b @ data \<and> sb_len b' + 1 \<le> sb_size b' \<and>
         sb_size b \<le> sb_size b' \<and> sb_size b' \<le> SIZE_MAX"
proof -
  from assms obtain sz where "safegrowarray malloc_ok (sb_size b) 1 (sb_len b + 1) (length data) (sb_nm b) = Some sz"
    and "sb_size b' = sz"
    by (auto simp: strbuf_BinarySink_write_def split: option.splits)
  with safegrowarray_bounds [OF this(1)] strbuf_write_Some [OF assms] show ?thesis
    by (simp add: sb_len_def)
qed

theorem strbuf_append_fits_witness:
  "\<exists>b b'. strbuf_new_general (\<lambda>_. True) True = Some b \<and>
     strbuf_BinarySink_write (\<lambda>_. True) b (replicate 600 7) = Some b' \<and> sb_len b' + 1 \<le> sb_size b'"
proof -
  define b where "b = \<lparr>sb_size = 512, sb_nm = True, sb_bytes = []\<rparr>"
  define b' where "b' = \<lparr>sb_size = 768, sb_nm = True, sb_bytes = replicate 600 (7 :: byte)\<rparr>"
  have 1: "strbuf_new_general (\<lambda>_. True) True = Some b"
    by (simp add: b_def strbuf_new_general_def safemalloc_def SIZE_MAX_def)
  have 2: "strbuf_BinarySink_write (\<lambda>_. True) b (replicate 600 7) = Some b'"
    by (simp add: b_def b'_def strbuf_BinarySink_write_def safegrowarray_def sb_len_def
        safemalloc_def SIZE_MAX_def Let_def)
  from strbuf_append_fits [OF 2] 1 2 show ?thesis by blast
qed

end
