(* ===== verification/Bufchain.thy ===== *)
theory Bufchain
  imports Strbuf
begin

text \<open>
  The send buffers of \<open>utils/utils.c\<close>: a chain of granules, each with the bytes still
  to be consumed (\<open>bufpos .. bufend\<close>) and the room left behind them (\<open>bufmax - bufend\<close>).
  The list holds the granules from \<open>head\<close> to \<open>tail\<close>; \<open>NULL\<close> pointers are the empty list.
\<close>

definition BUFFER_MIN_GRANULE :: nat where "BUFFER_MIN_GRANULE = 512"

text \<open>\<open>sizeof(struct bufchain_granule)\<close>: four pointers on the 64-bit target.\<close>

definition sizeof_granule :: nat where "sizeof_granule = 32"

record granule =
  g_bytes :: "byte list"
  g_room :: nat

record bufchain =
  granules :: "granule list"
  buffersize :: nat
  callbacks_queued :: nat \<comment> \<open>calls of \<open>queue_idempotent_callback\<close> so far\<close>
  ic_set :: bool          \<comment> \<open>\<open>ch->ic != NULL\<close>\<close>

definition bufchain_init :: bufchain where
  "bufchain_init = \<lparr>granules = [], buffersize = 0, callbacks_queued = 0, ic_set = False\<rparr>"

definition bufchain_clear :: "bufchain \<Rightarrow> bufchain" where
  "bufchain_clear ch = ch\<lparr>granules := [], buffersize := 0\<rparr>"

definition bufchain_size :: "bufchain \<Rightarrow> nat" where
  "bufchain_size ch = buffersize ch"

definition bufchain_set_callback_inner :: "bufchain \<Rightarrow> bool \<Rightarrow> bufchain" where
  "bufchain_set_callback_inner ch ic = ch\<lparr>ic_set := ic\<rparr>"

text \<open>The copy into the tail granule at the head of \<open>bufchain_add\<close>'s loop body.\<close>

definition fill_tail :: "granule list \<Rightarrow> byte list \<Rightarrow> granule list \<times> byte list" where
  "fill_tail gs data =
     (if gs \<noteq> [] \<and> g_room (last gs) > 0
      then let copylen = min (length data) (g_room (last gs));
               t = last gs
           in (butlast gs @ [t\<lparr>g_bytes := g_bytes t @ take copylen data, g_room := g_room t - copylen\<rparr>],
               drop copylen data)
      else (gs, data))"

definition tail_room :: "granule list \<Rightarrow> nat" where
  "tail_room gs = (if gs = [] then 0 else g_room (last gs))"

lemma fill_tail_rest: "snd (fill_tail gs data) = drop (tail_room gs) data"
  by (auto simp: fill_tail_def tail_room_def Let_def min_def)

definition new_granule :: "nat \<Rightarrow> granule" where
  "new_granule len =
     (let grainlen = max (sizeof_granule + len) BUFFER_MIN_GRANULE
      in \<lparr>g_bytes = [], g_room = grainlen - sizeof_granule\<rparr>)"

lemma g_room_new_granule: "n \<le> g_room (new_granule n)"
  by (auto simp: new_granule_def Let_def sizeof_granule_def BUFFER_MIN_GRANULE_def)

function bufchain_add_loop :: "(nat \<Rightarrow> bool) \<Rightarrow> granule list \<Rightarrow> byte list \<Rightarrow> granule list option" where
  "bufchain_add_loop malloc_ok gs data =
     (if data = [] then Some gs
      else case fill_tail gs data of (gs', rest) \<Rightarrow>
        if rest = [] then Some gs'
        else case safemalloc malloc_ok
                    (max (sizeof_granule + length rest) BUFFER_MIN_GRANULE) 1 0 of
               None \<Rightarrow> None
             | Some _ \<Rightarrow> bufchain_add_loop malloc_ok (gs' @ [new_granule (length rest)]) rest)"
  by pat_completeness auto
termination
proof (relation "measure (\<lambda>(m, gs, data). if length data \<le> tail_room gs then 0 else 1)", goal_cases)
  case 1 show ?case by simp
next
  case (2 m gs data gs' rest x)
  then have "rest = drop (tail_room gs) data"
    by (metis fill_tail_rest snd_conv)
  with 2 have "\<not> length data \<le> tail_room gs" by auto
  then show ?case
    using g_room_new_granule [of "length rest"] by (simp add: tail_room_def)
qed

declare bufchain_add_loop.simps [simp del]

definition bufchain_add :: "(nat \<Rightarrow> bool) \<Rightarrow> bufchain \<Rightarrow> byte list \<Rightarrow> bufchain option" where
  "bufchain_add malloc_ok ch data =
     (if length data = 0 then Some ch
      else case bufchain_add_loop malloc_ok (granules ch) data of
             None \<Rightarrow> None
           | Some gs \<Rightarrow> Some (ch\<lparr>granules := gs, buffersize := buffersize ch + length data,
                                callbacks_queued :=
                                  callbacks_queued ch + (if ic_set ch then 1 else 0)\<rparr>))"

text \<open>
  The loops of \<open>bufchain_consume\<close> and \<open>bufchain_fetch\<close> read the length into an \<open>int\<close>
  (\<open>int remlen = len\<close>); a length that does not fit has no defined meaning there and is
  \<open>None\<close>, as are the failed asserts.
\<close>

fun bufchain_consume_loop :: "granule list \<Rightarrow> nat \<Rightarrow> nat \<Rightarrow> (granule list \<times> nat) option" where
  "bufchain_consume_loop gs bsize len =
     (if len = 0 then Some (gs, bsize)
      else if len > INT_MAX then None
      else case gs of
             [] \<Rightarrow> None
           | g # gs' \<Rightarrow>
               if len \<ge> length (g_bytes g)
               then bufchain_consume_loop gs' (bsize - length (g_bytes g)) (len - length (g_bytes g))
               else Some (g\<lparr>g_bytes := drop len (g_bytes g)\<rparr> # gs', bsize - len))"

definition bufchain_consume :: "bufchain \<Rightarrow> nat \<Rightarrow> bufchain option" where
  "bufchain_consume ch len =
     (if \<not> buffersize ch \<ge> len then None
      else case bufchain_consume_loop (granules ch) (buffersize ch) len of
             None \<Rightarrow> None
           | Some (gs, bsize) \<Rightarrow> Some (ch\<lparr>granules := gs, buffersize := bsize\<rparr>))"

definition bufchain_prefix :: "bufchain \<Rightarrow> byte list option" where
  "bufchain_prefix ch = (case granules ch of [] \<Rightarrow> None | g # _ \<Rightarrow> Some (g_bytes g))"

fun bufchain_fetch_loop :: "granule list \<Rightarrow> nat \<Rightarrow> byte list option" where
  "bufchain_fetch_loop gs len =
     (if len = 0 then Some []
      else if len > INT_MAX then None
      else case gs of
             [] \<Rightarrow> None
           | g # gs' \<Rightarrow>
               let remlen = (if len \<ge> length (g_bytes g) then length (g_bytes g) else len)
               in map_option ((@) (take remlen (g_bytes g))) (bufchain_fetch_loop gs' (len - remlen)))"

definition bufchain_fetch :: "bufchain \<Rightarrow> nat \<Rightarrow> byte list option" where
  "bufchain_fetch ch len =
     (if \<not> buffersize ch \<ge> len then None else bufchain_fetch_loop (granules ch) len)"

definition bufchain_fetch_consume :: "bufchain \<Rightarrow> nat \<Rightarrow> (byte list \<times> bufchain) option" where
  "bufchain_fetch_consume ch len =
     (case bufchain_fetch ch len of None \<Rightarrow> None
      | Some d \<Rightarrow> (case bufchain_consume ch len of None \<Rightarrow> None | Some ch' \<Rightarrow> Some (d, ch')))"

text \<open>\<open>Some None\<close> is the \<open>false\<close> return (not enough data, nothing changed).\<close>

definition bufchain_try_fetch_consume ::
    "bufchain \<Rightarrow> nat \<Rightarrow> (byte list option \<times> bufchain) option" where
  "bufchain_try_fetch_consume ch len =
     (if buffersize ch \<ge> len
      then map_option (\<lambda>(d, ch'). (Some d, ch')) (bufchain_fetch_consume ch len)
      else Some (None, ch))"

definition bufchain_fetch_consume_up_to :: "bufchain \<Rightarrow> nat \<Rightarrow> (byte list \<times> bufchain) option" where
  "bufchain_fetch_consume_up_to ch len =
     (let len = (if len > buffersize ch then buffersize ch else len)
      in if len \<noteq> 0 then bufchain_fetch_consume ch len else Some ([], ch))"

declare bufchain_consume_loop.simps [simp del] bufchain_fetch_loop.simps [simp del]

subsection \<open>The byte queue a chain stands for\<close>

definition bufchain_contents :: "bufchain \<Rightarrow> byte list" where
  "bufchain_contents ch = concat (map g_bytes (granules ch))"

definition bufchain_inv :: "bufchain \<Rightarrow> bool" where
  "bufchain_inv ch \<longleftrightarrow> buffersize ch = length (bufchain_contents ch)"

lemma fill_tail_contents:
  "fill_tail gs data = (gs', rest) \<Longrightarrow>
     concat (map g_bytes gs') @ rest = concat (map g_bytes gs) @ data"
  by (cases gs rule: rev_cases) (auto simp: fill_tail_def Let_def split: if_splits)

lemma g_bytes_new_granule [simp]: "g_bytes (new_granule n) = []"
  by (simp add: new_granule_def Let_def)

lemma bufchain_add_loop_contents:
  "bufchain_add_loop malloc_ok gs data = Some gs' \<Longrightarrow>
     concat (map g_bytes gs') = concat (map g_bytes gs) @ data"
proof (induction malloc_ok gs data rule: bufchain_add_loop.induct)
  case (1 malloc_ok gs data)
  obtain gs1 rest where f: "fill_tail gs data = (gs1, rest)" by (cases "fill_tail gs data")
  note c = fill_tail_contents [OF f]
  show ?case
  proof (cases "data = [] \<or> rest = []")
    case True
    with "1.prems" f c show ?thesis
      by (auto simp: bufchain_add_loop.simps [of malloc_ok gs data] split: if_splits)
  next
    case False
    with "1.prems" f obtain n where
      m: "safemalloc malloc_ok (max (sizeof_granule + length rest) BUFFER_MIN_GRANULE) 1 0 = Some n"
      and r: "bufchain_add_loop malloc_ok (gs1 @ [new_granule (length rest)]) rest = Some gs'"
      by (auto simp: bufchain_add_loop.simps [of malloc_ok gs data] split: option.splits)
    from False m r f have "concat (map g_bytes gs') =
        concat (map g_bytes (gs1 @ [new_granule (length rest)])) @ rest"
      using "1.IH" [OF _ f [symmetric] _ m r] by auto
    with c show ?thesis by simp
  qed
qed

lemma bufchain_add_Some:
  assumes "bufchain_add malloc_ok ch data = Some ch'"
  shows "bufchain_contents ch' = bufchain_contents ch @ data"
    and "bufchain_inv ch \<Longrightarrow> bufchain_inv ch'"
    and "callbacks_queued ch' =
           callbacks_queued ch + (if ic_set ch \<and> data \<noteq> [] then 1 else 0)"
  using assms
  by (auto simp: bufchain_add_def bufchain_contents_def bufchain_inv_def
      split: if_splits option.splits dest: bufchain_add_loop_contents)

lemma bufchain_consume_loop_contents:
  assumes "len \<le> length (concat (map g_bytes gs))" and "len \<le> INT_MAX"
  shows "\<exists>gs'. bufchain_consume_loop gs b len = Some (gs', b - len) \<and>
           concat (map g_bytes gs') = drop len (concat (map g_bytes gs))"
  using assms
proof (induction gs arbitrary: b len)
  case Nil
  then show ?case by (simp add: bufchain_consume_loop.simps)
next
  case (Cons g gs)
  show ?case
  proof (cases "len \<ge> length (g_bytes g)")
    case True
    with Cons.prems have "len - length (g_bytes g) \<le> length (concat (map g_bytes gs))"
      and "len - length (g_bytes g) \<le> INT_MAX" by auto
    from Cons.IH [OF this, of "b - length (g_bytes g)"] True Cons.prems show ?thesis
      by (auto simp: bufchain_consume_loop.simps [of "g # gs"])
  next
    case False
    with Cons.prems show ?thesis
      by (auto simp: bufchain_consume_loop.simps [of "g # gs"])
  qed
qed

lemma bufchain_fetch_loop_contents:
  assumes "len \<le> length (concat (map g_bytes gs))" and "len \<le> INT_MAX"
  shows "bufchain_fetch_loop gs len = Some (take len (concat (map g_bytes gs)))"
  using assms
proof (induction gs arbitrary: len)
  case Nil
  then show ?case by (simp add: bufchain_fetch_loop.simps)
next
  case (Cons g gs)
  show ?case
  proof (cases "len \<ge> length (g_bytes g)")
    case True
    with Cons.prems have "len - length (g_bytes g) \<le> length (concat (map g_bytes gs))"
      and "len - length (g_bytes g) \<le> INT_MAX" by auto
    from Cons.IH [OF this] True Cons.prems show ?thesis
      by (auto simp: bufchain_fetch_loop.simps [of "g # gs"] Let_def)
  next
    case False
    with Cons.prems show ?thesis
      by (simp add: bufchain_fetch_loop.simps [of "g # gs"] bufchain_fetch_loop.simps [of gs 0] Let_def)
  qed
qed

lemma bufchain_consume_Some:
  assumes "bufchain_inv ch" and "n \<le> length (bufchain_contents ch)" and "n \<le> INT_MAX"
  shows "\<exists>ch'. bufchain_consume ch n = Some ch' \<and>
           bufchain_contents ch' = drop n (bufchain_contents ch) \<and> bufchain_inv ch'"
  using bufchain_consume_loop_contents [of n "granules ch" "buffersize ch"] assms
  by (auto simp: bufchain_consume_def bufchain_contents_def bufchain_inv_def)

lemma bufchain_fetch_Some:
  assumes "bufchain_inv ch" and "n \<le> length (bufchain_contents ch)" and "n \<le> INT_MAX"
  shows "bufchain_fetch ch n = Some (take n (bufchain_contents ch))"
  using bufchain_fetch_loop_contents [of n "granules ch"] assms
  by (simp add: bufchain_fetch_def bufchain_contents_def bufchain_inv_def)

text \<open>Asking for more than there is trips the assert; nothing is ever invented.\<close>

lemma bufchain_fetch_short:
  "bufchain_inv ch \<Longrightarrow> length (bufchain_contents ch) < n \<Longrightarrow> bufchain_fetch ch n = None"
  by (simp add: bufchain_fetch_def bufchain_inv_def)

lemma bufchain_inv_init: "bufchain_inv bufchain_init"
  and bufchain_contents_init [simp]: "bufchain_contents bufchain_init = []"
  by (simp_all add: bufchain_inv_def bufchain_contents_def bufchain_init_def)

lemma bufchain_prefix_nonempty:
  "bufchain_prefix ch = Some d \<Longrightarrow> \<exists>rest. bufchain_contents ch = d @ rest"
  by (auto simp: bufchain_prefix_def bufchain_contents_def split: list.splits)

subsection \<open>The interface of a byte queue\<close>

text \<open>
  What the users of a chain rely on: bytes come out in the order they went in, whatever
  the sizes of the writes and reads. \<open>bufchain_fetch_consume\<close> is a fetch followed by a
  consume of the same length.
\<close>

datatype queue_op = QAdd "byte list" | QTake nat

fun queue_run ::
    "('q \<Rightarrow> byte list \<Rightarrow> 'q option) \<Rightarrow> ('q \<Rightarrow> nat \<Rightarrow> (byte list \<times> 'q) option) \<Rightarrow>
       'q \<Rightarrow> queue_op list \<Rightarrow> (byte list \<times> 'q) option" where
  "queue_run add tk q [] = Some ([], q)"
| "queue_run add tk q (QAdd d # ops) =
     (case add q d of None \<Rightarrow> None | Some q' \<Rightarrow> queue_run add tk q' ops)"
| "queue_run add tk q (QTake n # ops) =
     (case tk q n of None \<Rightarrow> None
      | Some (d, q') \<Rightarrow> map_option (\<lambda>(out, q''). (d @ out, q'')) (queue_run add tk q' ops))"

fun queue_input :: "queue_op list \<Rightarrow> byte list" where
  "queue_input [] = []"
| "queue_input (QAdd d # ops) = d @ queue_input ops"
| "queue_input (QTake n # ops) = queue_input ops"

definition fetch_then_consume ::
    "('q \<Rightarrow> nat \<Rightarrow> byte list option) \<Rightarrow> ('q \<Rightarrow> nat \<Rightarrow> 'q option) \<Rightarrow> 'q \<Rightarrow> nat \<Rightarrow>
       (byte list \<times> 'q) option" where
  "fetch_then_consume fetch consume q n =
     (case fetch q n of None \<Rightarrow> None
      | Some d \<Rightarrow> (case consume q n of None \<Rightarrow> None | Some q' \<Rightarrow> Some (d, q')))"

locale byte_queue =
  fixes contents :: "'q \<Rightarrow> byte list" and inv :: "'q \<Rightarrow> bool"
    and add :: "'q \<Rightarrow> byte list \<Rightarrow> 'q option"
    and fetch :: "'q \<Rightarrow> nat \<Rightarrow> byte list option"
    and consume :: "'q \<Rightarrow> nat \<Rightarrow> 'q option"
    and limit :: nat
  assumes add_law: "inv q \<Longrightarrow> add q d = Some q' \<Longrightarrow> contents q' = contents q @ d \<and> inv q'"
    and fetch_law: "inv q \<Longrightarrow> n \<le> length (contents q) \<Longrightarrow> n \<le> limit \<Longrightarrow>
          fetch q n = Some (take n (contents q))"
    and consume_law: "inv q \<Longrightarrow> n \<le> length (contents q) \<Longrightarrow> n \<le> limit \<Longrightarrow>
          \<exists>q'. consume q n = Some q' \<and> contents q' = drop n (contents q) \<and> inv q'"
begin

lemma fetch_consume_law:
  assumes "inv q" "n \<le> length (contents q)" "n \<le> limit"
  shows "\<exists>q'. fetch_then_consume fetch consume q n = Some (take n (contents q), q') \<and>
           contents q' = drop n (contents q) \<and> inv q'"
  using fetch_law [OF assms] consume_law [OF assms] by (auto simp: fetch_then_consume_def)

text \<open>A take that only ever asks for what is there (as \<open>..._up_to\<close> and \<open>try_...\<close> ensure).\<close>

lemma fifo:
  assumes "\<And>q n d q'. inv q \<Longrightarrow> tk q n = Some (d, q') \<Longrightarrow>
      contents q = d @ contents q' \<and> inv q'"
    and "inv q" and "queue_run add tk q ops = Some (out, q')"
  shows "out @ contents q' = contents q @ queue_input ops \<and> inv q'"
  using assms(2,3)
proof (induction ops arbitrary: q out)
  case Nil
  then show ?case by simp
next
  case (Cons op ops)
  show ?case
  proof (cases op)
    case (QAdd d)
    with Cons.prems obtain q1 where a: "add q d = Some q1" and r: "queue_run add tk q1 ops = Some (out, q')"
      by (auto split: option.splits)
    from add_law [OF Cons.prems(1) a] Cons.IH [OF _ r] show ?thesis by (simp add: QAdd)
  next
    case (QTake n)
    with Cons.prems obtain d q1 out1 where t: "tk q n = Some (d, q1)"
      and r: "queue_run add tk q1 ops = Some (out1, q')" and o: "out = d @ out1"
      by (auto split: option.splits)
    from assms(1) [OF Cons.prems(1) t] Cons.IH [OF _ r] show ?thesis by (simp add: QTake o)
  qed
qed

end

interpretation chain: byte_queue bufchain_contents bufchain_inv "bufchain_add malloc_ok"
    bufchain_fetch bufchain_consume INT_MAX
  for malloc_ok
  by unfold_locales
    (auto simp: bufchain_fetch_Some bufchain_consume_Some dest: bufchain_add_Some)

lemma bufchain_fetch_consume_eq:
  "bufchain_fetch_consume = fetch_then_consume bufchain_fetch bufchain_consume"
  by (rule ext)+ (simp add: bufchain_fetch_consume_def fetch_then_consume_def)

lemma bufchain_up_to_law:
  assumes "bufchain_inv ch" and "min n (bufchain_size ch) \<le> INT_MAX"
  shows "\<exists>ch'. bufchain_fetch_consume_up_to ch n = Some (take n (bufchain_contents ch), ch') \<and>
           bufchain_contents ch' = drop n (bufchain_contents ch) \<and> bufchain_inv ch'"
proof -
  let ?m = "min n (buffersize ch)"
  have b: "buffersize ch = length (bufchain_contents ch)" using assms(1) by (simp add: bufchain_inv_def)
  then have "?m \<le> length (bufchain_contents ch)" "?m \<le> INT_MAX"
    using assms(2) by (auto simp: bufchain_size_def)
  from chain.fetch_consume_law [OF assms(1) this] b assms(1) show ?thesis
    by (cases "n > buffersize ch")
      (auto simp: bufchain_fetch_consume_up_to_def bufchain_fetch_consume_eq Let_def)
qed

subsection \<open>Properties\<close>

lemma bufchain_fetch_consume_split:
  assumes "bufchain_inv q" and "bufchain_fetch_consume q n = Some (d, q')" and "n \<le> INT_MAX"
  shows "bufchain_contents q = d @ bufchain_contents q' \<and> bufchain_inv q' \<and>
    length d = n \<and> n \<le> length (bufchain_contents q)"
proof -
  from assms(2) have "bufchain_fetch q n \<noteq> None"
    by (auto simp: bufchain_fetch_consume_def split: option.splits)
  with bufchain_fetch_short [OF assms(1)] have n: "n \<le> length (bufchain_contents q)"
    by (meson not_less)
  from chain.fetch_consume_law [OF assms(1) n assms(3)] assms(2) n show ?thesis
    by (auto simp: bufchain_fetch_consume_eq)
qed

lemma bufchain_consume_loop_limit:
  "bufchain_consume_loop gs b n = Some r \<Longrightarrow> n \<le> INT_MAX"
  by (subst (asm) bufchain_consume_loop.simps) (auto split: if_splits)

lemma bufchain_fetch_consume_limit:
  "bufchain_fetch_consume q n = Some r \<Longrightarrow> n \<le> INT_MAX"
  by (auto simp: bufchain_fetch_consume_def bufchain_consume_def
      dest: bufchain_consume_loop_limit split: option.splits if_splits prod.splits)

text \<open>C2: a bufchain is a byte queue. Over any sequence of \<open>bufchain_add\<close> and
  \<open>bufchain_fetch_consume\<close> calls that completes from an empty chain, the bytes fetched,
  followed by those still in the chain, are the bytes added, in order; and \<open>buffersize\<close>
  is the number of bytes held.\<close>

theorem bufchain_is_fifo:
  assumes "queue_run (bufchain_add malloc_ok) bufchain_fetch_consume bufchain_init ops = Some (out, ch)"
  shows "out @ bufchain_contents ch = queue_input ops \<and>
         bufchain_size ch = length (bufchain_contents ch)"
proof -
  have "out @ bufchain_contents ch = bufchain_contents bufchain_init @ queue_input ops \<and> bufchain_inv ch"
    by (rule chain.fifo [OF _ bufchain_inv_init assms])
      (use bufchain_fetch_consume_split bufchain_fetch_consume_limit in blast)
  then show ?thesis by (simp add: bufchain_inv_def bufchain_size_def)
qed

theorem bufchain_is_fifo_witness:
  "\<exists>out ch. queue_run (bufchain_add (\<lambda>_. True)) bufchain_fetch_consume bufchain_init
      [QAdd [1, 2], QAdd [3], QTake 2, QAdd [4], QTake 1] = Some (out, ch) \<and>
    out @ bufchain_contents ch = [1, 2, 3, 4] \<and> out = [1, 2, 3]"
proof -
  let ?ops = "[QAdd [1, 2], QAdd [3], QTake 2, QAdd [4], QTake 1]"
  let ?ch = "\<lparr>granules = [\<lparr>g_bytes = [4], g_room = 476\<rparr>], buffersize = 1,
      callbacks_queued = 0, ic_set = False\<rparr>"
  have r: "queue_run (bufchain_add (\<lambda>_. True)) bufchain_fetch_consume bufchain_init ?ops
      = Some ([1, 2, 3], ?ch)"
    by (simp add: bufchain_add_def bufchain_init_def bufchain_add_loop.simps fill_tail_def
        safemalloc_def SIZE_MAX_def new_granule_def sizeof_granule_def BUFFER_MIN_GRANULE_def
        bufchain_fetch_consume_def bufchain_fetch_def bufchain_fetch_loop.simps
        bufchain_consume_def bufchain_consume_loop.simps INT_MAX_def)
  from bufchain_is_fifo [OF r] r show ?thesis by auto
qed

text \<open>C5: reading a chain, when at most \<open>INT_MAX\<close> bytes are to be read (the code counts the rest of a
  read in an \<open>int\<close>). A fetch-and-consume of \<open>n\<close> bytes that are there returns the first \<open>n\<close> and leaves
  the rest, and fails the assertion exactly when fewer are there; \<open>try_fetch_consume\<close> then refuses instead and
  changes nothing, and otherwise reads and consumes the same; \<open>fetch_consume_up_to\<close> returns what there is of
  them, and leaves the rest.\<close>

theorem bufchain_reads:
  assumes "bufchain_inv ch" and "min n (bufchain_size ch) \<le> INT_MAX"
  shows "(n \<le> bufchain_size ch \<longrightarrow>
           (\<exists>ch'. bufchain_fetch_consume ch n = Some (take n (bufchain_contents ch), ch') \<and>
                  bufchain_try_fetch_consume ch n = Some (Some (take n (bufchain_contents ch)), ch') \<and>
                  bufchain_contents ch' = drop n (bufchain_contents ch) \<and> bufchain_inv ch')) \<and>
         (bufchain_size ch < n \<longrightarrow>
           bufchain_fetch_consume ch n = None \<and> bufchain_try_fetch_consume ch n = Some (None, ch)) \<and>
         (\<exists>ch'. bufchain_fetch_consume_up_to ch n = Some (take n (bufchain_contents ch), ch') \<and>
           bufchain_contents ch' = drop n (bufchain_contents ch) \<and> bufchain_inv ch')"
proof -
  have b: "buffersize ch = length (bufchain_contents ch)" using assms(1) by (simp add: bufchain_inv_def)
  have "\<exists>ch'. bufchain_fetch_consume ch n = Some (take n (bufchain_contents ch), ch') \<and>
      bufchain_try_fetch_consume ch n = Some (Some (take n (bufchain_contents ch)), ch') \<and>
      bufchain_contents ch' = drop n (bufchain_contents ch) \<and> bufchain_inv ch'"
    if "n \<le> bufchain_size ch"
    using chain.fetch_consume_law [OF assms(1), of n] b that assms(2)
    by (auto simp: bufchain_size_def bufchain_fetch_consume_eq bufchain_try_fetch_consume_def)
  moreover have "bufchain_fetch_consume ch n = None \<and> bufchain_try_fetch_consume ch n = Some (None, ch)"
    if "bufchain_size ch < n"
    using that b bufchain_fetch_short [OF assms(1), of n]
    by (simp add: bufchain_try_fetch_consume_def bufchain_fetch_consume_def bufchain_size_def)
  moreover note bufchain_up_to_law [OF assms]
  ultimately show ?thesis by blast
qed

definition example_bufchain :: bufchain where
  "example_bufchain = \<lparr>granules = [\<lparr>g_bytes = [1, 2], g_room = 2\<rparr>, \<lparr>g_bytes = [3], g_room = 2\<rparr>], buffersize = 3,
     callbacks_queued = 0, ic_set = False\<rparr>"

theorem bufchain_reads_witness:
  "\<exists>ch. bufchain_try_fetch_consume example_bufchain 2 = Some (Some [1, 2], ch) \<and> bufchain_contents ch = [3] \<and>
    bufchain_inv ch"
proof -
  have e: "bufchain_inv example_bufchain" "bufchain_size example_bufchain = 3" "bufchain_contents example_bufchain = [1, 2, 3]"
    by (simp_all add: example_bufchain_def bufchain_inv_def bufchain_contents_def bufchain_size_def)
  have "min 2 (bufchain_size example_bufchain) \<le> INT_MAX" by (simp add: e INT_MAX_def)
  from bufchain_reads [OF e(1) this] show ?thesis by (auto simp: e)
qed

end
