(* ===== verification/Marshal.thy ===== *)
theory Marshal
  imports Bufchain
begin

text \<open>
  \<open>utils/marshal.c\<close> with \<open>marshal.h\<close>: the \<open>BinarySink\<close> operations over the one
  virtual method \<open>write\<close> every sink provides, and the \<open>BinarySource\<close> decoder with its
  sticky error field. A \<open>ptrlen\<close> result is the list of its bytes.
\<close>

subsection \<open>BinarySink\<close>

text \<open>
  \<open>wr\<close> is the sink's vtable entry \<open>write\<close>; it returns \<open>None\<close> when it does not return
  (\<open>out_of_memory\<close>). A false assertion of a \<open>put\<close> is \<open>None\<close> too.
\<close>

type_synonym 's sink_write = "'s \<Rightarrow> byte list \<Rightarrow> 's option"

definition BinarySink_put_data :: "'s sink_write \<Rightarrow> 's \<Rightarrow> byte list \<Rightarrow> 's option" where
  "BinarySink_put_data wr bs data = wr bs data"

function BinarySink_put_padding :: "'s sink_write \<Rightarrow> 's \<Rightarrow> nat \<Rightarrow> byte \<Rightarrow> 's option" where
  "BinarySink_put_padding wr bs len padbyte =
     (if len > 0
      then let thislen = (if len < 16 then len else 16)
           in case wr bs (replicate thislen padbyte) of
                None \<Rightarrow> None
              | Some bs' \<Rightarrow> BinarySink_put_padding wr bs' (len - thislen) padbyte
      else Some bs)"
  by pat_completeness auto
termination
  by (relation "measure (\<lambda>(w, bs, len, p). len)") (auto split: if_splits)

declare BinarySink_put_padding.simps [simp del]

definition BinarySink_put_byte :: "'s sink_write \<Rightarrow> 's \<Rightarrow> byte \<Rightarrow> 's option" where
  "BinarySink_put_byte wr bs val = wr bs [val]"

definition BinarySink_put_bool :: "'s sink_write \<Rightarrow> 's \<Rightarrow> bool \<Rightarrow> 's option" where
  "BinarySink_put_bool wr bs val =
     (let cval = (if val then 1 else 0) in wr bs [cval])"

definition BinarySink_put_uint16 :: "'s sink_write \<Rightarrow> 's \<Rightarrow> u32 \<Rightarrow> 's option" where
  "BinarySink_put_uint16 wr bs val = wr bs (PUT_16BIT_MSB_FIRST (ucast val))"

definition BinarySink_put_uint32 :: "'s sink_write \<Rightarrow> 's \<Rightarrow> u32 \<Rightarrow> 's option" where
  "BinarySink_put_uint32 wr bs val = wr bs (PUT_32BIT_MSB_FIRST val)"

definition BinarySink_put_uint64 :: "'s sink_write \<Rightarrow> 's \<Rightarrow> u64 \<Rightarrow> 's option" where
  "BinarySink_put_uint64 wr bs val = wr bs (PUT_64BIT_MSB_FIRST val)"

definition BinarySink_put_string :: "'s sink_write \<Rightarrow> 's \<Rightarrow> byte list \<Rightarrow> 's option" where
  "BinarySink_put_string wr bs data =
     (if \<not> length data div 2 ^ 31 < 2 then None
      else case BinarySink_put_uint32 wr bs (word_of_nat (length data)) of
             None \<Rightarrow> None
           | Some bs' \<Rightarrow> wr bs' data)"

definition BinarySink_put_stringz :: "'s sink_write \<Rightarrow> 's \<Rightarrow> byte list \<Rightarrow> 's option" where
  "BinarySink_put_stringz wr bs str = BinarySink_put_string wr bs str"

definition BinarySink_put_asciz :: "'s sink_write \<Rightarrow> 's \<Rightarrow> byte list \<Rightarrow> 's option" where
  "BinarySink_put_asciz wr bs str = wr bs (str @ [0])"

text \<open>\<open>put_pstring\<close> returns false, and writes nothing, when the string is too long.\<close>

definition BinarySink_put_pstring :: "'s sink_write \<Rightarrow> 's \<Rightarrow> byte list \<Rightarrow> ('s \<times> bool) option" where
  "BinarySink_put_pstring wr bs str =
     (if length str > 255 then Some (bs, False)
      else case BinarySink_put_byte wr bs (word_of_nat (length str)) of
             None \<Rightarrow> None
           | Some bs' \<Rightarrow> map_option (\<lambda>bs''. (bs'', True)) (wr bs' str))"

subsection \<open>BinarySource\<close>

datatype BinarySourceError = BSE_NO_ERROR | BSE_OUT_OF_DATA | BSE_INVALID

record BinarySource =
  src_data :: "byte list"
  src_pos :: nat
  src_err :: BinarySourceError

abbreviation src_len :: "BinarySource \<Rightarrow> nat" where
  "src_len src \<equiv> length (src_data src)"

definition BinarySource_INIT :: "byte list \<Rightarrow> BinarySource" where
  "BinarySource_INIT data = \<lparr>src_data = data, src_pos = 0, src_err = BSE_NO_ERROR\<rparr>"

definition BinarySource_data_avail :: "BinarySource \<Rightarrow> nat \<Rightarrow> bool \<times> BinarySource" where
  "BinarySource_data_avail src wanted =
     (if src_err src \<noteq> BSE_NO_ERROR then (False, src)
      else if wanted \<le> src_len src - src_pos src then (True, src)
      else (False, src\<lparr>src_err := BSE_OUT_OF_DATA\<rparr>))"

text \<open>The macro \<open>consume(dist)\<close>: the bytes stepped over, and the source after them.\<close>

definition consume :: "BinarySource \<Rightarrow> nat \<Rightarrow> byte list \<times> BinarySource" where
  "consume src dist =
     (take dist (drop (src_pos src) (src_data src)), src\<lparr>src_pos := src_pos src + dist\<rparr>)"

definition here :: "BinarySource \<Rightarrow> byte list" where
  "here src = drop (src_pos src) (src_data src)"

definition BinarySource_get_data :: "BinarySource \<Rightarrow> nat \<Rightarrow> byte list \<times> BinarySource" where
  "BinarySource_get_data src wanted =
     (case BinarySource_data_avail src wanted of
        (False, src) \<Rightarrow> ([], src)
      | (True, src) \<Rightarrow> consume src wanted)"

definition BinarySource_get_byte :: "BinarySource \<Rightarrow> byte \<times> BinarySource" where
  "BinarySource_get_byte src =
     (case BinarySource_data_avail src 1 of
        (False, src) \<Rightarrow> (0, src)
      | (True, src) \<Rightarrow> (case consume src 1 of (ucp, src) \<Rightarrow> (ucp ! 0, src)))"

definition BinarySource_get_bool :: "BinarySource \<Rightarrow> bool \<times> BinarySource" where
  "BinarySource_get_bool src =
     (case BinarySource_data_avail src 1 of
        (False, src) \<Rightarrow> (False, src)
      | (True, src) \<Rightarrow> (case consume src 1 of (ucp, src) \<Rightarrow> (ucp ! 0 \<noteq> 0, src)))"

definition BinarySource_get_uint16 :: "BinarySource \<Rightarrow> u32 \<times> BinarySource" where
  "BinarySource_get_uint16 src =
     (case BinarySource_data_avail src 2 of
        (False, src) \<Rightarrow> (0, src)
      | (True, src) \<Rightarrow> (case consume src 2 of (ucp, src) \<Rightarrow> (ucast (GET_16BIT_MSB_FIRST ucp), src)))"

definition BinarySource_get_uint32 :: "BinarySource \<Rightarrow> u32 \<times> BinarySource" where
  "BinarySource_get_uint32 src =
     (case BinarySource_data_avail src 4 of
        (False, src) \<Rightarrow> (0, src)
      | (True, src) \<Rightarrow> (case consume src 4 of (ucp, src) \<Rightarrow> (GET_32BIT_MSB_FIRST ucp, src)))"

definition BinarySource_get_uint64 :: "BinarySource \<Rightarrow> u64 \<times> BinarySource" where
  "BinarySource_get_uint64 src =
     (case BinarySource_data_avail src 8 of
        (False, src) \<Rightarrow> (0, src)
      | (True, src) \<Rightarrow> (case consume src 8 of (ucp, src) \<Rightarrow> (GET_64BIT_MSB_FIRST ucp, src)))"

definition BinarySource_get_string :: "BinarySource \<Rightarrow> byte list \<times> BinarySource" where
  "BinarySource_get_string src =
     (case BinarySource_data_avail src 4 of
        (False, src) \<Rightarrow> ([], src)
      | (True, src) \<Rightarrow>
         (case consume src 4 of (ucp, src) \<Rightarrow>
            let len = unat (GET_32BIT_MSB_FIRST ucp)
            in case BinarySource_data_avail src len of
                 (False, src) \<Rightarrow> ([], src)
               | (True, src) \<Rightarrow> consume src len))"

definition BinarySource_get_asciz :: "BinarySource \<Rightarrow> byte list \<times> BinarySource" where
  "BinarySource_get_asciz src =
     (if src_err src \<noteq> BSE_NO_ERROR then ([], src)
      else let start = here src
           in if 0 \<notin> set start then ([], src\<lparr>src_err := BSE_OUT_OF_DATA\<rparr>)
              else let str = takeWhile (\<lambda>c. c \<noteq> 0) start
                   in (str, src\<lparr>src_pos := src_pos src + (length str + 1)\<rparr>))"

text \<open>
  \<open>get_chars\<close> and \<open>get_nonchars\<close>. The loop's \<open>avail(1)\<close> at the end of the data sets the
  error like any other read.
\<close>

function get_chars_loop :: "BinarySource \<Rightarrow> byte list \<Rightarrow> bool \<Rightarrow> BinarySource" where
  "get_chars_loop src cs include =
     (case BinarySource_data_avail src 1 of
        (False, src') \<Rightarrow> src'
      | (True, src') \<Rightarrow>
          if strchr_mem cs (hd (here src')) \<noteq> include then src'
          else get_chars_loop (snd (consume src' 1)) cs include)"
  by pat_completeness auto
termination
  by (relation "measure (\<lambda>(src, cs, i). src_len src - src_pos src)")
    (auto simp: BinarySource_data_avail_def consume_def split: if_splits)

declare get_chars_loop.simps [simp del]

definition BinarySource_get_chars_internal ::
    "BinarySource \<Rightarrow> byte list \<Rightarrow> bool \<Rightarrow> byte list \<times> BinarySource" where
  "BinarySource_get_chars_internal src cs include =
     (let start = src_pos src; src' = get_chars_loop src cs include
      in (take (src_pos src' - start) (drop start (src_data src)), src'))"

definition BinarySource_get_chars :: "BinarySource \<Rightarrow> byte list \<Rightarrow> byte list \<times> BinarySource" where
  "BinarySource_get_chars src include_set = BinarySource_get_chars_internal src include_set True"

definition BinarySource_get_nonchars :: "BinarySource \<Rightarrow> byte list \<Rightarrow> byte list \<times> BinarySource" where
  "BinarySource_get_nonchars src exclude_set = BinarySource_get_chars_internal src exclude_set False"

definition chomp_last :: "byte \<Rightarrow> byte list \<Rightarrow> byte list" where
  "chomp_last c s = (if s \<noteq> [] \<and> last s = c then butlast s else s)"

definition BinarySource_get_chomped_line :: "BinarySource \<Rightarrow> byte list \<times> BinarySource" where
  "BinarySource_get_chomped_line src =
     (if src_err src \<noteq> BSE_NO_ERROR then ([], src)
      else let start = here src;
               n = (if 10 \<in> set start then length (takeWhile (\<lambda>c. c \<noteq> 10) start) + 1
                    else src_len src - src_pos src)
           in (chomp_last 13 (chomp_last 10 (take n start)), src\<lparr>src_pos := src_pos src + n\<rparr>))"

definition BinarySource_get_pstring :: "BinarySource \<Rightarrow> byte list \<times> BinarySource" where
  "BinarySource_get_pstring src =
     (case BinarySource_data_avail src 1 of
        (False, src) \<Rightarrow> ([], src)
      | (True, src) \<Rightarrow>
         (case consume src 1 of (ucp, src) \<Rightarrow>
            let len = unat (ucp ! 0)
            in case BinarySource_data_avail src len of
                 (False, src) \<Rightarrow> ([], src)
               | (True, src) \<Rightarrow> consume src len))"

definition BinarySource_REWIND_TO :: "BinarySource \<Rightarrow> nat \<Rightarrow> BinarySource" where
  "BinarySource_REWIND_TO src p =
     (if p \<le> src_len src then src\<lparr>src_pos := p, src_err := BSE_NO_ERROR\<rparr>
      else src\<lparr>src_pos := src_len src, src_err := BSE_OUT_OF_DATA\<rparr>)"

definition bufchain_sink_write :: "(nat \<Rightarrow> bool) \<Rightarrow> bufchain \<Rightarrow> byte list \<Rightarrow> bufchain option" where
  "bufchain_sink_write malloc_ok ch data = bufchain_add malloc_ok ch data"

subsection \<open>The sink interface\<close>

text \<open>What a \<open>BinarySink\<close> implementation promises its \<open>put\<close> clients: \<open>write\<close> appends.\<close>

locale binary_sink =
  fixes wr :: "'s sink_write" and contents :: "'s \<Rightarrow> byte list" and inv :: "'s \<Rightarrow> bool"
  assumes write_law: "inv s \<Longrightarrow> wr s d = Some s' \<Longrightarrow> contents s' = contents s @ d \<and> inv s'"

text \<open>
  A packet body as a sequence of typed fields, what each \<open>put\<close> appends for it, and the
  values that can be represented (a string length fits 32 bits, a Pascal string length fits
  a byte, a zero-terminated string has no zero byte).
\<close>

datatype field =
    F_byte byte | F_bool bool | F_uint16 u16 | F_uint32 u32 | F_uint64 u64
  | F_string "byte list" | F_pstring "byte list" | F_asciz "byte list" | F_data "byte list"

datatype ftype = T_byte | T_bool | T_uint16 | T_uint32 | T_uint64 | T_string | T_pstring | T_asciz
  | T_data nat

fun ftype_of :: "field \<Rightarrow> ftype" where
  "ftype_of (F_byte _) = T_byte"
| "ftype_of (F_bool _) = T_bool"
| "ftype_of (F_uint16 _) = T_uint16"
| "ftype_of (F_uint32 _) = T_uint32"
| "ftype_of (F_uint64 _) = T_uint64"
| "ftype_of (F_string _) = T_string"
| "ftype_of (F_pstring _) = T_pstring"
| "ftype_of (F_asciz _) = T_asciz"
| "ftype_of (F_data d) = T_data (length d)"

fun field_ok :: "field \<Rightarrow> bool" where
  "field_ok (F_string d) \<longleftrightarrow> length d < 2 ^ 32"
| "field_ok (F_pstring d) \<longleftrightarrow> length d \<le> 255"
| "field_ok (F_asciz d) \<longleftrightarrow> cstring d"
| "field_ok _ \<longleftrightarrow> True"

fun encode_field :: "field \<Rightarrow> byte list" where
  "encode_field (F_byte v) = [v]"
| "encode_field (F_bool v) = [if v then 1 else 0]"
| "encode_field (F_uint16 v) = PUT_16BIT_MSB_FIRST v"
| "encode_field (F_uint32 v) = PUT_32BIT_MSB_FIRST v"
| "encode_field (F_uint64 v) = PUT_64BIT_MSB_FIRST v"
| "encode_field (F_string d) = PUT_32BIT_MSB_FIRST (word_of_nat (length d)) @ d"
| "encode_field (F_pstring d) = word_of_nat (length d) # d"
| "encode_field (F_asciz d) = d @ [0]"
| "encode_field (F_data d) = d"

fun put_field :: "'s sink_write \<Rightarrow> 's \<Rightarrow> field \<Rightarrow> 's option" where
  "put_field wr bs (F_byte v) = BinarySink_put_byte wr bs v"
| "put_field wr bs (F_bool v) = BinarySink_put_bool wr bs v"
| "put_field wr bs (F_uint16 v) = BinarySink_put_uint16 wr bs (ucast v)"
| "put_field wr bs (F_uint32 v) = BinarySink_put_uint32 wr bs v"
| "put_field wr bs (F_uint64 v) = BinarySink_put_uint64 wr bs v"
| "put_field wr bs (F_string d) = BinarySink_put_string wr bs d"
| "put_field wr bs (F_pstring d) = map_option fst (BinarySink_put_pstring wr bs d)"
| "put_field wr bs (F_asciz d) = BinarySink_put_asciz wr bs d"
| "put_field wr bs (F_data d) = BinarySink_put_data wr bs d"

fun put_fields :: "'s sink_write \<Rightarrow> 's \<Rightarrow> field list \<Rightarrow> 's option" where
  "put_fields wr bs [] = Some bs"
| "put_fields wr bs (f # fs) =
     (case put_field wr bs f of None \<Rightarrow> None | Some bs' \<Rightarrow> put_fields wr bs' fs)"

fun get_field :: "BinarySource \<Rightarrow> ftype \<Rightarrow> field \<times> BinarySource" where
  "get_field src T_byte = apfst F_byte (BinarySource_get_byte src)"
| "get_field src T_bool = apfst F_bool (BinarySource_get_bool src)"
| "get_field src T_uint16 = apfst (F_uint16 \<circ> ucast) (BinarySource_get_uint16 src)"
| "get_field src T_uint32 = apfst F_uint32 (BinarySource_get_uint32 src)"
| "get_field src T_uint64 = apfst F_uint64 (BinarySource_get_uint64 src)"
| "get_field src T_string = apfst F_string (BinarySource_get_string src)"
| "get_field src T_pstring = apfst F_pstring (BinarySource_get_pstring src)"
| "get_field src T_asciz = apfst F_asciz (BinarySource_get_asciz src)"
| "get_field src (T_data n) = apfst F_data (BinarySource_get_data src n)"

fun get_fields :: "BinarySource \<Rightarrow> ftype list \<Rightarrow> field list \<times> BinarySource" where
  "get_fields src [] = ([], src)"
| "get_fields src (t # ts) =
     (case get_field src t of (f, src') \<Rightarrow> apfst ((#) f) (get_fields src' ts))"

context binary_sink
begin

lemma put_padding_law:
  "inv s \<Longrightarrow> BinarySink_put_padding wr s n p = Some s' \<Longrightarrow>
     contents s' = contents s @ replicate n p \<and> inv s'"
proof (induction n arbitrary: s rule: less_induct)
  case (less n)
  show ?case
  proof (cases "n > 0")
    case True
    define k where "k = (if n < 16 then n else 16)"
    with True have k: "n - k < n" "k \<le> n" by auto
    from less.prems True obtain s1 where w: "wr s (replicate k p) = Some s1"
      and r: "BinarySink_put_padding wr s1 (n - k) p = Some s'"
      by (auto simp: BinarySink_put_padding.simps [of wr s n] k_def Let_def split: option.splits)
    from write_law [OF less.prems(1) w] less.IH [OF k(1) _ r] k(2) show ?thesis
      by (simp add: replicate_add [symmetric])
  next
    case False
    with less.prems show ?thesis by (simp add: BinarySink_put_padding.simps)
  qed
qed

lemma put_string_law:
  assumes "inv s" and "BinarySink_put_string wr s d = Some s'"
  shows "length d < 2 ^ 32 \<and> inv s' \<and>
    contents s' = contents s @ PUT_32BIT_MSB_FIRST (word_of_nat (length d)) @ d"
proof -
  from assms(2) obtain s1 where l: "length d div 2 ^ 31 < 2"
    and u: "wr s (PUT_32BIT_MSB_FIRST (word_of_nat (length d))) = Some s1"
    and w: "wr s1 d = Some s'"
    by (auto simp: BinarySink_put_string_def BinarySink_put_uint32_def split: if_splits option.splits)
  from l have "length d < 2 ^ 32" by (simp add: div_less_iff_less_mult)
  with write_law [OF assms(1) u] write_law [OF _ w] show ?thesis by simp
qed

lemma put_field_law:
  assumes "inv s" and "put_field wr s f = Some s'" and "field_ok f"
  shows "contents s' = contents s @ encode_field f \<and> inv s'"
proof (cases f)
  case (F_string d)
  with assms put_string_law show ?thesis by simp
next
  case (F_pstring d)
  with assms obtain s1 where u: "wr s [word_of_nat (length d)] = Some s1"
    and w: "wr s1 d = Some s'"
    by (auto simp: BinarySink_put_pstring_def BinarySink_put_byte_def split: if_splits option.splits)
  with write_law [OF assms(1) u] write_law [OF _ w] F_pstring show ?thesis by simp
qed (use assms write_law in
  \<open>auto simp: BinarySink_put_byte_def BinarySink_put_bool_def BinarySink_put_uint16_def
     BinarySink_put_uint32_def BinarySink_put_uint64_def BinarySink_put_asciz_def
     BinarySink_put_data_def Let_def ucast_down_ucast_id is_down\<close>)

lemma put_fields_law:
  "inv s \<Longrightarrow> put_fields wr s fs = Some s' \<Longrightarrow> list_all field_ok fs \<Longrightarrow>
     contents s' = contents s @ concat (map encode_field fs) \<and> inv s'"
proof (induction fs arbitrary: s)
  case Nil
  then show ?case by simp
next
  case (Cons f fs)
  then obtain s1 where p: "put_field wr s f = Some s1" and r: "put_fields wr s1 fs = Some s'"
    by (auto split: option.splits)
  from put_field_law [OF Cons.prems(1) p] Cons.IH [OF _ r] Cons.prems(3) show ?case by simp
qed

end

text \<open>The two sinks of the library, and every byte queue: a queue that adds is a sink.\<close>

sublocale byte_queue \<subseteq> as_sink: binary_sink add contents inv
  by unfold_locales (rule add_law)

interpretation sb_sink: binary_sink "strbuf_BinarySink_write malloc_ok" sb_bytes strbuf_inv
  for malloc_ok
  by unfold_locales (simp add: strbuf_write_Some)

interpretation ch_sink: binary_sink "bufchain_sink_write malloc_ok" bufchain_contents bufchain_inv
  for malloc_ok
  by unfold_locales (auto simp: bufchain_sink_write_def dest: chain.add_law)

subsection \<open>Decoding what was encoded\<close>

definition src_inv :: "BinarySource \<Rightarrow> bool" where
  "src_inv src \<longleftrightarrow> src_pos src \<le> src_len src"

lemmas get_defs =
  BinarySource_get_data_def BinarySource_get_byte_def BinarySource_get_bool_def
  BinarySource_get_uint16_def BinarySource_get_uint32_def BinarySource_get_uint64_def
  BinarySource_get_string_def BinarySource_get_pstring_def
  BinarySource_data_avail_def consume_def

lemma here_length: "src_inv src \<Longrightarrow> length (here src) = src_len src - src_pos src"
  by (simp add: here_def src_inv_def)

lemma avail_here:
  assumes "src_inv src" "src_err src = BSE_NO_ERROR" "n \<le> length (here src)"
  shows "BinarySource_data_avail src n = (True, src)"
  using assms by (simp add: BinarySource_data_avail_def here_length)

lemma consume_here:
  "consume src n = (take n (here src), src\<lparr>src_pos := src_pos src + n\<rparr>)"
  by (simp add: consume_def here_def)

lemma here_advance: "here (src\<lparr>src_pos := src_pos src + n\<rparr>) = drop n (here src)"
  by (simp add: here_def add.commute)

lemma get_field_encode:
  assumes inv: "src_inv src" "src_err src = BSE_NO_ERROR"
    and here: "here src = encode_field f @ rest" and ok: "field_ok f"
  shows "get_field src (ftype_of f) =
    (f, src\<lparr>src_pos := src_pos src + length (encode_field f)\<rparr>)"
proof -
  have av: "BinarySource_data_avail src n = (True, src)" if "n \<le> length (encode_field f)" for n
    using avail_here [OF inv] here that by simp
  have av2: "BinarySource_data_avail (src\<lparr>src_pos := src_pos src + k\<rparr>) n =
      (True, src\<lparr>src_pos := src_pos src + k\<rparr>)" if "k + n \<le> length (encode_field f)" for k n
  proof (rule avail_here)
    have "length (here src) = src_len src - src_pos src" by (rule here_length [OF inv(1)])
    with that here inv(1) show "src_inv (src\<lparr>src_pos := src_pos src + k\<rparr>)"
      by (simp add: src_inv_def)
    show "n \<le> length (here (src\<lparr>src_pos := src_pos src + k\<rparr>))"
      unfolding here_advance using that here by simp
  qed (simp add: inv)
  show ?thesis
  proof (cases f)
    case (F_string d)
    with ok have "unat (word_of_nat (length d) :: u32) = length d" by (simp add: unat_of_nat_u32)
    with F_string av [of 4] av2 [of 4 "length d"] here show ?thesis
      by (simp add: BinarySource_get_string_def consume_here here_advance GET_PUT_32 add.commute)
  next
    case (F_pstring d)
    with ok have "unat (word_of_nat (length d) :: byte) = length d" by (simp add: unat_of_nat_byte)
    with F_pstring av [of 1] av2 [of 1 "length d"] here here_advance [of src 1] show ?thesis
      by (simp add: BinarySource_get_pstring_def consume_here Let_def)
  next
    case (F_asciz d)
    with ok have "0 \<notin> set d" by (simp add: cstring_def)
    with F_asciz here inv show ?thesis
      by (auto simp: BinarySource_get_asciz_def Let_def takeWhile_neq_append_hit)
  next
    case (F_uint16 v)
    have "ucast (ucast v :: u32) = v" by (simp add: ucast_down_ucast_id is_down)
    with F_uint16 av [of 2] here show ?thesis
      by (simp add: BinarySource_get_uint16_def consume_here GET_PUT_16)
  qed (use av here in \<open>auto simp: BinarySource_get_byte_def BinarySource_get_bool_def
      BinarySource_get_uint32_def BinarySource_get_uint64_def BinarySource_get_data_def
      consume_here GET_PUT_32 GET_PUT_64\<close>)
qed

lemma get_fields_encode:
  "src_inv src \<Longrightarrow> src_err src = BSE_NO_ERROR \<Longrightarrow>
     here src = concat (map encode_field fs) @ rest \<Longrightarrow> list_all field_ok fs \<Longrightarrow>
     get_fields src (map ftype_of fs) =
       (fs, src\<lparr>src_pos := src_pos src + length (concat (map encode_field fs))\<rparr>)"
proof (induction fs arbitrary: src)
  case Nil
  then show ?case by simp
next
  case (Cons f fs)
  let ?src = "src\<lparr>src_pos := src_pos src + length (encode_field f)\<rparr>"
  have h: "here ?src = concat (map encode_field fs) @ rest"
    unfolding here_advance using Cons.prems(3) by simp
  have "src_inv ?src"
    using Cons.prems(1,3) here_length [OF Cons.prems(1)] by (simp add: src_inv_def)
  then have "get_fields ?src (map ftype_of fs) =
      (fs, ?src\<lparr>src_pos := src_pos ?src + length (concat (map encode_field fs))\<rparr>)"
    using Cons.IH [OF _ _ h] Cons.prems(2,4) by simp
  moreover have "get_field src (ftype_of f) = (f, ?src)"
    using get_field_encode Cons.prems by simp
  ultimately show ?case by (simp add: add.assoc)
qed

subsection \<open>The decoder stays in its data and its error is sticky\<close>

datatype get_op =
    G_data nat | G_byte | G_bool | G_uint16 | G_uint32 | G_uint64 | G_string | G_asciz
  | G_chars "byte list" | G_nonchars "byte list" | G_chomped_line | G_pstring

fun get_step :: "BinarySource \<Rightarrow> get_op \<Rightarrow> BinarySource" where
  "get_step src (G_data n) = snd (BinarySource_get_data src n)"
| "get_step src G_byte = snd (BinarySource_get_byte src)"
| "get_step src G_bool = snd (BinarySource_get_bool src)"
| "get_step src G_uint16 = snd (BinarySource_get_uint16 src)"
| "get_step src G_uint32 = snd (BinarySource_get_uint32 src)"
| "get_step src G_uint64 = snd (BinarySource_get_uint64 src)"
| "get_step src G_string = snd (BinarySource_get_string src)"
| "get_step src G_asciz = snd (BinarySource_get_asciz src)"
| "get_step src (G_chars cs) = snd (BinarySource_get_chars src cs)"
| "get_step src (G_nonchars cs) = snd (BinarySource_get_nonchars src cs)"
| "get_step src G_chomped_line = snd (BinarySource_get_chomped_line src)"
| "get_step src G_pstring = snd (BinarySource_get_pstring src)"

text \<open>One read: the data is not touched, the position only advances and stays in range.\<close>

definition src_step_ok :: "BinarySource \<Rightarrow> BinarySource \<Rightarrow> bool" where
  "src_step_ok src src' \<longleftrightarrow> src_data src' = src_data src \<and> src_pos src \<le> src_pos src' \<and>
     src_pos src' \<le> src_len src \<and> (src_err src \<noteq> BSE_NO_ERROR \<longrightarrow> src' = src)"

lemma src_step_ok_refl: "src_inv src \<Longrightarrow> src_step_ok src src"
  by (simp add: src_step_ok_def src_inv_def)

lemma src_step_ok_trans: "src_step_ok a b \<Longrightarrow> src_step_ok b c \<Longrightarrow> src_step_ok a c"
  by (auto simp: src_step_ok_def)

lemma src_step_ok_inv: "src_step_ok src src' \<Longrightarrow> src_inv src'"
  by (simp add: src_step_ok_def src_inv_def)

lemma get_chars_loop_ok: "src_inv src \<Longrightarrow> src_step_ok src (get_chars_loop src cs i)"
proof (induction src cs i rule: get_chars_loop.induct)
  case (1 src cs i)
  show ?case
  proof (cases "src_err src = BSE_NO_ERROR \<and> src_pos src < src_len src \<and>
      strchr_mem cs (hd (here src)) = i")
    case True
    let ?s = "src\<lparr>src_pos := src_pos src + 1\<rparr>"
    from True have a: "BinarySource_data_avail src 1 = (True, src)"
      by (auto simp: BinarySource_data_avail_def)
    have "src_step_ok src ?s" using True by (simp add: src_step_ok_def)
    moreover have "src_step_ok ?s (get_chars_loop ?s cs i)"
      using "1.IH" [OF a [symmetric]] True by (simp add: consume_def src_inv_def)
    moreover have "get_chars_loop src cs i = get_chars_loop ?s cs i"
      using True a by (subst get_chars_loop.simps) (simp add: consume_def)
    ultimately show ?thesis by (metis src_step_ok_trans)
  next
    case False
    with "1.prems" show ?thesis
      by (subst get_chars_loop.simps)
        (auto simp: BinarySource_data_avail_def src_step_ok_def src_inv_def)
  qed
qed

lemma get_step_ok: "src_inv src \<Longrightarrow> src_step_ok src (get_step src op)"
proof (cases op)
  case G_asciz
  have "length (takeWhile (\<lambda>c. c \<noteq> 0) (here src)) < length (here src)" if "0 \<in> set (here src)"
    using that by (metis (mono_tags, lifting) length_takeWhile_le nat_less_le takeWhile_eq_all_conv
        takeWhile_eq_take take_all_iff order_refl)
  then show "src_inv src \<Longrightarrow> ?thesis"
    by (auto simp: G_asciz BinarySource_get_asciz_def src_step_ok_def Let_def here_length)
      (auto simp: src_inv_def)
next
  case G_chomped_line
  have "length (takeWhile (\<lambda>c. c \<noteq> 10) (here src)) < length (here src)" if "10 \<in> set (here src)"
    using that by (metis (mono_tags, lifting) length_takeWhile_le nat_less_le takeWhile_eq_all_conv
        takeWhile_eq_take take_all_iff order_refl)
  then show "src_inv src \<Longrightarrow> ?thesis"
    by (auto simp: G_chomped_line BinarySource_get_chomped_line_def src_step_ok_def Let_def here_length)
      (auto simp: src_inv_def)
qed (auto simp: get_defs src_step_ok_def src_inv_def Let_def BinarySource_get_chars_def
    BinarySource_get_nonchars_def BinarySource_get_chars_internal_def
    dest: get_chars_loop_ok [unfolded src_step_ok_def src_inv_def] split: if_splits)

lemma get_steps_ok: "src_inv src \<Longrightarrow> src_step_ok src (foldl get_step src ops)"
proof (induction ops arbitrary: src)
  case Nil
  then show ?case by (simp add: src_step_ok_refl)
next
  case (Cons op ops)
  have "src_step_ok src (get_step src op)" by (rule get_step_ok [OF Cons.prems])
  with Cons.IH [OF src_step_ok_inv [OF this]] show ?case
    by (simp add: src_step_ok_trans)
qed

lemma src_inv_INIT: "src_inv (BinarySource_INIT d)"
  and src_err_INIT [simp]: "src_err (BinarySource_INIT d) = BSE_NO_ERROR"
  and src_data_INIT [simp]: "src_data (BinarySource_INIT d) = d"
  and src_pos_INIT [simp]: "src_pos (BinarySource_INIT d) = 0"
  and here_INIT [simp]: "here (BinarySource_INIT d) = d"
  by (simp_all add: BinarySource_INIT_def src_inv_def here_def)

subsection \<open>Properties\<close>

text \<open>C1: marshalling a sequence of typed fields into an empty strbuf and decoding the bytes with
  the same sequence of \<open>get\<close>s gives back exactly the fields, with no error and nothing left
  over; whenever all the writes returned (memory was found, and every length fits its prefix).\<close>

theorem marshal_roundtrip:
  assumes "strbuf_new_general malloc_ok nm = Some b"
    and "put_fields (strbuf_BinarySink_write malloc_ok) b fs = Some b'"
    and "list_all field_ok fs"
  shows "\<exists>src. get_fields (BinarySource_INIT (sb_bytes b')) (map ftype_of fs) = (fs, src) \<and>
           src_err src = BSE_NO_ERROR \<and> src_pos src = src_len src"
proof -
  from strbuf_inv_new [OF assms(1)] sb_sink.put_fields_law [OF _ assms(2,3)]
  have "sb_bytes b' = concat (map encode_field fs)" by simp
  then show ?thesis
    using get_fields_encode [OF src_inv_INIT src_err_INIT, of _ fs "[]"] assms(3) by simp
qed

definition example_fields :: "field list" where
  "example_fields = [F_byte 90, F_uint32 258, F_string [115, 115, 104], F_bool True, F_pstring [7],
     F_asciz [65, 66]]"

theorem marshal_roundtrip_witness:
  "\<exists>b b' src. strbuf_new_general (\<lambda>_. True) False = Some b \<and>
     put_fields (strbuf_BinarySink_write (\<lambda>_. True)) b example_fields = Some b' \<and>
     get_fields (BinarySource_INIT (sb_bytes b')) (map ftype_of example_fields) = (example_fields, src) \<and>
     src_err src = BSE_NO_ERROR"
proof -
  define b where "b = \<lparr>sb_size = 512, sb_nm = False, sb_bytes = []\<rparr>"
  define b' where "b' = \<lparr>sb_size = 512, sb_nm = False,
      sb_bytes = [90, 0, 0, 1, 2, 0, 0, 0, 3, 115, 115, 104, 1, 1, 7, 65, 66, 0 :: byte]\<rparr>"
  have 1: "strbuf_new_general (\<lambda>_. True) False = Some b"
    by (simp add: b_def strbuf_new_general_def safemalloc_def SIZE_MAX_def)
  have 2: "put_fields (strbuf_BinarySink_write (\<lambda>_. True)) b example_fields = Some b'"
    by (simp add: b_def b'_def example_fields_def strbuf_BinarySink_write_def safegrowarray_def
        SIZE_MAX_def sb_len_def BinarySink_put_byte_def BinarySink_put_uint32_def
        BinarySink_put_string_def BinarySink_put_bool_def BinarySink_put_pstring_def
        BinarySink_put_asciz_def PUT_32BIT_MSB_FIRST_def)
  have 3: "list_all field_ok example_fields" by (simp add: example_fields_def)
  from marshal_roundtrip [OF 1 2 3] 1 2 show ?thesis by blast
qed

text \<open>C3: whatever sequence of \<open>get\<close> operations is run on a BinarySource, the position never
  leaves the data block and never moves back, and once an error is recorded no later \<open>get\<close>
  changes the source at all.\<close>

theorem source_reads_in_bounds:
  "let src = foldl get_step (BinarySource_INIT data) ops;
       src' = foldl get_step src ops'
   in src_data src' = data \<and> src_pos src \<le> src_pos src' \<and> src_pos src' \<le> length data \<and>
      (src_err src = BSE_NO_ERROR \<or> src' = src)"
proof -
  let ?s = "foldl get_step (BinarySource_INIT data) ops"
  have 1: "src_step_ok (BinarySource_INIT data) ?s" by (rule get_steps_ok [OF src_inv_INIT])
  have "src_step_ok ?s (foldl get_step ?s ops')"
    by (rule get_steps_ok [OF src_step_ok_inv [OF 1]])
  with 1 show ?thesis by (auto simp: src_step_ok_def Let_def)
qed

end
