(* ===== verification/Wildcard.thy ===== *)
theory Wildcard
  imports Prelude
begin

text \<open>
  \<open>utils/wildcard.c\<close>: the wildcard matcher of the SFTP clients, and the glob language it
  recognises. A wildcard is a NUL-terminated string; a target is the list of its
  bytes up to \<open>target_end\<close>, and \<open>beyond\<close> is what a read at \<open>target_end\<close> and after it
  finds in memory, up to a NUL (the empty list for \<open>wc_match\<close>, whose target ends with one).
\<close>

definition WC_TRAILINGBACKSLASH :: int where "WC_TRAILINGBACKSLASH = 1"
definition WC_UNCLOSEDCLASS :: int where "WC_UNCLOSEDCLASS = 2"
definition WC_INVALIDRANGE :: int where "WC_INVALIDRANGE = 3"

lemmas wc_error_defs = WC_TRAILINGBACKSLASH_def WC_UNCLOSEDCLASS_def WC_INVALIDRANGE_def

text \<open>The characters with a meaning: \<open>* ? [ ] ^ - \<close> and backslash.\<close>

abbreviation (input) cSTAR :: byte where "cSTAR \<equiv> 42"
abbreviation (input) cQUERY :: byte where "cQUERY \<equiv> 63"
abbreviation (input) cOPEN :: byte where "cOPEN \<equiv> 91"
abbreviation (input) cCLOSE :: byte where "cCLOSE \<equiv> 93"
abbreviation (input) cCARET :: byte where "cCARET \<equiv> 94"
abbreviation (input) cMINUS :: byte where "cMINUS \<equiv> 45"
abbreviation (input) cBSLASH :: byte where "cBSLASH \<equiv> 92"

datatype wc_message =
  MsgTrailingBackslash | MsgUnclosedClass | MsgInvalidRange | MsgInternalError

definition wc_error :: "int \<Rightarrow> wc_message" where
  "wc_error value =
     (let value = \<bar>value\<bar> in
      if value = WC_TRAILINGBACKSLASH then MsgTrailingBackslash
      else if value = WC_UNCLOSEDCLASS then MsgUnclosedClass
      else if value = WC_INVALIDRANGE then MsgInvalidRange
      else MsgInternalError)"

subsection \<open>The matcher\<close>

text \<open>
  One round of the loop over the inside of a character class (\<open>f\<close> not at the closing
  bracket); \<open>ourchr\<close> is \<open>*t\<close>. \<open>Inl\<close> is the error return.
\<close>

definition skip_bslash :: "byte list \<Rightarrow> byte list" where
  "skip_bslash f = (if deref f = cBSLASH then tl f else f)"

definition wc_class_item :: "byte list \<Rightarrow> byte \<Rightarrow> bool \<Rightarrow> int + (bool \<times> byte list)" where
  "wc_class_item f ourchr matched =
     (let f1 = skip_bslash f in
      if deref f1 = 0 then Inl (- WC_UNCLOSEDCLASS)
      else if deref (tl f1) = cMINUS then
        (let lower = deref f1; f2 = tl (tl f1) in
         if deref f2 = cCLOSE then Inl (- WC_INVALIDRANGE)
         else let f3 = skip_bslash f2 in
           if deref f3 = 0 then Inl (- WC_UNCLOSEDCLASS)
           else let upper = deref f3;
                    (lower, upper) = (if lower > upper then (upper, lower) else (lower, upper))
                in Inr (if ourchr \<ge> lower \<and> ourchr \<le> upper then True else matched, tl f3))
      else Inr (matched \<or> ourchr = deref f1, tl f1))"

lemma deref_nonzero_length: "deref f \<noteq> 0 \<Longrightarrow> length (tl f) < length f"
  by (cases f) auto

lemma length_skip_bslash: "length (skip_bslash f) \<le> length f"
  by (simp add: skip_bslash_def)

lemma length_tl_le: "length (tl f) \<le> length f"
  by simp

lemma wc_class_item_length:
  assumes "wc_class_item f c m = Inr (m', f')"
  shows "length f' < length f"
proof -
  let ?f1 = "skip_bslash f"
  let ?f3 = "skip_bslash (tl (tl ?f1))"
  have 1: "deref ?f1 \<noteq> 0" using assms by (auto simp: wc_class_item_def Let_def split: if_splits)
  have "f' = tl ?f1 \<or> f' = tl ?f3"
    using assms by (auto simp: wc_class_item_def Let_def split: if_splits)
  moreover have "length ?f3 \<le> length (tl ?f1)"
    by (meson le_trans length_skip_bslash length_tl_le)
  ultimately show ?thesis
    using deref_nonzero_length [OF 1] length_skip_bslash [of f] by auto
qed

function wc_class_loop :: "byte list \<Rightarrow> byte \<Rightarrow> bool \<Rightarrow> int + (bool \<times> byte list)" where
  "wc_class_loop f ourchr matched =
     (if deref f = cCLOSE then Inr (matched, f)
      else case wc_class_item f ourchr matched of
             Inl e \<Rightarrow> Inl e
           | Inr (matched', f') \<Rightarrow> wc_class_loop f' ourchr matched')"
  by pat_completeness auto
termination
  by (relation "measure (\<lambda>(f, c, m). length f)") (auto intro: wc_class_item_length)

declare wc_class_loop.simps [simp del]

text \<open>
  One round of the loop of \<open>wc_match_fragment\<close> (\<open>f\<close> not at its end, \<open>c\<close> the target
  character): \<open>Inl\<close> is a \<open>return\<close>, \<open>Inr\<close> the pattern pointer after one character's worth.
\<close>

definition wc_fragment_item :: "byte list \<Rightarrow> byte \<Rightarrow> int + byte list" where
  "wc_fragment_item f c =
     (if deref f = cBSLASH then
        (if deref (tl f) = 0 then Inl (- WC_TRAILINGBACKSLASH)
         else if deref (tl f) \<noteq> c then Inl 0
         else Inr (tl (tl f)))
      else if deref f = cQUERY then Inr (tl f)
      else if deref f = cOPEN then
        (let f1 = tl f;
             invert = (deref f1 = cCARET);
             f2 = (if invert then tl f1 else f1)
         in case wc_class_loop f2 c False of
              Inl e \<Rightarrow> Inl e
            | Inr (matched, f3) \<Rightarrow> if invert = matched then Inl 0 else Inr (tl f3))
      else if deref f \<noteq> c then Inl 0
      else Inr (tl f))"

fun wc_fragment_loop :: "byte list \<Rightarrow> byte list \<Rightarrow> int \<times> byte list \<times> byte list" where
  "wc_fragment_loop f [] =
     (if deref f = 0 \<or> deref f = cSTAR then (1, f, []) else (0, f, []))"
| "wc_fragment_loop f (c # t) =
     (if deref f \<noteq> 0 \<and> deref f \<noteq> cSTAR
      then (case wc_fragment_item f c of
              Inl ret \<Rightarrow> (ret, f, c # t)
            | Inr f' \<Rightarrow> wc_fragment_loop f' t)
      else (1, f, c # t))"

text \<open>\<open>wc_match_fragment\<close>: the caller's pointers move only when the return value is 1.\<close>

definition wc_match_fragment :: "byte list \<Rightarrow> byte list \<Rightarrow> int \<times> byte list \<times> byte list" where
  "wc_match_fragment fragment target =
     (case wc_fragment_loop fragment target of
        (ret, f, t) \<Rightarrow> if ret = 1 then (1, f, t) else (ret, fragment, target))"

lemma wc_class_loop_length:
  "wc_class_loop f c m = Inr (m', f') \<Longrightarrow> length f' \<le> length f \<and> deref f' = cCLOSE"
proof (induction f c m rule: wc_class_loop.induct)
  case (1 f c m)
  show ?case
  proof (cases "deref f = cCLOSE")
    case True
    with "1.prems" show ?thesis by (simp add: wc_class_loop.simps [of f])
  next
    case False
    with "1.prems" obtain m1 f1 where i: "wc_class_item f c m = Inr (m1, f1)"
      and r: "wc_class_loop f1 c m1 = Inr (m', f')"
      by (auto simp: wc_class_loop.simps [of f] split: sum.splits)
    from "1.IH" [OF False i refl r] wc_class_item_length [OF i] show ?thesis by simp
  qed
qed

lemma wc_class_loop_error:
  "wc_class_loop f c m = Inl e \<Longrightarrow> e < 0"
proof (induction f c m rule: wc_class_loop.induct)
  case (1 f c m)
  show ?case
  proof (cases "deref f = cCLOSE")
    case True
    with "1.prems" show ?thesis by (simp add: wc_class_loop.simps [of f])
  next
    case False
    show ?thesis
    proof (cases "wc_class_item f c m")
      case (Inl e')
      with "1.prems" False show ?thesis
        by (auto simp: wc_class_loop.simps [of f] wc_class_item_def Let_def wc_error_defs
            split: if_splits)
    next
      case (Inr r)
      obtain m' f' where r: "r = (m', f')" by (cases r)
      from "1.prems" False Inr r have "wc_class_loop f' c m' = Inl e"
        by (simp add: wc_class_loop.simps [of f])
      then show ?thesis by (rule "1.IH" [OF False Inr r [symmetric]])
    qed
  qed
qed

lemma wc_fragment_item_Inr:
  assumes "wc_fragment_item f c = Inr f'" and "deref f \<noteq> 0"
  shows "length f' < length f"
proof -
  have tl: "length (tl f) < length f" by (rule deref_nonzero_length [OF assms(2)])
  show ?thesis
  proof (cases "deref f = cOPEN")
    case True
    let ?f2 = "if deref (tl f) = cCARET then tl (tl f) else tl f"
    from True assms(1) obtain m f3 where l: "wc_class_loop ?f2 c False = Inr (m, f3)" and "f' = tl f3"
      by (auto simp: wc_fragment_item_def Let_def split: if_splits sum.splits)
    moreover from wc_class_loop_length [OF l] have "length f3 \<le> length (tl f)"
      by (auto split: if_splits)
    ultimately show ?thesis using tl by simp
  next
    case False
    with assms tl show ?thesis
      by (auto simp: wc_fragment_item_def Let_def split: if_splits)
  qed
qed

lemma wc_fragment_item_Inl: "wc_fragment_item f c = Inl e \<Longrightarrow> e \<le> 0"
  by (auto simp: wc_fragment_item_def Let_def wc_error_defs
      dest: wc_class_loop_error split: if_splits sum.splits)

text \<open>A fragment that matched has been stepped over: what makes the main loop terminate.\<close>

lemma wc_fragment_loop_length:
  "wc_fragment_loop f t = (1, f', t') \<Longrightarrow>
     length f' \<le> length f \<and> length t' \<le> length t \<and> (deref f' = 0 \<or> deref f' = cSTAR)"
proof (induction f t rule: wc_fragment_loop.induct)
  case (1 f)
  then show ?case by (auto split: if_splits)
next
  case (2 f c t)
  show ?case
  proof (cases "deref f \<noteq> 0 \<and> deref f \<noteq> cSTAR")
    case True
    with "2.prems" wc_fragment_item_Inl [of f c] obtain f1 where
      i: "wc_fragment_item f c = Inr f1" and r: "wc_fragment_loop f1 t = (1, f', t')"
      by (fastforce split: sum.splits)
    from "2.IH" [OF True i r] wc_fragment_item_Inr [OF i] True show ?thesis by simp
  next
    case False
    with "2.prems" show ?thesis by auto
  qed
qed

lemma wc_fragment_loop_ret: "fst (wc_fragment_loop f t) \<le> 1"
  by (induction f t rule: wc_fragment_loop.induct)
    (auto split: sum.splits dest!: wc_fragment_item_Inl)

lemma wc_match_fragment_length:
  assumes "wc_match_fragment f t = (ret, f', t')" and "ret > 0"
  shows "length t' \<le> length t" and "length f' \<le> length f" and "deref f' = 0 \<or> deref f' = cSTAR"
    and "deref f \<noteq> 0 \<Longrightarrow> deref f \<noteq> cSTAR \<Longrightarrow> length f' < length f"
proof -
  have r: "wc_fragment_loop f t = (1, f', t')"
    using assms wc_fragment_loop_ret [of f t]
    by (auto simp: wc_match_fragment_def split: prod.splits if_splits)
  from wc_fragment_loop_length [OF r]
  show "length t' \<le> length t" "length f' \<le> length f" "deref f' = 0 \<or> deref f' = cSTAR"
    by auto
  assume f: "deref f \<noteq> 0" "deref f \<noteq> cSTAR"
  with r obtain c t1 f1 where t: "t = c # t1" "wc_fragment_item f c = Inr f1"
    "wc_fragment_loop f1 t1 = (1, f', t')"
    using wc_fragment_item_Inl [of f] by (cases t) (fastforce split: sum.splits)+
  from wc_fragment_loop_length [OF t(3)] wc_fragment_item_Inr [OF t(2) f(1)]
  show "length f' < length f" by simp
qed

text \<open>
  \<open>wc_match_inner\<close>: the main loop, at a fragment boundary of the wildcard, and the inner loop
  that looks for the next place where the fragment \<open>w\<close> matches. The result is \<open>None\<close> if the
  assertion at the head of the main loop fails.
\<close>

function wc_main_loop :: "byte list \<Rightarrow> byte list \<Rightarrow> byte list \<Rightarrow> int option"
  and wc_search :: "byte list \<Rightarrow> byte list \<Rightarrow> byte list \<Rightarrow> int option" where
  "wc_main_loop w t beyond =
     (if deref w = 0 then Some (if t = [] then 1 else 0)
      else if \<not> deref w = cSTAR then None
      else let w' = dropWhile (\<lambda>c. c = cSTAR) w
           in if deref w' = 0 then Some 1 else wc_search w' t beyond)"
| "wc_search w t beyond =
     (if deref w = 0 \<or> deref w = cSTAR then None \<comment> \<open>not a fragment: never called so (\<open>wc_match_inner_returns\<close>)\<close>
      else if deref (t @ beyond) = 0 then Some 0
      else case wc_match_fragment w t of (ret, w', t') \<Rightarrow>
        if ret < 0 then Some ret
        else if ret > 0 \<and> deref w' = 0 \<and> t' \<noteq> [] then
          Some (fst (wc_match_fragment w (drop (length t - (length t - length t')) t)))
        else if ret > 0 then wc_main_loop w' t' beyond
        else wc_search w (tl t) (if t = [] then tl beyond else beyond))"
  by pat_completeness auto
termination
proof (relation "measures [\<lambda>x. case x of Inl (w, t, b) \<Rightarrow> length w | Inr (w, t, b) \<Rightarrow> length w,
    \<lambda>x. case x of Inl (w, t, b) \<Rightarrow> 0 | Inr (w, t, b) \<Rightarrow> length t + length b]", goal_cases)
  case 1
  show ?case by simp
next
  case (2 w t beyond w')
  then have "length w' < length w"
    by (cases w) (auto intro: le_imp_less_Suc length_dropWhile_le)
  then show ?case by simp
next
  case (3 w t beyond x y w' t')
  then have "length w' < length w" using wc_match_fragment_length(4) [of w t x w' t'] by simp
  then show ?case by simp
next
  case (4 w t beyond)
  then have "t \<noteq> [] \<or> beyond \<noteq> []" by auto
  then show ?case by (cases t; cases beyond) auto
qed

declare wc_main_loop.simps [simp del] wc_search.simps [simp del]

definition wc_match_inner :: "byte list \<Rightarrow> byte list \<Rightarrow> byte list \<Rightarrow> int option" where
  "wc_match_inner wildcard target beyond =
     (if deref wildcard \<noteq> cSTAR
      then (case wc_match_fragment wildcard target of (ret, w, t) \<Rightarrow>
              if ret \<le> 0 then Some ret else wc_main_loop w t beyond)
      else wc_main_loop wildcard target beyond)"

definition wc_match :: "byte list \<Rightarrow> byte list \<Rightarrow> int option" where
  "wc_match wildcard target = wc_match_inner wildcard target []"

text \<open>\<open>wc_match_pl\<close>: the target need not be followed by a NUL.\<close>

definition wc_match_pl :: "byte list \<Rightarrow> byte list \<Rightarrow> byte list \<Rightarrow> int option" where
  "wc_match_pl wildcard target beyond = wc_match_inner wildcard target beyond"

text \<open>\<open>wc_unescape\<close>: \<open>None\<close> is the \<open>false\<close> return, \<open>Some\<close> the string written to \<open>output\<close>.\<close>

fun wc_unescape :: "byte list \<Rightarrow> byte list option" where
  "wc_unescape [] = Some []"
| "wc_unescape (c # w) =
     (if c = cBSLASH then (case w of [] \<Rightarrow> Some [] | d # w' \<Rightarrow> map_option ((#) d) (wc_unescape w'))
      else if c = cSTAR \<or> c = cQUERY \<or> c = cOPEN \<or> c = cCLOSE then None
      else map_option ((#) c) (wc_unescape w))"

subsection \<open>The wildcard language\<close>

text \<open>
  The syntax the header of \<open>wildcard.c\<close> documents, as a parser into tokens, and what a
  sequence of tokens matches. A class is a list of inclusive ranges; a range written
  backwards is the same range.
\<close>

datatype wtok = WLit byte | WAny | WClass bool "(byte \<times> byte) list" | WStar

fun class_char :: "byte list \<Rightarrow> (byte \<times> byte list) option" where
  "class_char [] = None"
| "class_char (c # f) =
     (if c = cBSLASH then (case f of [] \<Rightarrow> None | d # f' \<Rightarrow> Some (d, f')) else Some (c, f))"

definition class_range :: "byte list \<Rightarrow> int + ((byte \<times> byte) \<times> byte list)" where
  "class_range f =
     (case class_char f of None \<Rightarrow> Inl (- WC_UNCLOSEDCLASS)
      | Some (a, f1) \<Rightarrow>
          (case f1 of
             [] \<Rightarrow> Inr ((a, a), f1)
           | d # f2 \<Rightarrow>
               if d \<noteq> cMINUS then Inr ((a, a), f1)
               else if deref f2 = cCLOSE then Inl (- WC_INVALIDRANGE)
               else (case class_char f2 of None \<Rightarrow> Inl (- WC_UNCLOSEDCLASS)
                     | Some (b, f3) \<Rightarrow> Inr ((min a b, max a b), f3))))"

lemma class_char_length: "class_char f = Some (c, f') \<Longrightarrow> length f' < length f"
  by (cases f) (auto split: list.splits if_splits)

lemma class_range_length: "class_range f = Inr (r, f') \<Longrightarrow> length f' < length f"
  by (fastforce simp: class_range_def dest: class_char_length
      split: option.splits list.splits if_splits prod.splits)

function parse_class :: "byte list \<Rightarrow> int + ((byte \<times> byte) list \<times> byte list)" where
  "parse_class f =
     (if deref f = cCLOSE then Inr ([], tl f)
      else case class_range f of
             Inl e \<Rightarrow> Inl e
           | Inr (r, f') \<Rightarrow> map_sum id (apfst ((#) r)) (parse_class f'))"
  by pat_completeness auto
termination
  by (relation "measure length") (auto intro: class_range_length)

declare parse_class.simps [simp del]

fun parse_tok :: "byte list \<Rightarrow> int + (wtok \<times> byte list)" where
  "parse_tok [] = Inl 0"
| "parse_tok (c # f) =
     (if c = cBSLASH then (case f of [] \<Rightarrow> Inl (- WC_TRAILINGBACKSLASH) | d # f' \<Rightarrow> Inr (WLit d, f'))
      else if c = cQUERY then Inr (WAny, f)
      else if c = cSTAR then Inr (WStar, f)
      else if c = cOPEN then
        (let invert = (deref f = cCARET) in
         map_sum id (apfst (WClass invert)) (parse_class (if invert then tl f else f)))
      else Inr (WLit c, f))"

lemma parse_class_length: "parse_class f = Inr (rs, f') \<Longrightarrow> length f' \<le> length f"
proof (induction f arbitrary: rs rule: parse_class.induct)
  case (1 f)
  show ?case
  proof (cases "deref f = cCLOSE")
    case True
    with "1.prems" show ?thesis by (auto simp: parse_class.simps [of f])
  next
    case False
    with "1.prems" obtain r f1 where i: "class_range f = Inr (r, f1)"
      by (auto simp: parse_class.simps [of f] split: sum.splits)
    with False "1.prems" obtain rs1 where "parse_class f1 = Inr (rs1, f')"
      by (cases "parse_class f1") (auto simp: parse_class.simps [of f])
    with "1.IH" [OF False i refl] class_range_length [OF i] show ?thesis by fastforce
  qed
qed

lemma parse_tok_length: "parse_tok f = Inr (k, f') \<Longrightarrow> length f' < length f"
proof (cases f)
  case (Cons c g)
  have "length f' \<le> length g" if "map_sum id (apfst (WClass i)) (parse_class h) = Inr (k, f')"
    and "length h \<le> length g" for h i
    using that parse_class_length [of h] by (cases "parse_class h") (auto intro: le_trans)
  from this [of _ "tl g"] this [of _ g] show "parse_tok f = Inr (k, f') \<Longrightarrow> ?thesis"
    by (auto simp: Cons Let_def less_Suc_eq_le split: if_splits list.splits)
qed simp

function wc_parse :: "byte list \<Rightarrow> int + wtok list" where
  "wc_parse f =
     (if f = [] then Inr []
      else case parse_tok f of
             Inl e \<Rightarrow> Inl e
           | Inr (k, f') \<Rightarrow> map_sum id ((#) k) (wc_parse f'))"
  by pat_completeness auto
termination
  by (relation "measure length") (auto intro: parse_tok_length)

declare wc_parse.simps [simp del]

fun tok_match :: "wtok \<Rightarrow> byte \<Rightarrow> bool" where
  "tok_match (WLit a) c \<longleftrightarrow> c = a"
| "tok_match WAny c \<longleftrightarrow> True"
| "tok_match (WClass invert rs) c \<longleftrightarrow> invert \<noteq> (\<exists>(lo, hi)\<in>set rs. lo \<le> c \<and> c \<le> hi)"
| "tok_match WStar c \<longleftrightarrow> False"

fun glob :: "wtok list \<Rightarrow> byte list \<Rightarrow> bool" where
  "glob [] t \<longleftrightarrow> t = []"
| "glob (WStar # p) [] \<longleftrightarrow> glob p []"
| "glob (WStar # p) (c # t) \<longleftrightarrow> glob p (c # t) \<or> glob (WStar # p) t"
| "glob (k # p) [] \<longleftrightarrow> False"
| "glob (k # p) (c # t) \<longleftrightarrow> tok_match k c \<and> glob p t"

lemma glob_rigid_Cons: "k \<noteq> WStar \<Longrightarrow> glob (k # p) t \<longleftrightarrow> t \<noteq> [] \<and> tok_match k (hd t) \<and> glob p (tl t)"
  by (cases t; cases k) auto

lemma glob_star_iff: "glob (WStar # p) t \<longleftrightarrow> (\<exists>n \<le> length t. glob p (drop n t))"
proof (induction t)
  case Nil
  then show ?case by simp
next
  case (Cons c t)
  have "(\<exists>n \<le> length (c # t). glob p (drop n (c # t))) \<longleftrightarrow>
      glob p (c # t) \<or> (\<exists>n \<le> length t. glob p (drop n t))"
    by (metis (no_types, lifting) Suc_le_mono drop0 drop_Suc_Cons le0 length_Cons not0_implies_Suc)
  with Cons.IH show ?case by simp
qed

lemma glob_star_mono:
  assumes "glob (WStar # p) (drop j t)" and "i \<le> j"
  shows "glob (WStar # p) (drop i t)"
proof -
  from assms(1) obtain n where n: "n \<le> length (drop j t)" "glob p (drop n (drop j t))"
    unfolding glob_star_iff by blast
  define m where "m = min (n + (j - i)) (length (drop i t))"
  have "drop n (drop j t) = drop (n + (j - i)) (drop i t)"
    using assms(2) by simp
  also have "\<dots> = drop m (drop i t)"
    by (cases "n + (j - i) \<le> length (drop i t)") (auto simp: m_def)
  finally have "glob p (drop m (drop i t))" using n(2) by simp
  moreover have "m \<le> length (drop i t)" by (simp add: m_def)
  ultimately show ?thesis unfolding glob_star_iff by blast
qed

subsection \<open>Fragments\<close>

definition rigid :: "wtok list \<Rightarrow> wtok list" where
  "rigid ks = takeWhile (\<lambda>k. k \<noteq> WStar) ks"

definition frag_match :: "wtok list \<Rightarrow> byte list \<Rightarrow> bool" where
  "frag_match fr t \<longleftrightarrow> length fr \<le> length t \<and> list_all2 tok_match fr (take (length fr) t)"

lemma frag_match_simps [simp]:
  "frag_match [] t" "\<not> frag_match (k # fr) []"
  "frag_match (k # fr) (c # t) \<longleftrightarrow> tok_match k c \<and> frag_match fr t"
  by (auto simp: frag_match_def)

lemma glob_frag:
  "WStar \<notin> set fr \<Longrightarrow> glob (fr @ p) t \<longleftrightarrow> frag_match fr t \<and> glob p (drop (length fr) t)"
proof (induction fr arbitrary: t)
  case Nil
  then show ?case by simp
next
  case (Cons k fr)
  from Cons.prems have "k \<noteq> WStar" "WStar \<notin> set fr" by auto
  with Cons.IH [of "tl t"] glob_rigid_Cons [of k "fr @ p" t] show ?case by (cases t) simp_all
qed

lemma rigid_simps [simp]:
  "rigid [] = []" "rigid (k # ks) = (if k = WStar then [] else k # rigid ks)"
  by (simp_all add: rigid_def)

lemma rigid_not_star: "WStar \<notin> set (rigid ks)"
  by (auto simp: rigid_def dest: set_takeWhileD)

lemma rigid_append: "rigid ks @ drop (length (rigid ks)) ks = ks"
  unfolding rigid_def by (metis append_eq_conv_conj takeWhile_dropWhile_id)

lemma drop_rigid: "drop (length (rigid ks)) ks = [] \<or> hd (drop (length (rigid ks)) ks) = WStar"
  unfolding rigid_def dropWhile_eq_drop [symmetric] using hd_dropWhile by blast

subsection \<open>The code against the language\<close>

lemma class_char_skip:
  assumes "cstring f"
  shows "class_char f = (if deref (skip_bslash f) = 0 then None
           else Some (deref (skip_bslash f), tl (skip_bslash f)))"
  using assms by (cases f; cases "tl f") (auto simp: skip_bslash_def)

lemma cstring_skip: "cstring f \<Longrightarrow> cstring (skip_bslash f)"
  by (simp add: skip_bslash_def cstring_tl)

lemma wc_class_item_range:
  assumes "cstring f"
  shows "wc_class_item f c m =
    (case class_range f of Inl e \<Rightarrow> Inl e
     | Inr ((lo, hi), f') \<Rightarrow> Inr (m \<or> lo \<le> c \<and> c \<le> hi, f'))"
proof -
  let ?f1 = "skip_bslash f"
  have c1: "cstring (tl ?f1)" "cstring (tl (tl ?f1))"
    using assms by (simp_all add: cstring_skip cstring_tl)
  show ?thesis
  proof (cases "tl ?f1")
    case Nil
    then show ?thesis
      using assms by (auto simp: wc_class_item_def class_range_def class_char_skip Let_def)
  next
    case (Cons d f2)
    then show ?thesis
      using assms c1
      by (auto simp: wc_class_item_def class_range_def class_char_skip [OF assms]
          class_char_skip [of f2] Let_def min_def max_def split: if_splits)
  qed
qed

lemma class_char_cstring: "cstring f \<Longrightarrow> class_char f = Some (a, f') \<Longrightarrow> cstring f'"
  by (cases f) (auto split: list.splits if_splits)

lemma class_range_cstring: "cstring f \<Longrightarrow> class_range f = Inr (r, f') \<Longrightarrow> cstring f'"
  by (fastforce simp: class_range_def dest: class_char_cstring
      split: option.splits list.splits if_splits prod.splits)

lemma wc_class_loop_parse:
  "cstring f \<Longrightarrow>
    (case parse_class f of
       Inl e \<Rightarrow> wc_class_loop f c m = Inl e
     | Inr (rs, f') \<Rightarrow> cstring f' \<and> (\<exists>g. tl g = f' \<and>
         wc_class_loop f c m = Inr (m \<or> (\<exists>(lo, hi)\<in>set rs. lo \<le> c \<and> c \<le> hi), g)))"
proof (induction f arbitrary: m rule: parse_class.induct)
  case (1 f)
  show ?case
  proof (cases "deref f = cCLOSE")
    case True
    with "1.prems" show ?thesis
      by (auto simp: parse_class.simps [of f] wc_class_loop.simps [of f] cstring_tl)
  next
    case False
    note item = wc_class_item_range [OF "1.prems", of c m]
    show ?thesis
    proof (cases "class_range f")
      case (Inl e)
      with False item show ?thesis
        by (simp add: parse_class.simps [of f] wc_class_loop.simps [of f])
    next
      case (Inr rf)
      obtain lo hi f1 where rf: "rf = ((lo, hi), f1)" by (metis prod.collapse)
      have "cstring f1" using class_range_cstring "1.prems" Inr rf by blast
      note IH = "1.IH" [OF False Inr rf [symmetric] this, of "m \<or> lo \<le> c \<and> c \<le> hi"]
      with False item Inr rf show ?thesis
        by (cases "parse_class f1")
          (fastforce simp: parse_class.simps [of f] wc_class_loop.simps [of f])+
    qed
  qed
qed

lemma parse_tok_cstring:
  assumes "cstring f" and "parse_tok f = Inr (k, f')"
  shows "cstring f'"
proof (cases f)
  case (Cons c g)
  have *: "cstring f'" if "map_sum id (apfst (WClass i)) (parse_class h) = Inr (k, f')" "cstring h" for h i
    using that wc_class_loop_parse [of h 0 False] by (cases "parse_class h") auto
  from this [of _ "tl g"] this [of _ g] assms show ?thesis
    by (auto simp: Cons Let_def cstring_tl split: if_splits list.splits)
qed (use assms in simp)

lemma wc_fragment_item_parse:
  assumes "cstring f" and "f \<noteq> []" and "deref f \<noteq> cSTAR"
  shows "wc_fragment_item f c =
    (case parse_tok f of Inl e \<Rightarrow> Inl e
     | Inr (k, f') \<Rightarrow> if tok_match k c then Inr f' else Inl 0)"
proof -
  obtain a g where f: "f = a # g" using assms(2) by (cases f) auto
  show ?thesis
  proof (cases "a = cOPEN")
    case True
    let ?h = "if deref g = cCARET then tl g else g"
    have "cstring ?h" using assms(1) by (simp add: f cstring_tl)
    from wc_class_loop_parse [OF this, of c False] True show ?thesis
      by (cases "parse_class ?h") (auto simp: f wc_fragment_item_def Let_def)
  next
    case False
    with assms show ?thesis
      by (cases g) (auto simp: f wc_fragment_item_def)
  qed
qed

lemma parse_tok_star: "parse_tok f = Inr (k, f') \<Longrightarrow> k = WStar \<longleftrightarrow> deref f = cSTAR"
proof (cases f)
  case (Cons c g)
  have "k \<noteq> WStar" if "map_sum id (apfst (WClass i)) (parse_class h) = Inr (k, f')" for h i
    using that by (cases "parse_class h") auto
  then show "parse_tok f = Inr (k, f') \<Longrightarrow> ?thesis"
    by (auto simp: Cons Let_def split: if_splits list.splits)
qed simp

lemma map_sum_Cons_InrE:
  assumes "map_sum id ((#) k) s = Inr ks"
  obtains ks1 where "s = Inr ks1" and "ks = k # ks1"
  using assms by (cases s) auto

lemma wc_parse_Nil [simp]: "wc_parse [] = Inr []"
  by (simp add: wc_parse.simps)

lemma wc_parse_step:
  assumes "f \<noteq> []"
  shows "wc_parse f = (case parse_tok f of Inl e \<Rightarrow> Inl e
    | Inr (k, f') \<Rightarrow> map_sum id ((#) k) (wc_parse f'))"
  using assms by (simp add: wc_parse.simps [of f])

text \<open>A fragment either matches here, leaving the pattern at its end, or returns 0.\<close>

lemma wc_fragment_loop_frag:
  "cstring f \<Longrightarrow> wc_parse f = Inr ks \<Longrightarrow>
    (if frag_match (rigid ks) t
     then \<exists>f'. wc_fragment_loop f t = (1, f', drop (length (rigid ks)) t) \<and> cstring f' \<and>
            wc_parse f' = Inr (drop (length (rigid ks)) ks)
     else fst (wc_fragment_loop f t) = 0)"
proof (induction t arbitrary: f ks)
  case Nil
  show ?case
  proof (cases "f = []")
    case True
    with Nil.prems show ?thesis by simp
  next
    case False
    with Nil.prems obtain k f1 ks1 where k: "parse_tok f = Inr (k, f1)" and ks: "ks = k # ks1"
      by (auto simp: wc_parse_step elim!: map_sum_Cons_InrE split: sum.splits)
    from parse_tok_star [OF k] Nil.prems False show ?thesis
      by (auto simp: ks deref_eq_0_iff)
  qed
next
  case (Cons c t)
  show ?case
  proof (cases "f = []")
    case True
    with Cons.prems show ?thesis by simp
  next
    case False
    with Cons.prems obtain k f1 ks1 where k: "parse_tok f = Inr (k, f1)" and ks: "ks = k # ks1"
      and p1: "wc_parse f1 = Inr ks1"
      by (auto simp: wc_parse_step elim!: map_sum_Cons_InrE split: sum.splits)
    have z: "deref f \<noteq> 0" using False Cons.prems(1) by (simp add: deref_eq_0_iff)
    show ?thesis
    proof (cases "deref f = cSTAR")
      case True
      with parse_tok_star [OF k] Cons.prems show ?thesis by (simp add: ks)
    next
      case ns: False
      with parse_tok_star [OF k] have kn: "k \<noteq> WStar" by simp
      note item = wc_fragment_item_parse [OF Cons.prems(1) False ns, of c]
      show ?thesis
      proof (cases "tok_match k c")
        case True
        with Cons.IH [OF parse_tok_cstring [OF Cons.prems(1) k] p1] z ns item k kn show ?thesis
          by (simp add: ks)
      next
        case False
        with z ns item k kn show ?thesis by (simp add: ks)
      qed
    qed
  qed
qed

lemma wc_match_fragment_frag:
  assumes "cstring f" and "wc_parse f = Inr ks"
  shows "if frag_match (rigid ks) t
     then \<exists>f'. wc_match_fragment f t = (1, f', drop (length (rigid ks)) t) \<and> cstring f' \<and>
            wc_parse f' = Inr (drop (length (rigid ks)) ks)
     else wc_match_fragment f t = (0, f, t)"
  using wc_fragment_loop_frag [OF assms, of t]
  by (cases "wc_fragment_loop f t") (auto simp: wc_match_fragment_def split: if_splits)

text \<open>
  The search stops at the first place where the fragment matches. That is enough: what follows
  the fragment is nothing, in which case only the end of the target counts, or starts with
  a star, which can give back any later start.
\<close>

lemma glob_star_frag_skip:
  assumes "ks = rigid ks @ rest" and "\<not> frag_match (rigid ks) t" and "t \<noteq> []"
  shows "glob (WStar # ks) t \<longleftrightarrow> glob (WStar # ks) (tl t)"
proof -
  have "\<not> glob ks t" using glob_frag [OF rigid_not_star, of ks rest t] assms(1,2) by metis
  with assms(3) show ?thesis by (cases t) auto
qed

lemma glob_star_frag_star:
  assumes ks: "ks = rigid ks @ WStar # p" and m: "frag_match (rigid ks) t"
  shows "glob (WStar # ks) t \<longleftrightarrow> glob (WStar # p) (drop (length (rigid ks)) t)"
proof
  assume "glob (WStar # ks) t"
  then obtain n where n: "n \<le> length t" "glob ks (drop n t)" unfolding glob_star_iff by blast
  then have "glob (WStar # p) (drop (length (rigid ks)) (drop n t))"
    using glob_frag [OF rigid_not_star, of ks "WStar # p" "drop n t"] ks by metis
  then show "glob (WStar # p) (drop (length (rigid ks)) t)"
    using glob_star_mono [of p "length (rigid ks) + n" t] by simp
next
  assume "glob (WStar # p) (drop (length (rigid ks)) t)"
  then have "glob ks t"
    using glob_frag [OF rigid_not_star, of ks "WStar # p" t] ks m by metis
  then show "glob (WStar # ks) t" using glob_star_iff [of ks t] by fastforce
qed

lemma glob_star_frag_end:
  assumes "rigid ks = ks" and "frag_match ks t"
  shows "glob (WStar # ks) t \<longleftrightarrow> frag_match ks (drop (length t - length ks) t)"
proof -
  have g: "glob ks u \<longleftrightarrow> frag_match ks u \<and> length u = length ks" for u
    using glob_frag [OF rigid_not_star, of ks "[]" u] assms(1) by (auto simp: frag_match_def)
  have l: "length ks \<le> length t" using assms(2) by (simp add: frag_match_def)
  have "(\<exists>n \<le> length t. glob ks (drop n t)) \<longleftrightarrow> frag_match ks (drop (length t - length ks) t)"
  proof
    assume "\<exists>n \<le> length t. glob ks (drop n t)"
    then obtain n where "n \<le> length t" "frag_match ks (drop n t)" "length t - n = length ks"
      by (auto simp: g)
    moreover from this have "n = length t - length ks" by simp
    ultimately show "frag_match ks (drop (length t - length ks) t)" by simp
  next
    assume "frag_match ks (drop (length t - length ks) t)"
    with l show "\<exists>n \<le> length t. glob ks (drop n t)"
      by (intro exI [of _ "length t - length ks"]) (simp add: g)
  qed
  then show ?thesis unfolding glob_star_iff .
qed

lemma glob_stars: "glob (WStar # WStar # p) t \<longleftrightarrow> glob (WStar # p) t"
  by (induction t) auto

lemma parse_star: "wc_parse (42 # f) = map_sum id ((#) WStar) (wc_parse f)"
  by (simp add: wc_parse_step)

lemma parse_dropWhile_star:
  "wc_parse f = Inr ks \<Longrightarrow> \<exists>ks'. wc_parse (dropWhile (\<lambda>c. c = 42) f) = Inr ks' \<and>
     (\<forall>t. glob (WStar # ks) t = glob (WStar # ks') t)"
proof (induction f arbitrary: ks)
  case (Cons c f)
  show ?case
  proof (cases "c = 42")
    case True
    with Cons.prems obtain k1 where "wc_parse f = Inr k1" "ks = WStar # k1"
      by (auto simp: parse_star elim: map_sum_Cons_InrE)
    with Cons.IH True show ?thesis by (auto simp: glob_stars)
  qed (use Cons.prems in auto)
qed simp

lemma wc_parse_Nil_iff: "wc_parse f = Inr [] \<longleftrightarrow> f = []"
  by (cases "f = []") (auto simp: wc_parse_step elim!: map_sum_Cons_InrE split: sum.splits)

lemma wc_parse_starts:
  assumes "cstring f" and "wc_parse f = Inr ks" and "f \<noteq> []"
  shows "hd ks = WStar \<longleftrightarrow> deref f = cSTAR" and "ks \<noteq> []"
  using assms parse_tok_star
  by (auto simp: wc_parse_step elim!: map_sum_Cons_InrE split: sum.splits)

lemma wc_loops_glob:
  shows "cstring w \<Longrightarrow> cstring t \<Longrightarrow> wc_parse w = Inr ks \<Longrightarrow> w = [] \<or> deref w = cSTAR \<Longrightarrow>
      wc_main_loop w t b = Some (if glob ks t then 1 else 0)"
    and "cstring w \<Longrightarrow> cstring t \<Longrightarrow> wc_parse w = Inr ks \<Longrightarrow> w \<noteq> [] \<Longrightarrow> deref w \<noteq> cSTAR \<Longrightarrow>
      wc_search w t b = Some (if glob (WStar # ks) t then 1 else 0)"
proof (induction w t b and w t b arbitrary: ks and ks rule: wc_main_loop_wc_search.induct)
  case (1 w t b)
  show ?case
  proof (cases "w = []")
    case True
    with "1.prems" show ?thesis by (simp add: wc_main_loop.simps [of "[]"])
  next
    case False
    with "1.prems" obtain f where w: "w = 42 # f" by (cases w) auto
    define w' where "w' = dropWhile (\<lambda>c. c = 42) w"
    from w have w'f: "w' = dropWhile (\<lambda>c. c = 42) f" by (simp add: w'_def)
    from "1.prems" w obtain k1 where k1: "wc_parse f = Inr k1" "ks = WStar # k1"
      by (auto simp: parse_star elim: map_sum_Cons_InrE)
    from parse_dropWhile_star [OF k1(1)] obtain k2 where k2: "wc_parse w' = Inr k2"
      and g: "\<And>t. glob ks t = glob (WStar # k2) t" by (auto simp: k1 w'f)
    have c': "cstring w'"
      using "1.prems"(1) unfolding w'_def cstring_def by (meson set_dropWhileD)
    have ns: "w' = [] \<or> hd w' \<noteq> 42" unfolding w'_def using hd_dropWhile by blast
    show ?thesis
    proof (cases "w' = []")
      case True
      with k2 have "k2 = []" by simp
      moreover have "glob (WStar # []) t" by (induction t) auto
      moreover have dw: "dropWhile (\<lambda>c. c = 42) f = []" by (rule trans [OF w'f [symmetric] True])
      ultimately show ?thesis using g w
        by (subst wc_main_loop.simps) (simp add: dw)
    next
      case ne: False
      with ns c' have d: "deref w' \<noteq> 0" "deref w' \<noteq> 42" by (cases w'; auto)+
      have "wc_main_loop w t b = wc_search w' t b"
        using w d by (subst wc_main_loop.simps) (simp add: w'f [symmetric])
      moreover have "wc_search w' t b = Some (if glob (WStar # k2) t then 1 else 0)"
        using "1.IH" [OF _ _ w'_def, of k2] w d c' k2 "1.prems"(2) ne by simp
      ultimately show ?thesis by (simp add: g)
    qed
  qed
next
  case (2 w t b)
  have d: "deref w \<noteq> 0" using "2.prems" by (simp add: deref_eq_0_iff)
  from wc_parse_starts [OF "2.prems"(1,3,4)] "2.prems"(5) have rn: "rigid ks \<noteq> []"
    by (cases ks) auto
  have ks: "ks = rigid ks @ drop (length (rigid ks)) ks" by (simp add: rigid_append)
  note frag = wc_match_fragment_frag [OF "2.prems"(1,3), of t]
  note unf = wc_search.simps [of w t b]
  show ?case
  proof (cases "deref (t @ b) = 0")
    case True
    with "2.prems"(2) have "t = []" by (cases t) auto
    with rn ks have "\<not> glob (WStar # ks) t" by (cases ks) (auto simp: glob_rigid_Cons split: if_splits)
    with True d "2.prems" show ?thesis by (simp add: unf)
  next
    case nz: False
    show ?thesis
    proof (cases "frag_match (rigid ks) t")
      case False
      with frag have f0: "wc_match_fragment w t = (0, w, t)" by simp
      have "wc_search w t b = wc_search w (tl t) (if t = [] then tl b else b)"
        using d nz f0 "2.prems" by (simp add: unf)
      also have "\<dots> = Some (if glob (WStar # ks) (tl t) then 1 else 0)"
        using "2.IH"(2) [OF _ nz f0 [symmetric] refl] d "2.prems" cstring_tl by simp
      also have "glob (WStar # ks) (tl t) = glob (WStar # ks) t"
        using glob_star_frag_skip [OF ks False] by (cases "t = []") auto
      finally show ?thesis .
    next
      case True
      let ?t = "drop (length (rigid ks)) t" and ?k = "drop (length (rigid ks)) ks"
      from True frag obtain w' where f1: "wc_match_fragment w t = (1, w', ?t)"
        and c': "cstring w'" and p': "wc_parse w' = Inr ?k" by auto
      show ?thesis
      proof (cases "w' = []")
        case we: True
        with p' have k0: "?k = []" by simp
        with ks have rk: "rigid ks = ks" by simp
        show ?thesis
        proof (cases "?t = []")
          case True
          from True k0 ks \<open>frag_match (rigid ks) t\<close> have "glob ks t"
            using glob_frag [OF rigid_not_star, of ks "[]" t] by simp
          then have "glob (WStar # ks) t" using glob_star_iff [of ks t] by fastforce
          moreover have "wc_search w t b = wc_main_loop [] [] b"
            using d nz f1 we True "2.prems" by (simp add: unf)
          ultimately show ?thesis by (simp add: wc_main_loop.simps)
        next
          case False
          have l: "length t - (length t - (length t - length ks)) = length t - length ks" by simp
          have "wc_search w t b = Some (fst (wc_match_fragment w (drop (length t - length ks) t)))"
            using d nz f1 we False "2.prems" True by (simp add: unf rk frag_match_def)
          with wc_match_fragment_frag [OF "2.prems"(1,3), of "drop (length t - length ks) t"]
            glob_star_frag_end [OF rk] True show ?thesis by (auto simp: rk split: if_splits)
        qed
      next
        case wn: False
        with p' c' have kn: "?k \<noteq> []" using wc_parse_Nil_iff by force
        then obtain p where kp: "?k = WStar # p" using drop_rigid [of ks] by (cases ?k) auto
        with wc_parse_starts [OF c' p' wn] have ws: "deref w' = cSTAR" by simp
        have "wc_search w t b = wc_main_loop w' ?t b"
          using d nz f1 wn c' "2.prems" by (simp add: unf deref_eq_0_iff)
        also have "\<dots> = Some (if glob ?k ?t then 1 else 0)"
          using "2.IH"(1) [OF _ nz f1 [symmetric] refl] d "2.prems" c' p' ws
          by (simp add: cstring_drop)
        also have "glob ?k ?t = glob (WStar # ks) t"
          using glob_star_frag_star [of ks p t] ks kp True by simp
        finally show ?thesis .
      qed
    qed
  qed
qed

subsection \<open>Malformed wildcards\<close>

lemma map_sum_Cons_InlE:
  assumes "map_sum id ((#) k) s = Inl e"
  obtains "s = Inl e"
  using assms by (cases s) auto

lemma parse_tok_Inl: "parse_tok f = Inl e \<Longrightarrow> cstring f \<Longrightarrow> f \<noteq> [] \<Longrightarrow> e < 0"
proof (cases f)
  case (Cons c g)
  have *: "e < 0" if "map_sum id (apfst (WClass i)) (parse_class h) = Inl e" "cstring h" for h i
    using that wc_class_loop_parse [of h 0 False] wc_class_loop_error [of h 0 False e]
    by (cases "parse_class h") auto
  from this [of _ "tl g"] this [of _ g] show "parse_tok f = Inl e \<Longrightarrow> cstring f \<Longrightarrow> ?thesis"
    by (auto simp: Cons Let_def cstring_tl wc_error_defs split: if_splits list.splits)
qed simp

lemma wc_parse_Inl_neg: "cstring f \<Longrightarrow> wc_parse f = Inl e \<Longrightarrow> e < 0"
proof (induction f rule: wc_parse.induct)
  case (1 f)
  then have ne: "f \<noteq> []" by auto
  show ?case
  proof (cases "parse_tok f")
    case (Inl e')
    with "1.prems" ne show ?thesis using parse_tok_Inl by (auto simp: wc_parse_step)
  next
    case (Inr r)
    then obtain k f1 where k: "parse_tok f = Inr (k, f1)" by (cases r) auto
    with "1.prems" ne have "wc_parse f1 = Inl e"
      by (auto simp: wc_parse_step elim: map_sum_Cons_InlE)
    with "1.IH" [OF ne k refl parse_tok_cstring [OF "1.prems"(1) k]] show ?thesis by simp
  qed
qed

lemma wc_match_fragment_malformed:
  "cstring f \<Longrightarrow> wc_parse f = Inl e \<Longrightarrow>
    (case wc_fragment_loop f t of (ret, f', t') \<Rightarrow>
       ret = e \<or> ret = 0 \<or> ret = 1 \<and> cstring f' \<and> wc_parse f' = Inl e)"
proof (induction t arbitrary: f)
  case Nil
  then show ?case by auto
next
  case (Cons c t)
  then have ne: "f \<noteq> []" by auto
  show ?case
  proof (cases "deref f = cSTAR")
    case True
    with Cons.prems show ?thesis by simp
  next
    case ns: False
    have z: "deref f \<noteq> 0" using ne Cons.prems(1) by (simp add: deref_eq_0_iff)
    note item = wc_fragment_item_parse [OF Cons.prems(1) ne ns, of c]
    show ?thesis
    proof (cases "parse_tok f")
      case (Inl e')
      with Cons.prems ne ns z item show ?thesis by (simp add: wc_parse_step)
    next
      case (Inr r)
      then obtain k f1 where k: "parse_tok f = Inr (k, f1)" by (cases r) auto
      with Cons.prems ne have "wc_parse f1 = Inl e"
        by (auto simp: wc_parse_step elim: map_sum_Cons_InlE)
      with Cons.IH [OF parse_tok_cstring [OF Cons.prems(1) k]] k item ns z show ?thesis
        by (auto split: prod.splits)
    qed
  qed
qed

lemma parse_dropWhile_star_malformed:
  "wc_parse f = Inl e \<Longrightarrow> wc_parse (dropWhile (\<lambda>c. c = 42) f) = Inl e"
proof (induction f)
  case (Cons c f)
  show ?case
  proof (cases "c = 42")
    case True
    with Cons.prems have "wc_parse f = Inl e"
      by (auto simp: parse_star elim: map_sum_Cons_InlE)
    with Cons.IH True show ?thesis by simp
  qed (use Cons.prems in simp)
qed simp

lemma wc_loops_malformed:
  shows "cstring w \<Longrightarrow> wc_parse w = Inl e \<Longrightarrow> deref w = cSTAR \<Longrightarrow>
      wc_main_loop w t b \<in> {Some 0, Some e}"
    and "cstring w \<Longrightarrow> wc_parse w = Inl e \<Longrightarrow> w \<noteq> [] \<Longrightarrow> deref w \<noteq> cSTAR \<Longrightarrow>
      wc_search w t b \<in> {Some 0, Some e}"
proof (induction w t b and w t b rule: wc_main_loop_wc_search.induct)
  case (1 w t b)
  define w' where "w' = dropWhile (\<lambda>c. c = 42) w"
  have p: "wc_parse w' = Inl e"
    unfolding w'_def by (rule parse_dropWhile_star_malformed [OF "1.prems"(2)])
  then have ne: "w' \<noteq> []" by auto
  have c': "cstring w'"
    using "1.prems"(1) unfolding w'_def cstring_def by (meson set_dropWhileD)
  have d: "deref w' \<noteq> 0" "deref w' \<noteq> cSTAR"
    using ne c' hd_dropWhile [of "\<lambda>c. c = 42" w] by (cases w'; auto simp: w'_def)+
  have "wc_search w' t b \<in> {Some 0, Some e}"
    by (rule "1.IH" [OF _ _ w'_def d(1) c' p ne d(2)]) (use "1.prems"(3) in auto)
  then show ?case using "1.prems"(3) d
    by (subst wc_main_loop.simps) (simp add: w'_def [symmetric] Let_def)
next
  case (2 w t b)
  have d: "deref w \<noteq> 0" using "2.prems" by (simp add: deref_eq_0_iff)
  have e: "e < 0" using wc_parse_Inl_neg "2.prems" by blast
  note unf = wc_search.simps [of w t b]
  obtain ret w' t' where f: "wc_match_fragment w t = (ret, w', t')"
    by (metis prod_cases3)
  with wc_match_fragment_malformed [OF "2.prems"(1,2), of t]
  consider "ret = e" | "ret = 0" "w' = w" "t' = t" | "ret = 1" "cstring w'" "wc_parse w' = Inl e"
    using e by (auto simp: wc_match_fragment_def split: prod.splits if_splits)
  then show ?case
  proof cases
    case 1
    with e f d "2.prems" show ?thesis by (simp add: unf)
  next
    case 2
    show ?thesis
    proof (cases "deref (t @ b) = 0")
      case False
      have "wc_search w (tl t) (if t = [] then tl b else b) \<in> {Some 0, Some e}"
        using "2.IH"(2) [OF _ False f [symmetric] refl] 2 d "2.prems" by simp
      with False 2 f d "2.prems" show ?thesis by (simp add: unf)
    qed (use d "2.prems" in \<open>simp add: unf\<close>)
  next
    case 3
    then have "w' \<noteq> []" by auto
    with 3(2) have dw: "deref w' \<noteq> 0" by (simp add: deref_eq_0_iff)
    show ?thesis
    proof (cases "deref (t @ b) = 0")
      case False
      have "deref w' = cSTAR" using wc_match_fragment_length(3) [OF f] 3(1) dw by simp
      then have "wc_main_loop w' t' b \<in> {Some 0, Some e}"
        using "2.IH"(1) [OF _ False f [symmetric] refl] 3 d dw "2.prems" by simp
      with False 3 f d dw "2.prems" show ?thesis by (simp add: unf)
    qed (use d "2.prems" in \<open>simp add: unf\<close>)
  qed
qed

subsection \<open>Properties\<close>

lemma wc_match_inner_glob:
  assumes "cstring w" and "cstring t" and "wc_parse w = Inr ks"
  shows "wc_match_inner w t b = Some (if glob ks t then 1 else 0)"
proof (cases "deref w = cSTAR")
  case True
  with wc_loops_glob(1) [OF assms] show ?thesis by (simp add: wc_match_inner_def)
next
  case False
  let ?t = "drop (length (rigid ks)) t" and ?k = "drop (length (rigid ks)) ks"
  have ks: "ks = rigid ks @ ?k" by (simp add: rigid_append)
  note g = glob_frag [OF rigid_not_star, of ks ?k t, folded ks]
  show ?thesis
  proof (cases "frag_match (rigid ks) t")
    case True
    with wc_match_fragment_frag [OF assms(1,3), of t] obtain w' where
      f: "wc_match_fragment w t = (1, w', ?t)" "cstring w'" "wc_parse w' = Inr ?k" by auto
    have "w' = [] \<or> deref w' = cSTAR"
      using wc_match_fragment_length(3) [OF f(1)] f(2) by (simp add: deref_eq_0_iff)
    from wc_loops_glob(1) [OF f(2) cstring_drop [OF assms(2)] f(3) this] f(1) False True g
    show ?thesis by (simp add: wc_match_inner_def)
  next
    case nf: False
    with wc_match_fragment_frag [OF assms(1,3), of t] False g show ?thesis
      by (simp add: wc_match_inner_def)
  qed
qed

text \<open>C6: the matcher decides the documented language. For every well-formed wildcard, \<open>wc_match\<close>
  returns 1 exactly on the strings the wildcard describes (\<open>*\<close> any sequence, \<open>?\<close> any character,
  classes, escapes) and 0 on all others: taking the first place where each fragment fits never
  loses a match.\<close>

theorem wc_match_decides:
  assumes "cstring wildcard" and "cstring target" and "wc_parse wildcard = Inr ks"
  shows "wc_match wildcard target = Some (if glob ks target then 1 else 0)"
  unfolding wc_match_def by (rule wc_match_inner_glob [OF assms])

theorem wc_match_decides_witness:
  \<comment> \<open>the wildcard \<open>a*[^b-d]?\<close> against \<open>axyzz\<close>\<close>
  "wc_match [97, 42, 91, 94, 98, 45, 100, 93, 63] [97, 120, 121, 122, 122] = Some 1"
proof -
  have p: "wc_parse [97, 42, 91, 94, 98, 45, 100, 93, 63] =
      Inr [WLit 97, WStar, WClass True [(98, 100)], WAny]"
    by (simp add: wc_parse.simps parse_class.simps class_range_def)
  have c: "cstring [97, 42, 91, 94, 98, 45, 100, 93, 63]" "cstring [97, 120, 121, 122, 122]" by simp_all
  have "glob [WLit 97, WStar, WClass True [(98, 100)], WAny] [97, 120, 121, 122, 122]" by simp
  with wc_match_decides [OF c p] show ?thesis by simp
qed

text \<open>C7: a malformed wildcard never matches. The result is 0 (the target was exhausted or rejected
  before the fault was reached) or the negative code of its first syntax error, the one
  \<open>wc_error\<close> explains; and no wildcard makes the matcher's assertion fail.\<close>

theorem wc_match_malformed:
  assumes "cstring wildcard" and "wc_parse wildcard = Inl e"
  shows "wc_match wildcard target \<in> {Some 0, Some e} \<and> e < 0"
proof -
  have e: "e < 0" by (rule wc_parse_Inl_neg [OF assms])
  show ?thesis
  proof (cases "deref wildcard = cSTAR")
    case True
    with wc_loops_malformed(1) [OF assms True] e show ?thesis
      by (simp add: wc_match_def wc_match_inner_def)
  next
    case False
    obtain ret w' t' where f: "wc_match_fragment wildcard target = (ret, w', t')"
      by (metis prod_cases3)
    with wc_match_fragment_malformed [OF assms, of target]
    consider "ret = e" | "ret = 0" | "ret = 1" "cstring w'" "wc_parse w' = Inl e"
      using e by (auto simp: wc_match_fragment_def split: prod.splits if_splits)
    then show ?thesis
    proof cases
      case 3
      then have "deref w' \<noteq> 0" by (auto simp: deref_eq_0_iff)
      with wc_match_fragment_length(3) [OF f] 3(1) have "deref w' = cSTAR" by simp
      with wc_loops_malformed(1) [OF 3(2,3)] f 3(1) False e show ?thesis
        by (simp add: wc_match_def wc_match_inner_def)
    qed (use f False e in \<open>simp_all add: wc_match_def wc_match_inner_def\<close>)
  qed
qed

theorem wc_match_malformed_witness:
  \<comment> \<open>\<open>ab[c-]\<close> against \<open>abb\<close>: the range is not terminated\<close>
  "wc_match [97, 98, 91, 99, 45, 93] [97, 98, 98] \<in> {Some 0, Some (- 3)} \<and>
   wc_error (- 3) = MsgInvalidRange"
proof -
  have p: "wc_parse [97, 98, 91, 99, 45, 93] = Inl (- 3)"
    by (simp add: wc_parse.simps parse_class.simps class_range_def wc_error_defs)
  have "cstring [97, 98, 91, 99, 45, 93]" by simp
  from wc_match_malformed [OF this p] show ?thesis
    by (simp add: wc_error_def wc_error_defs)
qed

lemma wc_unescape_parse:
  "wc_unescape w = Some s \<Longrightarrow> wc_parse w = Inr ks \<Longrightarrow> ks = map WLit s"
proof (induction w arbitrary: s ks rule: wc_unescape.induct)
  case 1
  then show ?case by simp
next
  case (2 c w)
  then show ?case
    by (cases w) (fastforce simp: wc_parse_step elim!: map_sum_Cons_InrE split: if_splits)+
qed

lemma glob_lits: "glob (map WLit s) t \<longleftrightarrow> t = s"
proof (induction s arbitrary: t)
  case Nil
  then show ?case by (cases t) simp_all
next
  case (Cons c s)
  then show ?case by (cases t) auto
qed

text \<open>C8: un-escaping. A string \<open>wc_unescape\<close> accepts, with no stray backslash at its end, is a
  wildcard that matches exactly one name, the un-escaped one; so using the result as a plain
  file name and using the original as a wildcard agree.\<close>

theorem wc_unescape_names:
  assumes "cstring w" and "wc_unescape w = Some s" and "wc_parse w = Inr ks" and "cstring target"
  shows "wc_match w target = Some (if target = s then 1 else 0)"
  using wc_match_inner_glob [OF assms(1,4,3)] wc_unescape_parse [OF assms(2,3)]
  by (simp add: wc_match_def glob_lits)

theorem wc_unescape_names_witness:
  \<comment> \<open>\<open>a\*b\<close> names the file \<open>a*b\<close>\<close>
  "wc_match [97, 92, 42, 98] [97, 42, 98] = Some 1 \<and> wc_unescape [97, 92, 42, 98] = Some [97, 42, 98]"
proof -
  have c: "cstring [97, 92, 42, 98]" "cstring [97, 42, 98]" by simp_all
  have u: "wc_unescape [97, 92, 42, 98] = Some [97, 42, 98]" by simp
  have p: "wc_parse [97, 92, 42, 98] = Inr [WLit 97, WLit 42, WLit 98]"
    by (simp add: wc_parse.simps)
  from wc_unescape_names [OF c(1) u p c(2)] u show ?thesis by simp
qed

end
