(* ===== verification/Utf8.thy ===== *)
theory Utf8
  imports Prelude
begin

text \<open>
  UTF-8 (\<open>charset/utf8.c\<close>: \<open>read_utf8\<close>, \<open>write_utf8\<close>; \<open>utils/utils.c\<close>: \<open>encode_utf8\<close>).
  The \<open>emit\<close> callback is the list of the values emitted by one call. A \<open>long int\<close> of the Windows
  ABI is its 32-bit pattern, compared signed (\<open><s\<close>) where the source compares it; the state word
  \<open>charset_state.s0\<close> is unsigned. The lemmas show the decoder inverts the encoder and accepts
  nothing else.
\<close>

definition ERROR :: u32 where "ERROR = 0xFFFF"

text \<open>One call of \<open>read_utf8\<close>: the new state word and the values emitted.\<close>

definition read_utf8 :: "u32 \<Rightarrow> u32 \<Rightarrow> u32 \<times> u32 list" where
  "read_utf8 input_chr s0 =
     (if input_chr <s 0x80 then
        (if s0 \<noteq> 0 then (0, [ERROR, input_chr]) else (s0, [input_chr]))
      else if input_chr = 0xFE \<or> input_chr = 0xFF then
        (if s0 \<noteq> 0 then (0, [ERROR, ERROR]) else (s0, [ERROR]))
      else if 0x80 \<le>s input_chr \<and> input_chr <s 0xC0 then
        (if s0 = 0 then (s0, [ERROR])
         else
           let charval = s0 AND 0x03ffffff;
               charval = push_bit 6 charval OR (input_chr AND 0x3F);
               topstuff = s0 AND 0xfc000000;
               topstuff = topstuff + 0x04000000
           in if (push_bit 3 topstuff XOR topstuff) AND 0xe0000000 \<noteq> 0
              then (topstuff OR charval, [])
              else
                let bytes = drop_bit 29 topstuff
                in if charval \<ge> 0xD800 \<and> charval < 0xE000 then (0, [ERROR])
                   else if charval = 0xFFFE \<or> charval = 0xFFFF then (0, [ERROR])
                   else if charval \<le> 0x7F \<or>
                           (charval \<le> 0x7FF \<and> bytes > 2) \<or>
                           (charval \<le> 0xFFFF \<and> bytes > 3) \<or>
                           (charval \<le> 0x1FFFFF \<and> bytes > 4) \<or>
                           (charval \<le> 0x3FFFFFF \<and> bytes > 5) then (0, [ERROR])
                   else (0, [charval]))
      else
        let errs = (if s0 \<noteq> 0 then [ERROR] else [])
        in if 0xC0 \<le>s input_chr \<and> input_chr <s 0xE0 then (0x44000000 OR (input_chr AND 0x1F), errs)
           else if 0xE0 \<le>s input_chr \<and> input_chr <s 0xF0 then (0x64000000 OR (input_chr AND 0x0F), errs)
           else if 0xF0 \<le>s input_chr \<and> input_chr <s 0xF8 then (0x84000000 OR (input_chr AND 0x07), errs)
           else if 0xF8 \<le>s input_chr \<and> input_chr <s 0xFC then (0xa4000000 OR (input_chr AND 0x03), errs)
           else if 0xFC \<le>s input_chr \<and> input_chr <s 0xFE then (0xc4000000 OR (input_chr AND 0x01), errs)
           else (s0, errs))"

text \<open>The decoder over a sequence of input bytes.\<close>

fun read_all :: "u32 list \<Rightarrow> u32 \<Rightarrow> u32 \<times> u32 list" where
  "read_all [] s0 = (s0, [])"
| "read_all (b # bs) s0 =
     (case read_utf8 b s0 of (s1, out) \<Rightarrow> case read_all bs s1 of (s2, out') \<Rightarrow> (s2, out @ out'))"

text \<open>\<open>>>\<close> on a \<open>long int\<close> is \<open>signed_drop_bit\<close>.\<close>

definition write_utf8 :: "u32 \<Rightarrow> u32 list" where
  "write_utf8 input_chr =
     (if input_chr = 0xFFFE \<or> input_chr = 0xFFFF \<or> (0xD800 \<le>s input_chr \<and> input_chr <s 0xE000)
      then [ERROR]
      else if input_chr <s 0x80 then [input_chr]
      else if input_chr <s 0x800 then
        [0xC0 OR (0x1F AND signed_drop_bit 6 input_chr), 0x80 OR (0x3F AND input_chr)]
      else if input_chr <s 0x10000 then
        [0xE0 OR (0x0F AND signed_drop_bit 12 input_chr), 0x80 OR (0x3F AND signed_drop_bit 6 input_chr),
         0x80 OR (0x3F AND input_chr)]
      else if input_chr <s 0x200000 then
        [0xF0 OR (0x07 AND signed_drop_bit 18 input_chr), 0x80 OR (0x3F AND signed_drop_bit 12 input_chr),
         0x80 OR (0x3F AND signed_drop_bit 6 input_chr), 0x80 OR (0x3F AND input_chr)]
      else if input_chr <s 0x4000000 then
        [0xF8 OR (0x03 AND signed_drop_bit 24 input_chr), 0x80 OR (0x3F AND signed_drop_bit 18 input_chr),
         0x80 OR (0x3F AND signed_drop_bit 12 input_chr), 0x80 OR (0x3F AND signed_drop_bit 6 input_chr),
         0x80 OR (0x3F AND input_chr)]
      else
        [0xFC OR (0x01 AND signed_drop_bit 30 input_chr), 0x80 OR (0x3F AND signed_drop_bit 24 input_chr),
         0x80 OR (0x3F AND signed_drop_bit 18 input_chr), 0x80 OR (0x3F AND signed_drop_bit 12 input_chr),
         0x80 OR (0x3F AND signed_drop_bit 6 input_chr), 0x80 OR (0x3F AND input_chr)])"

text \<open>\<open>encode_utf8\<close> of the utilities: stores bytes, at most four.\<close>

definition encode_utf8 :: "u32 \<Rightarrow> byte list" where
  "encode_utf8 ch =
     (if ch < 0x80 then [ucast ch]
      else if ch < 0x800 then
        [ucast (0xC0 OR drop_bit 6 ch), ucast (0x80 OR (ch AND 0x3F))]
      else if ch < 0x10000 then
        [ucast (0xE0 OR drop_bit 12 ch), ucast (0x80 OR (drop_bit 6 ch AND 0x3F)),
         ucast (0x80 OR (ch AND 0x3F))]
      else
        [ucast (0xF0 OR drop_bit 18 ch), ucast (0x80 OR (drop_bit 12 ch AND 0x3F)),
         ucast (0x80 OR (drop_bit 6 ch AND 0x3F)), ucast (0x80 OR (ch AND 0x3F))])"

subsection \<open>Bit facts\<close>

text \<open>\<open>fits n c\<close>: the value has no bit at or above position \<open>n\<close>.\<close>

definition fits :: "nat \<Rightarrow> u32 \<Rightarrow> bool" where
  "fits n c \<longleftrightarrow> take_bit n c = c"

lemma fits_bit: "fits n c \<Longrightarrow> bit c m \<Longrightarrow> m < n"
  by (metis bit_take_bit_iff fits_def)

lemma fits_iff: "fits n c \<longleftrightarrow> (\<forall>m. bit c m \<longrightarrow> m < n)"
proof
  show "\<forall>m. bit c m \<longrightarrow> m < n \<Longrightarrow> fits n c"
    unfolding fits_def by (rule bit_word_eqI) (auto simp: bit_take_bit_iff)
qed (use fits_bit in blast)

lemma less_fits: "n < 32 \<Longrightarrow> c < 2 ^ n \<longleftrightarrow> fits n c"
  by (simp add: word_2p_lem word_size fits_def word_uint_eq_iff [of "take_bit n c"]
      unsigned_take_bit_eq take_bit_int_eq_self_iff)

lemma fits_mono: "fits m c \<Longrightarrow> m \<le> n \<Longrightarrow> fits n c"
  by (auto simp: fits_iff)

lemma fits_take: "fits n (take_bit n c)"
  by (simp add: fits_def)

lemma fits_drop: "fits (m + k) c \<Longrightarrow> fits m (drop_bit k c)"
  by (force simp: fits_iff bit_drop_bit_eq)

lemma fits_small: "fits 6 c \<longleftrightarrow> c < 64" "fits 26 c \<longleftrightarrow> c < 0x4000000" "fits 31 c \<longleftrightarrow> c < 0x80000000"
  "fits 5 c \<longleftrightarrow> c < 32" "fits 4 c \<longleftrightarrow> c < 16" "fits 3 c \<longleftrightarrow> c < 8" "fits 2 c \<longleftrightarrow> c < 4"
  "fits 1 c \<longleftrightarrow> c < 2" "fits 11 c \<longleftrightarrow> c < 0x800" "fits 16 c \<longleftrightarrow> c < 0x10000"
  "fits 21 c \<longleftrightarrow> c < 0x200000"
  using less_fits [of 6 c] less_fits [of 26 c] less_fits [of 31 c] less_fits [of 5 c]
    less_fits [of 4 c] less_fits [of 3 c] less_fits [of 2 c] less_fits [of 1 c] less_fits [of 11 c]
    less_fits [of 16 c] less_fits [of 21 c]
  by simp_all

lemma and_3F: "x AND 0x3F = take_bit 6 x" "0x3F AND x = take_bit 6 x" for x :: u32
proof -
  have "(0x3F :: u32) = mask 6" by (simp add: mask_eq_exp_minus_1)
  then show "x AND 0x3F = take_bit 6 x" by (simp add: take_bit_eq_mask)
  then show "0x3F AND x = take_bit 6 x" by (simp add: and.commute)
qed

text \<open>For values below \<open>2 ^ 31\<close> the signed operations are the unsigned ones.\<close>

lemma sint_small: "fits 31 a \<Longrightarrow> sint a = uint a"
  by (simp add: fits_small sint_uint word_less_alt signed_take_bit_int_eq_self_iff)
    (smt (verit) uint_ge_0)

lemma sless_small: "fits 31 a \<Longrightarrow> fits 31 b \<Longrightarrow> a <s b \<longleftrightarrow> a < b"
  by (simp only: word_sless_alt sint_small word_less_alt)

lemma sle_small: "fits 31 a \<Longrightarrow> fits 31 b \<Longrightarrow> a \<le>s b \<longleftrightarrow> a \<le> b"
  by (simp only: word_sle_eq sint_small word_le_def)

lemma signed_drop_bit_small: "fits 31 c \<Longrightarrow> signed_drop_bit k c = drop_bit k c"
  by (rule bit_word_eqI)
    (auto simp: bit_signed_drop_bit_iff bit_drop_bit_eq dest: fits_bit bit_imp_le_length)

text \<open>A byte of a multibyte character is a fixed prefix and a payload of \<open>n\<close> bits.\<close>

lemma payload_add:
  assumes "take_bit n base = 0" and "fits n y"
  shows "base OR y = base + y"
proof -
  have "\<not> bit base m \<or> \<not> bit y m" for m
  proof -
    have "\<not> bit (take_bit n base) m" using assms(1) by simp
    with fits_bit [OF assms(2)] show ?thesis by (auto simp: bit_take_bit_iff)
  qed
  then show ?thesis by (subst disjunctive_add) auto
qed

lemma payload_take: "take_bit n base = 0 \<Longrightarrow> fits n y \<Longrightarrow> take_bit n (base OR y) = y"
  by (simp add: fits_def)

lemma payload_exists:
  assumes "take_bit n base = 0" and "fits n (b - base)"
  obtains y where "fits n y" "b = base OR y"
proof -
  have "b = base + (b - base)" by simp
  with payload_add [OF assms] assms(2) that show thesis by metis
qed

text \<open>Appending the six payload bits of a continuation byte to a value.\<close>

lemma push6_fits: "fits m v \<Longrightarrow> fits 6 y \<Longrightarrow> fits (m + 6) (push_bit 6 v OR y)"
  by (force simp: fits_iff bit_or_iff bit_push_bit_iff)

lemma push6_drop: "fits 26 v \<Longrightarrow> fits 6 y \<Longrightarrow> drop_bit (k + 6) (push_bit 6 v OR y) = drop_bit k v"
  by (rule bit_word_eqI)
    (force simp: bit_drop_bit_eq bit_or_iff bit_push_bit_iff dest: fits_bit)

lemma push6_take: "fits 6 y \<Longrightarrow> take_bit 6 (push_bit 6 v OR y) = y"
  by (rule bit_word_eqI) (auto simp: bit_take_bit_iff bit_or_iff bit_push_bit_iff dest: fits_bit)

lemma drop6_join: "push_bit 6 (drop_bit 6 c) OR take_bit 6 c = c" for c :: u32
  by (rule bit_word_eqI)
    (auto simp: bit_drop_bit_eq bit_or_iff bit_push_bit_iff bit_take_bit_iff)

subsection \<open>The shape of multibyte characters\<close>

definition lead_base :: "nat \<Rightarrow> u32" where
  "lead_base n = (if n = 2 then 0xC0 else if n = 3 then 0xE0 else if n = 4 then 0xF0
                  else if n = 5 then 0xF8 else 0xFC)"

text \<open>The first \<open>k\<close> bytes of an \<open>n\<close>-byte character whose first bits have the value \<open>v\<close>.\<close>

fun penc :: "nat \<Rightarrow> nat \<Rightarrow> u32 \<Rightarrow> u32 list" where
  "penc n 0 v = []"
| "penc n (Suc 0) v = [lead_base n OR v]"
| "penc n (Suc (Suc k)) v = penc n (Suc k) (drop_bit 6 v) @ [0x80 OR take_bit 6 v]"

definition tag :: "nat \<Rightarrow> nat \<Rightarrow> u32" where
  "tag n k = push_bit 29 (word_of_nat n) OR push_bit 26 (word_of_nat k)"

definition lower_bound :: "nat \<Rightarrow> u32" where
  "lower_bound n = (if n = 2 then 0x80 else if n = 3 then 0x800 else if n = 4 then 0x10000
                    else if n = 5 then 0x200000 else 0x4000000)"

definition legal :: "u32 \<Rightarrow> bool" where
  "legal c \<longleftrightarrow> c < 2 ^ 31 \<and> c \<noteq> 0xFFFE \<and> c \<noteq> 0xFFFF \<and> \<not> (0xD800 \<le> c \<and> c < 0xE000)"

lemma nat_2_6: "2 \<le> n \<Longrightarrow> n \<le> 6 \<Longrightarrow> n \<in> {2, 3, 4, 5, 6}" for n :: nat
  by auto

lemma penc_rec:
  "penc n k v = (if k = 0 then [] else if k = 1 then [lead_base n OR v]
     else penc n (k - 1) (drop_bit 6 v) @ [0x80 OR take_bit 6 v])"
  by (cases "(n, k, v)" rule: penc.cases) simp_all

lemma penc_eqs:
  "penc 2 2 c = [0xC0 OR drop_bit 6 c, 0x80 OR take_bit 6 c]"
  "penc 3 3 c = [0xE0 OR drop_bit 12 c, 0x80 OR take_bit 6 (drop_bit 6 c), 0x80 OR take_bit 6 c]"
  "penc 4 4 c = [0xF0 OR drop_bit 18 c, 0x80 OR take_bit 6 (drop_bit 12 c),
     0x80 OR take_bit 6 (drop_bit 6 c), 0x80 OR take_bit 6 c]"
  "penc 5 5 c = [0xF8 OR drop_bit 24 c, 0x80 OR take_bit 6 (drop_bit 18 c),
     0x80 OR take_bit 6 (drop_bit 12 c), 0x80 OR take_bit 6 (drop_bit 6 c), 0x80 OR take_bit 6 c]"
  "penc 6 6 c = [0xFC OR drop_bit 30 c, 0x80 OR take_bit 6 (drop_bit 24 c),
     0x80 OR take_bit 6 (drop_bit 18 c), 0x80 OR take_bit 6 (drop_bit 12 c),
     0x80 OR take_bit 6 (drop_bit 6 c), 0x80 OR take_bit 6 c]"
  by (simp_all add: penc_rec [of _ 6] penc_rec [of _ 5] penc_rec [of _ 4] penc_rec [of _ 3]
      penc_rec [of _ 2] penc_rec [of _ 1] lead_base_def)

lemma lead_ors:
  "fits 5 x \<Longrightarrow> 0x1F AND x = x" "fits 4 x \<Longrightarrow> 0xF AND x = x" "fits 3 x \<Longrightarrow> 7 AND x = x"
  "fits 2 x \<Longrightarrow> 3 AND x = x" "fits 1 x \<Longrightarrow> 1 AND x = x"
proof -
  have "mask 5 = (0x1F :: u32)" "mask 4 = (0xF :: u32)" "mask 3 = (7 :: u32)" "mask 2 = (3 :: u32)"
    "mask 1 = (1 :: u32)" by (simp_all add: mask_eq_exp_minus_1)
  then show "fits 5 x \<Longrightarrow> 0x1F AND x = x" "fits 4 x \<Longrightarrow> 0xF AND x = x" "fits 3 x \<Longrightarrow> 7 AND x = x"
    "fits 2 x \<Longrightarrow> 3 AND x = x" "fits 1 x \<Longrightarrow> 1 AND x = x"
    by (simp_all only: fits_def take_bit_eq_mask and.commute)
qed

lemma write_utf8_small:
  assumes "fits 31 c" and "legal c"
  shows "write_utf8 c =
     (if c < 0x80 then [c]
      else if c < 0x800 then [0xC0 OR (0x1F AND drop_bit 6 c), 0x80 OR take_bit 6 c]
      else if c < 0x10000 then
        [0xE0 OR (0x0F AND drop_bit 12 c), 0x80 OR take_bit 6 (drop_bit 6 c), 0x80 OR take_bit 6 c]
      else if c < 0x200000 then
        [0xF0 OR (0x07 AND drop_bit 18 c), 0x80 OR take_bit 6 (drop_bit 12 c),
         0x80 OR take_bit 6 (drop_bit 6 c), 0x80 OR take_bit 6 c]
      else if c < 0x4000000 then
        [0xF8 OR (0x03 AND drop_bit 24 c), 0x80 OR take_bit 6 (drop_bit 18 c),
         0x80 OR take_bit 6 (drop_bit 12 c), 0x80 OR take_bit 6 (drop_bit 6 c), 0x80 OR take_bit 6 c]
      else
        [0xFC OR (0x01 AND drop_bit 30 c), 0x80 OR take_bit 6 (drop_bit 24 c),
         0x80 OR take_bit 6 (drop_bit 18 c), 0x80 OR take_bit 6 (drop_bit 12 c),
         0x80 OR take_bit 6 (drop_bit 6 c), 0x80 OR take_bit 6 c])"
proof -
  have n: "fits 31 0x80" "fits 31 0x800" "fits 31 0x10000" "fits 31 0x200000" "fits 31 0x4000000"
    "fits 31 0xD800" "fits 31 0xE000" by (simp_all add: fits_small)
  show ?thesis
    using assms(2) unfolding write_utf8_def and_3F
    by (simp only: sless_small [OF assms(1) n(1)] sless_small [OF assms(1) n(2)]
        sless_small [OF assms(1) n(3)] sless_small [OF assms(1) n(4)] sless_small [OF assms(1) n(5)]
        sle_small [OF n(6) assms(1)] sless_small [OF assms(1) n(7)] signed_drop_bit_small [OF assms(1)]
        legal_def if_False simp_thms)
qed

lemma write_utf8_penc:
  assumes "legal c" and "2 \<le> n" "n \<le> 6" and "lower_bound n \<le> c" and "fits (5 * n + 1) c"
  shows "write_utf8 c = penc n n c"
proof -
  have c: "fits 31 c" using assms(1) by (simp add: legal_def fits_small)
  note w = write_utf8_small [OF c assms(1)]
  have lt: "c < a \<longleftrightarrow> unat c < unat a" "a \<le> c \<longleftrightarrow> unat a \<le> unat c" for a
    by (simp_all add: word_less_nat_alt word_le_nat_alt)
  consider "n = 2" | "n = 3" | "n = 4" | "n = 5" | "n = 6" using nat_2_6 [OF assms(2,3)] by auto
  then show ?thesis
  proof cases
    case 1
    with assms(5) have f: "fits 11 c" by simp
    with 1 have "fits 5 (drop_bit 6 c)" by (intro fits_drop) simp
    with 1 f assms(4) show ?thesis unfolding w
      by (simp add: lower_bound_def lead_base_def lead_ors fits_small lt penc_eqs)
  next
    case 2
    with assms(5) have f: "fits 16 c" by simp
    with 2 have "fits 4 (drop_bit 12 c)" by (intro fits_drop) simp
    with 2 f assms(4) show ?thesis unfolding w
      by (simp add: lower_bound_def lead_base_def lead_ors fits_small lt penc_eqs)
  next
    case 3
    with assms(5) have f: "fits 21 c" by simp
    with 3 have "fits 3 (drop_bit 18 c)" by (intro fits_drop) simp
    with 3 f assms(4) show ?thesis unfolding w
      by (simp add: lower_bound_def lead_base_def lead_ors fits_small lt penc_eqs)
  next
    case 4
    with assms(5) have f: "fits 26 c" by simp
    with 4 have "fits 2 (drop_bit 24 c)" by (intro fits_drop) simp
    with 4 f assms(4) show ?thesis unfolding w
      by (simp add: lower_bound_def lead_base_def lead_ors fits_small lt penc_eqs)
  next
    case 5
    with c have "fits 1 (drop_bit 30 c)" by (intro fits_drop) simp
    with 5 c assms(4) show ?thesis unfolding w
      by (simp add: lower_bound_def lead_base_def lead_ors fits_small lt penc_eqs)
  qed
qed

subsection \<open>The decoder on the bytes of one character\<close>

lemma unat_payload:
  assumes "take_bit n base = 0" and "fits n y" and "unat base + 2 ^ n \<le> 2 ^ 32"
  shows "unat (base OR y) = unat base + unat y"
proof -
  have "unat y = take_bit n (unat y)"
    using assms(2) by (metis fits_def unsigned_take_bit_eq)
  also have "\<dots> < 2 ^ n" by (rule take_bit_nat_less_exp)
  finally have "unat y < 2 ^ n" .
  with assms(3) show ?thesis
    by (simp add: payload_add [OF assms(1,2)] unat_word_ariths)
qed

lemma cont_range:
  assumes "fits 6 y"
  shows "fits 31 (0x80 OR y)" "\<not> (0x80 OR y) <s 0x80" "0x80 \<le>s (0x80 OR y)" "(0x80 OR y) <s 0xC0"
    "0x80 OR y \<noteq> 0xFE" "0x80 OR y \<noteq> 0xFF" "take_bit 6 (0x80 OR y) = y"
proof -
  have t: "take_bit 6 (0x80 :: u32) = 0" by simp
  have y: "unat y < 64" using assms by (simp add: fits_small word_less_nat_alt)
  have u: "unat (0x80 OR y) = 128 + unat y" using unat_payload [OF t assms] by simp
  show f: "fits 31 (0x80 OR y)" using u y by (simp add: fits_small word_less_nat_alt)
  have n: "fits 31 0x80" "fits 31 0xC0" by (simp_all add: fits_small)
  show "\<not> (0x80 OR y) <s 0x80" "0x80 \<le>s (0x80 OR y)" "(0x80 OR y) <s 0xC0"
    using u y by (simp_all add: sless_small [OF f n(1)] sle_small [OF n(1) f] sless_small [OF f n(2)]
        word_less_nat_alt word_le_nat_alt)
  show "0x80 OR y \<noteq> 0xFE" "0x80 OR y \<noteq> 0xFF" using u y by (auto simp: word_unat_eq_iff)
  show "take_bit 6 (0x80 OR y) = y" by (rule payload_take [OF t assms])
qed

definition finish :: "nat \<Rightarrow> u32 \<Rightarrow> u32 \<times> u32 list" where
  "finish n c =
     (0, [if (0xD800 \<le> c \<and> c < 0xE000) \<or> c = 0xFFFE \<or> c = 0xFFFF \<or> c < lower_bound n then ERROR else c])"

lemma state_parts:
  assumes "fits 26 v" and "take_bit 26 t = 0"
  shows "(t OR v) AND 0x3ffffff = v" "(t OR v) AND 0xfc000000 = t"
proof -
  have m: "(0x3ffffff :: u32) = mask 26" "(0xfc000000 :: u32) = NOT (mask 26)"
    by (simp_all add: mask_eq_exp_minus_1)
  show "(t OR v) AND 0x3ffffff = v"
    unfolding m(1) take_bit_eq_mask [symmetric] by (rule payload_take [OF assms(2,1)])
  show "(t OR v) AND 0xfc000000 = t"
    unfolding m(2)
  proof (rule bit_word_eqI)
    fix n assume "n < LENGTH(32)"
    have "bit t n \<Longrightarrow> 26 \<le> n" using assms(2) by (metis bit_0_eq bit_take_bit_iff bot_apply bot_bool_def not_le)
    with \<open>n < LENGTH(32)\<close> show "bit ((t OR v) AND NOT (mask 26)) n = bit t n"
      by (auto simp: bit_and_iff bit_or_iff bit_not_iff bit_mask_iff dest: fits_bit [OF assms(1)])
  qed
qed

lemma read_cont_raw:
  assumes "fits 26 v" and "take_bit 26 t = 0" and "t \<noteq> 0" and "fits 6 y"
  shows "read_utf8 (0x80 OR y) (t OR v) =
     (let charval = push_bit 6 v OR y; topstuff = t + 0x04000000
      in if (push_bit 3 topstuff XOR topstuff) AND 0xe0000000 \<noteq> 0
         then (topstuff OR charval, [])
         else let bytes = drop_bit 29 topstuff in
           if charval \<ge> 0xD800 \<and> charval < 0xE000 then (0, [ERROR])
           else if charval = 0xFFFE \<or> charval = 0xFFFF then (0, [ERROR])
           else if charval \<le> 0x7F \<or>
                   (charval \<le> 0x7FF \<and> bytes > 2) \<or>
                   (charval \<le> 0xFFFF \<and> bytes > 3) \<or>
                   (charval \<le> 0x1FFFFF \<and> bytes > 4) \<or>
                   (charval \<le> 0x3FFFFFF \<and> bytes > 5) then (0, [ERROR])
           else (0, [charval]))"
proof -
  note p = state_parts [OF assms(1,2)]
  have z: "t OR v \<noteq> 0" using p(2) assms(3) by auto
  show ?thesis
    unfolding read_utf8_def Let_def
    by (simp only: cont_range [OF assms(4)] p z and_3F if_True if_False simp_thms not_False_eq_True)
qed

lemma stages:
  assumes "2 \<le> n" "n \<le> 6" "1 \<le> k" "k < n"
  shows "(n, k) \<in> {(2::nat,1::nat), (3,1), (3,2), (4,1), (4,2), (4,3), (5,1), (5,2), (5,3), (5,4),
      (6,1), (6,2), (6,3), (6,4), (6,5)}"
proof -
  have "n = 2 \<or> n = 3 \<or> n = 4 \<or> n = 5 \<or> n = 6" using assms by linarith
  with assms(3,4) show ?thesis unfolding insert_iff prod.inject empty_iff
    by presburger
qed

lemma tag_low: "take_bit 26 (tag n k) = 0"
  unfolding tag_def by (rule bit_word_eqI) (auto simp: bit_take_bit_iff bit_or_iff bit_push_bit_iff)

lemma read_cont:
  assumes "2 \<le> n" "n \<le> 6" "1 \<le> k" "k < n" and "fits 26 v" and "fits 6 y"
  shows "read_utf8 (0x80 OR y) (tag n k OR v) =
    (if Suc k < n then (tag n (Suc k) OR (push_bit 6 v OR y), []) else finish n (push_bit 6 v OR y))"
proof -
  note nk = stages [OF assms(1-4)]
  have t: "tag n k \<noteq> 0" using nk by (auto simp: tag_def)
  obtain c where c: "push_bit 6 v OR y = c" by simp
  have le: "c \<le> 0x7F \<longleftrightarrow> c < 0x80" "c \<le> 0x7FF \<longleftrightarrow> c < 0x800" "c \<le> 0xFFFF \<longleftrightarrow> c < 0x10000"
    "c \<le> 0x1FFFFF \<longleftrightarrow> c < 0x200000" "c \<le> 0x3FFFFFF \<longleftrightarrow> c < 0x4000000"
    by (auto simp: word_less_nat_alt word_le_nat_alt)
  have mono: "c < 0x80 \<Longrightarrow> c < 0x800" "c < 0x800 \<Longrightarrow> c < 0x10000" "c < 0x10000 \<Longrightarrow> c < 0x200000"
    "c < 0x200000 \<Longrightarrow> c < 0x4000000"
    by (simp_all add: word_less_nat_alt)
  show ?thesis
    unfolding read_cont_raw [OF assms(5) tag_low t assms(6)] c le
    using nk mono by (elim insertE) (auto simp add: tag_def finish_def lower_bound_def le)
qed

lemma unat_fits: "fits n y \<Longrightarrow> unat y < 2 ^ n"
  by (metis fits_def take_bit_nat_less_exp unsigned_take_bit_eq)

lemma fits_unat: "unat c < 2 ^ n \<Longrightarrow> fits n c"
  unfolding fits_def by (simp add: word_unat_eq_iff unsigned_take_bit_eq take_bit_nat_eq_self)

lemma read_lead:
  assumes "2 \<le> n" "n \<le> 6" and "fits (7 - n) y"
  shows "read_utf8 (lead_base n OR y) s0 = (tag n 1 OR y, if s0 \<noteq> 0 then [ERROR] else [])"
proof -
  have n31: "fits 31 0x80" "fits 31 0xC0" "fits 31 0xE0" "fits 31 0xF0" "fits 31 0xF8" "fits 31 0xFC"
    "fits 31 0xFE" by (simp_all add: fits_small)
  have ands: "x AND 0x1F = take_bit 5 x" "x AND 0xF = take_bit 4 x" "x AND 7 = take_bit 3 x"
    "x AND 3 = take_bit 2 x" "x AND 1 = take_bit 1 x" for x :: u32
    by (simp_all add: take_bit_eq_mask mask_eq_exp_minus_1)
  obtain b where b: "lead_base n OR y = b" by simp
  have z: "take_bit (7 - n) (lead_base n) = 0" and le: "unat (lead_base n) + 2 ^ (7 - n) \<le> 256"
    using nat_2_6 [OF assms(1,2)] by (auto simp: lead_base_def)
  note t = payload_take [OF z assms(3), unfolded b]
  have u: "unat b = unat (lead_base n) + unat y" "unat y < 2 ^ (7 - n)"
    using unat_payload [OF z assms(3)] le unat_fits [OF assms(3)] by (simp_all add: b)
  then have f: "fits 31 b" using le by (simp add: fits_small word_less_nat_alt)
  note cmp = sless_small [OF f n31(1)] sless_small [OF f n31(2)] sless_small [OF f n31(3)]
    sless_small [OF f n31(4)] sless_small [OF f n31(5)] sless_small [OF f n31(6)]
    sless_small [OF f n31(7)] sle_small [OF n31(1) f] sle_small [OF n31(2) f] sle_small [OF n31(3) f]
    sle_small [OF n31(4) f] sle_small [OF n31(5) f] sle_small [OF n31(6) f]
  have ne: "b = 0xFE \<longleftrightarrow> unat b = 0xFE" "b = 0xFF \<longleftrightarrow> unat b = 0xFF"
    by (simp_all add: word_unat_eq_iff)
  have "n = 2 \<or> n = 3 \<or> n = 4 \<or> n = 5 \<or> n = 6" using nat_2_6 [OF assms(1,2)] by auto
  then show ?thesis
    using t u unfolding b read_utf8_def cmp ands ne Let_def word_less_nat_alt word_le_nat_alt
    by (elim disjE) (simp_all add: lead_base_def tag_def)
qed

lemma read_all_append:
  "read_all (xs @ ys) s0 =
     (case read_all xs s0 of (s1, o1) \<Rightarrow> case read_all ys s1 of (s2, o2) \<Rightarrow> (s2, o1 @ o2))"
  by (induction xs arbitrary: s0) (auto split: prod.splits)

lemma read_all_penc:
  "2 \<le> n \<Longrightarrow> n \<le> 6 \<Longrightarrow> 1 \<le> k \<Longrightarrow> k < n \<Longrightarrow> fits (6 * k + 1 - n) v \<Longrightarrow>
     read_all (penc n k v) 0 = (tag n k OR v, [])"
proof (induction n k v rule: penc.induct)
  case (2 n v)
  then show ?case by (simp add: read_lead)
next
  case (3 n k v)
  have f: "fits (6 * Suc k + 1 - n) (drop_bit 6 v)"
    using "3.prems"(2,5) by (intro fits_drop fits_mono [OF "3.prems"(5)]) auto
  have f26: "fits 26 (drop_bit 6 v)" by (rule fits_mono [OF f]) (use "3.prems" in auto)
  from "3.IH" [OF "3.prems"(1,2) _ _ f] "3.prems"(4)
    read_cont [OF "3.prems"(1,2) _ _ f26 fits_take, of "Suc k"] "3.prems"(4)
  show ?case by (simp add: read_all_append drop6_join)
qed simp

lemma read_all_penc_full:
  assumes "2 \<le> n" "n \<le> 6" and "fits (5 * n + 1) v"
  shows "read_all (penc n n v) 0 = finish n v"
proof -
  obtain k where k: "n = Suc (Suc k)" using assms(1) by (auto simp: numeral_2_eq_2 dest!: le_Suc_ex)
  have f: "fits (6 * Suc k + 1 - n) (drop_bit 6 v)"
    using k by (intro fits_drop fits_mono [OF assms(3)]) auto
  have f26: "fits 26 (drop_bit 6 v)" by (rule fits_mono [OF f]) (use assms(2) k in auto)
  have "read_all (penc n (Suc k) (drop_bit 6 v)) 0 = (tag n (Suc k) OR drop_bit 6 v, [])"
    by (rule read_all_penc [OF assms(1,2) _ _ f]) (use k in auto)
  with read_cont [OF assms(1,2) _ _ f26 fits_take, of "Suc k"] k show ?thesis
    by (simp add: read_all_append drop6_join finish_def)
qed

lemma lengths_exist:
  assumes "legal c" and "0x80 \<le> c"
  obtains n where "2 \<le> n" "n \<le> 6" "lower_bound n \<le> c" "fits (5 * n + 1) c"
proof -
  have c: "c < 0x80000000" using assms(1) by (simp add: legal_def)
  consider "c < 0x800" | "0x800 \<le> c" "c < 0x10000" | "0x10000 \<le> c" "c < 0x200000"
    | "0x200000 \<le> c" "c < 0x4000000" | "0x4000000 \<le> c"
    by fastforce
  then show thesis
    by cases (use assms(2) c that [of 2] that [of 3] that [of 4] that [of 5] that [of 6]
      in \<open>simp_all add: lower_bound_def fits_small\<close>)
qed

lemma read_write: "legal c \<Longrightarrow> read_all (write_utf8 c) 0 = (0, [c])"
proof (cases "c < 0x80")
  case True
  assume l: "legal c"
  then have f: "fits 31 c" by (simp add: legal_def fits_small)
  have "fits 31 0x80" by (simp add: fits_small)
  with l f True show ?thesis
    by (simp add: write_utf8_small read_utf8_def sless_small)
next
  case False
  assume l: "legal c"
  from False obtain n where n: "2 \<le> n" "n \<le> 6" "lower_bound n \<le> c" "fits (5 * n + 1) c"
    using lengths_exist [OF l] by (metis not_le)
  with write_utf8_penc [OF l n] read_all_penc_full [OF n(1,2,4)] l show ?thesis
    by (auto simp: finish_def legal_def dest: leD)
qed

text \<open>C9: a UTF-8 round trip. Writing any sequence of legal code points below \<open>2 ^ 31\<close> (no surrogates,
  not U+FFFE or U+FFFF) with \<open>write_utf8\<close> and feeding the bytes to \<open>read_utf8\<close> one by one gives
  exactly those code points, in order, and leaves the decoder in its initial state.\<close>

theorem utf8_write_read:
  assumes "\<forall>c\<in>set cs. legal c"
  shows "read_all (concat (map write_utf8 cs)) 0 = (0, cs)"
  using assms by (induction cs) (simp_all add: read_all_append read_write)

theorem utf8_write_read_witness:
  "read_all (concat (map write_utf8 [0x41, 0xE9, 0x20AC, 0x1F600, 0x7FFFFFFF])) 0 =
     (0, [0x41, 0xE9, 0x20AC, 0x1F600, 0x7FFFFFFF])"
  by (rule utf8_write_read) (simp add: legal_def)

subsection \<open>What the decoder accepts\<close>

text \<open>\<open>pending s0 p\<close>: the state word \<open>s0\<close> is the one after the bytes \<open>p\<close> of an unfinished character.\<close>

definition pending :: "u32 \<Rightarrow> u32 list \<Rightarrow> bool" where
  "pending s0 p \<longleftrightarrow> (s0 = 0 \<and> p = []) \<or>
     (\<exists>n k v. 2 \<le> n \<and> n \<le> 6 \<and> 1 \<le> k \<and> k < n \<and> fits (6 * k + 1 - n) v \<and>
       s0 = tag n k OR v \<and> p = penc n k v)"

lemma tag_or_nonzero:
  assumes "2 \<le> n" "n \<le> 6" "1 \<le> k" "k < n"
  shows "tag n k OR v \<noteq> 0"
proof -
  have t: "tag n k \<noteq> 0" using stages [OF assms] by (auto simp: tag_def)
  show ?thesis using t by (metis or_eq_0_iff)
qed

lemma pending_0: "pending 0 p \<Longrightarrow> p = []"
  unfolding pending_def using tag_or_nonzero by metis

lemma byte_class:
  assumes "b < 0x100"
  obtains "b < 0x80" | "b = 0xFE \<or> b = 0xFF" | y where "fits 6 y" "b = 0x80 OR y"
    | n y where "2 \<le> n" "n \<le> 6" "fits (7 - n) y" "b = lead_base n OR y"
proof -
  have pay: "\<exists>y. fits n y \<and> b = base OR y"
    if "take_bit n base = 0" "base \<le> b" "unat b - unat base < 2 ^ n" for n base
  proof -
    have "fits n (b - base)" using that(2,3) by (intro fits_unat) (simp add: unat_sub)
    with payload_exists [OF that(1), of b] show ?thesis by metis
  qed
  have lead: "\<exists>y. fits (7 - n) y \<and> b = lead_base n OR y"
    if "2 \<le> n" "n \<le> 6" "lead_base n \<le> b" "unat b < unat (lead_base n) + 2 ^ (7 - n)" for n
    using nat_2_6 [OF that(1,2)] that(3,4)
    by (intro pay) (auto simp: lead_base_def)
  consider "b < 0x80" | "0x80 \<le> b" "b < 0xC0" | "0xC0 \<le> b" "b < 0xE0" | "0xE0 \<le> b" "b < 0xF0"
    | "0xF0 \<le> b" "b < 0xF8" | "0xF8 \<le> b" "b < 0xFC" | "0xFC \<le> b" "b < 0xFE"
    | "b = 0xFE \<or> b = 0xFF"
    using assms by (fastforce simp: word_less_nat_alt word_le_nat_alt word_unat_eq_iff)
  then show thesis
  proof cases
    case 2
    then have "unat b < 192" by (simp add: word_less_nat_alt)
    then have "unat b - 128 < 64" by linarith
    with 2 show thesis using pay [of 6 "0x80"] that(3) by auto
  next
    case 3
    then show thesis using lead [of 2] that(4) [of 2]
      by (auto simp: lead_base_def word_less_nat_alt)
  next
    case 4
    then show thesis using lead [of 3] that(4) [of 3]
      by (auto simp: lead_base_def word_less_nat_alt)
  next
    case 5
    then show thesis using lead [of 4] that(4) [of 4]
      by (auto simp: lead_base_def word_less_nat_alt)
  next
    case 6
    then show thesis using lead [of 5] that(4) [of 5]
      by (auto simp: lead_base_def word_less_nat_alt)
  next
    case 7
    then show thesis using lead [of 6] that(4) [of 6]
      by (auto simp: lead_base_def word_less_nat_alt)
  qed (use that in auto)
qed

lemma finish_legal:
  assumes "2 \<le> n" "n \<le> 6" "fits (5 * n + 1) c" "finish n c = (s1, outs)" "ERROR \<notin> set outs"
  shows "s1 = 0 \<and> outs = [c] \<and> legal c \<and> write_utf8 c = penc n n c"
proof -
  from assms(4,5) have "s1 = 0" "outs = [c]" "\<not> (0xD800 \<le> c \<and> c < 0xE000)" "c \<noteq> 0xFFFE"
    "c \<noteq> 0xFFFF" "lower_bound n \<le> c"
    by (auto simp: finish_def split: if_splits)
  moreover have "fits 31 c" using assms(2) by (intro fits_mono [OF assms(3)]) auto
  ultimately show ?thesis using write_utf8_penc [OF _ assms(1,2) _ assms(3)]
    by (simp add: legal_def fits_small)
qed

lemma read_step:
  assumes "pending s0 p" and "b < 0x100" and "read_utf8 b s0 = (s1, outs)" and "ERROR \<notin> set outs"
  shows "(outs = [] \<and> pending s1 (p @ [b])) \<or>
    (\<exists>c. outs = [c] \<and> s1 = 0 \<and> legal c \<and> write_utf8 c = p @ [b])"
  using assms(2)
proof (cases rule: byte_class)
  case 1
  then have f: "fits 31 b" by (simp add: fits_small word_less_nat_alt)
  have s: "b <s 0x80" using 1 by (subst sless_small [OF f]) (simp_all add: fits_small)
  from assms(3,4) s have "s0 = 0" "outs = [b]" "s1 = 0"
    by (auto simp: read_utf8_def split: if_splits)
  moreover from 1 have l: "legal b"
    by (auto simp: legal_def word_less_nat_alt word_le_nat_alt word_unat_eq_iff)
  ultimately show ?thesis using assms(1) 1 write_utf8_small [OF f l] by (auto dest: pending_0)
next
  case 2
  with assms(3,4) show ?thesis by (auto simp: read_utf8_def split: if_splits)
next
  case (3 y)
  show ?thesis
  proof (cases "s0 = 0")
    case True
    with assms(3,4) cont_range [OF 3(1)] 3(2) show ?thesis by (auto simp: read_utf8_def)
  next
    case False
    with assms(1) obtain n k v where p: "2 \<le> n" "n \<le> 6" "1 \<le> k" "k < n" "fits (6 * k + 1 - n) v"
      "s0 = tag n k OR v" "p = penc n k v"
      by (auto simp: pending_def)
    have f26: "fits 26 v" using p by (intro fits_mono [OF p(5)]) auto
    have f': "fits (6 * Suc k + 1 - n) (push_bit 6 v OR y)"
      using p(2,3) by (intro fits_mono [OF push6_fits [OF p(5) 3(1)]]) simp
    obtain k' where "k = Suc k'" using p(3) by (cases k) auto
    then have pe: "p @ [b] = penc n (Suc k) (push_bit 6 v OR y)"
      using p(7) 3 push6_drop [OF f26 3(1), of 0] push6_take [OF 3(1), of v]
      by (simp del: drop_bit_or take_bit_or)
    note r = read_cont [OF p(1-4) f26 3(1), folded 3(2) p(6), unfolded assms(3)]
    show ?thesis
    proof (cases "Suc k < n")
      case True
      with r have "outs = []" "s1 = tag n (Suc k) OR (push_bit 6 v OR y)" by simp_all
      with True f' pe p(1,2) show ?thesis unfolding pending_def
        by (intro disjI1 conjI disjI2 exI [of _ n] exI [of _ "Suc k"] exI [of _ "push_bit 6 v OR y"])
          auto
    next
      case False
      with p(4) have n: "n = Suc k" by simp
      from r False have "finish n (push_bit 6 v OR y) = (s1, outs)" by simp
      moreover have "fits (5 * n + 1) (push_bit 6 v OR y)"
        by (rule fits_mono [OF f']) (use n in simp)
      ultimately show ?thesis using finish_legal [OF p(1,2) _ _ assms(4)] n pe by metis
    qed
  qed
next
  case (4 n y)
  from read_lead [OF 4(1-3), of s0] assms(3,4) 4(4)
  have "s0 = 0" "outs = []" "s1 = tag n 1 OR y" by (auto split: if_splits)
  moreover with assms(1) have "p = []" by (simp add: pending_0)
  ultimately show ?thesis using 4 unfolding pending_def
    by (intro disjI1 conjI disjI2 exI [of _ n] exI [of _ 1] exI [of _ y]) auto
qed

lemma read_all_strict:
  "pending s0 p \<Longrightarrow> \<forall>b\<in>set bs. b < 0x100 \<Longrightarrow> read_all bs s0 = (0, cs) \<Longrightarrow> ERROR \<notin> set cs \<Longrightarrow>
     concat (map write_utf8 cs) = p @ bs \<and> (\<forall>c\<in>set cs. legal c)"
proof (induction bs arbitrary: s0 p cs)
  case Nil
  then show ?case by (auto dest: pending_0)
next
  case (Cons b bs)
  obtain s1 o1 where r: "read_utf8 b s0 = (s1, o1)" by fastforce
  with Cons.prems(3) obtain o2 where o2: "read_all bs s1 = (0, o2)" "cs = o1 @ o2"
    by (auto split: prod.splits)
  from read_step [OF Cons.prems(1) _ r] Cons.prems(2,4) o2(2)
  consider "o1 = []" "pending s1 (p @ [b])" | c where "o1 = [c]" "s1 = 0" "legal c" "write_utf8 c = p @ [b]"
    by auto
  then show ?case
  proof cases
    case 1
    with Cons.IH [OF 1(2) _ o2(1)] Cons.prems(2,4) o2(2) show ?thesis by simp
  next
    case 2
    with Cons.IH [of 0 "[]" o2] o2 Cons.prems(2,4) show ?thesis by (simp add: pending_def)
  qed
qed

text \<open>C10: strict decoding. A byte sequence the decoder reads without reporting an error, ending between
  characters, is exactly the encoding of the code points it emitted, all of them legal: overlong
  forms, surrogates, stray or missing continuation bytes and FE/FF never pass.\<close>

theorem utf8_read_write:
  assumes "\<forall>b\<in>set bs. b < 0x100" and "read_all bs 0 = (0, cs)" and "ERROR \<notin> set cs"
  shows "concat (map write_utf8 cs) = bs \<and> (\<forall>c\<in>set cs. legal c)"
  using read_all_strict [of 0 "[]" bs cs] assms by (simp add: pending_def)

theorem utf8_read_write_witness:
  "concat (map write_utf8 [0x41, 0x20AC]) = [0x41, 0xE2, 0x82, 0xAC] \<and> legal 0x41 \<and> legal 0x20AC"
proof -
  have "concat (map write_utf8 [0x41, 0x20AC]) = [0x41, 0xE2, 0x82, 0xAC] \<and> (\<forall>c\<in>set [0x41, 0x20AC]. legal c)"
    by (rule utf8_read_write) (simp_all add: read_utf8_def ERROR_def)
  then show ?thesis by simp
qed

text \<open>\<open>encode_utf8\<close>, the encoder the rest of the program uses, stores exactly the bytes
  \<open>write_utf8\<close> emits for every legal code point below \<open>0x200000\<close>, so the decoder reads its output
  back as that code point; and it never stores more than four bytes.\<close>

theorem encode_utf8_decodes:
  assumes "legal ch" and "ch < 0x200000"
  shows "map ucast (encode_utf8 ch) = write_utf8 ch \<and>
    read_all (map ucast (encode_utf8 ch)) 0 = (0, [ch]) \<and> length (encode_utf8 ch) \<le> 4"
proof -
  have f: "fits 31 ch" using assms(2) by (simp add: fits_small word_less_nat_alt)
  have b: "ucast (ucast x :: byte) = x" if "fits 8 x" for x :: u32
    by (rule bit_word_eqI) (use fits_bit [OF that] in \<open>auto simp: bit_simps\<close>)
  have o: "fits 8 (a OR x)" if "fits 8 a" "fits 8 x" for a x
    using that by (auto simp: fits_iff bit_or_iff)
  have t: "fits 8 (take_bit 6 x)" for x by (rule fits_mono [OF fits_take]) simp
  have c: "fits 8 0x80" "fits 8 0xC0" "fits 8 0xE0" "fits 8 0xF0" by (simp_all add: fits_unat)
  note w = write_utf8_small [OF f assms(1)]
  have "map ucast (encode_utf8 ch) = write_utf8 ch"
  proof -
    consider "ch < 0x80" | "\<not> ch < 0x80" "ch < 0x800" | "\<not> ch < 0x800" "ch < 0x10000"
      | "\<not> ch < 0x10000" "ch < 0x200000"
      using assms(2) by fastforce
    then show ?thesis
    proof cases
      case 1
      then have "fits 8 ch" by (intro fits_unat) (simp add: word_less_nat_alt)
      with 1 show ?thesis by (simp add: w encode_utf8_def b)
    next
      case 2
      then have d: "fits 5 (drop_bit 6 ch)" by (intro fits_drop) (simp add: fits_small)
      have "fits 8 (drop_bit 6 ch)" by (rule fits_mono [OF d]) simp
      with 2 d show ?thesis by (simp add: w encode_utf8_def and_3F lead_ors b o t c)
    next
      case 3
      then have d: "fits 4 (drop_bit 12 ch)" by (intro fits_drop) (simp add: fits_small)
      have "fits 8 (drop_bit 12 ch)" by (rule fits_mono [OF d]) simp
      moreover have "\<not> ch < 0x80" using 3(1) by (auto simp: word_less_nat_alt)
      ultimately show ?thesis using 3 d by (simp add: w encode_utf8_def and_3F lead_ors b o t c)
    next
      case 4
      then have d: "fits 3 (drop_bit 18 ch)" by (intro fits_drop) (simp add: fits_small)
      have "fits 8 (drop_bit 18 ch)" by (rule fits_mono [OF d]) simp
      moreover have "\<not> ch < 0x80" "\<not> ch < 0x800" using 4(1) by (auto simp: word_less_nat_alt)
      ultimately show ?thesis using 4 d by (simp add: w encode_utf8_def and_3F lead_ors b o t c)
    qed
  qed
  then show ?thesis using read_write [OF assms(1)] by (simp add: encode_utf8_def)
qed

theorem encode_utf8_decodes_witness:
  "map ucast (encode_utf8 0x20AC) = write_utf8 0x20AC \<and>
    read_all (map ucast (encode_utf8 0x20AC)) 0 = (0, [0x20AC]) \<and> length (encode_utf8 0x20AC) \<le> 4"
  by (rule encode_utf8_decodes) (simp_all add: legal_def)

end
