(* ===== verification/Telnet.thy ===== *)
theory Telnet
  imports Prelude
begin

text \<open>
  The Telnet backend (\<open>otherbackends/telnet.c\<close>): option negotiation, subnegotiation, the
  receive state machine, and sending. The backend's effects on its socket, its seat, its log and the
  line discipline are the list \<open>events\<close>, in order; what the socket and the seat answer to a write
  (their backlog) is the field \<open>backlog_of\<close>, a function of the events so far. The string buffers are
  their contents (\<open>Strbuf\<close> shows the allocation carries them). Lemma groups: what each operation
  adds to \<open>events\<close>, the negotiation invariant, and reading back what is sent.
\<close>

subsection \<open>Protocol constants\<close>

abbreviation IAC :: byte where "IAC \<equiv> 255"
abbreviation DONT :: byte where "DONT \<equiv> 254"
abbreviation DO :: byte where "DO \<equiv> 253"
abbreviation WONT :: byte where "WONT \<equiv> 252"
abbreviation WILL :: byte where "WILL \<equiv> 251"
abbreviation SB :: byte where "SB \<equiv> 250"
abbreviation GA :: byte where "GA \<equiv> 249"
abbreviation EL :: byte where "EL \<equiv> 248"
abbreviation EC :: byte where "EC \<equiv> 247"
abbreviation AYT :: byte where "AYT \<equiv> 246"
abbreviation AO :: byte where "AO \<equiv> 245"
abbreviation IP :: byte where "IP \<equiv> 244"
abbreviation BREAK :: byte where "BREAK \<equiv> 243"
abbreviation DM :: byte where "DM \<equiv> 242"
abbreviation NOP :: byte where "NOP \<equiv> 241"
abbreviation SE :: byte where "SE \<equiv> 240"
abbreviation EOR :: byte where "EOR \<equiv> 239"
abbreviation ABORT :: byte where "ABORT \<equiv> 238"
abbreviation SUSP :: byte where "SUSP \<equiv> 237"
abbreviation xEOF :: byte where "xEOF \<equiv> 236"

abbreviation TELOPT_BINARY :: byte where "TELOPT_BINARY \<equiv> 0"
abbreviation TELOPT_ECHO :: byte where "TELOPT_ECHO \<equiv> 1"
abbreviation TELOPT_SGA :: byte where "TELOPT_SGA \<equiv> 3"
abbreviation TELOPT_TTYPE :: byte where "TELOPT_TTYPE \<equiv> 24"
abbreviation TELOPT_NAWS :: byte where "TELOPT_NAWS \<equiv> 31"
abbreviation TELOPT_TSPEED :: byte where "TELOPT_TSPEED \<equiv> 32"
abbreviation TELOPT_OLD_ENVIRON :: byte where "TELOPT_OLD_ENVIRON \<equiv> 36"
abbreviation TELOPT_NEW_ENVIRON :: byte where "TELOPT_NEW_ENVIRON \<equiv> 39"

abbreviation TELQUAL_IS :: byte where "TELQUAL_IS \<equiv> 0"
abbreviation TELQUAL_SEND :: byte where "TELQUAL_SEND \<equiv> 1"
abbreviation BSD_VAR :: byte where "BSD_VAR \<equiv> 1"
abbreviation BSD_VALUE :: byte where "BSD_VALUE \<equiv> 0"
abbreviation RFC_VAR :: byte where "RFC_VAR \<equiv> 0"
abbreviation RFC_VALUE :: byte where "RFC_VALUE \<equiv> 1"
abbreviation CR :: byte where "CR \<equiv> 13"
abbreviation LF :: byte where "LF \<equiv> 10"

definition TELNET_MAX_BACKLOG :: nat where "TELNET_MAX_BACKLOG = 4096"

subsection \<open>Options\<close>

datatype optstate = REQUESTED | ACTIVE | INACTIVE | REALLY_INACTIVE

datatype optindex =
    OPTINDEX_NAWS | OPTINDEX_TSPEED | OPTINDEX_TTYPE | OPTINDEX_OENV | OPTINDEX_NENV
  | OPTINDEX_ECHO | OPTINDEX_WE_SGA | OPTINDEX_THEY_SGA | OPTINDEX_WE_BIN | OPTINDEX_THEY_BIN

record Opt =
  send :: byte
  nsend :: byte
  ack :: byte
  nak :: byte
  option_code :: byte
  index :: optindex
  initial_state :: optstate

definition mk_opt :: "byte \<Rightarrow> byte \<Rightarrow> byte \<Rightarrow> byte \<Rightarrow> byte \<Rightarrow> optindex \<Rightarrow> optstate \<Rightarrow> Opt" where
  "mk_opt s n a k c i st = \<lparr>send = s, nsend = n, ack = a, nak = k, option_code = c, index = i,
     initial_state = st\<rparr>"

definition o_naws :: Opt where
  "o_naws = mk_opt WILL WONT DO DONT TELOPT_NAWS OPTINDEX_NAWS REQUESTED"
definition o_tspeed :: Opt where
  "o_tspeed = mk_opt WILL WONT DO DONT TELOPT_TSPEED OPTINDEX_TSPEED REQUESTED"
definition o_ttype :: Opt where
  "o_ttype = mk_opt WILL WONT DO DONT TELOPT_TTYPE OPTINDEX_TTYPE REQUESTED"
definition o_oenv :: Opt where
  "o_oenv = mk_opt WILL WONT DO DONT TELOPT_OLD_ENVIRON OPTINDEX_OENV INACTIVE"
definition o_nenv :: Opt where
  "o_nenv = mk_opt WILL WONT DO DONT TELOPT_NEW_ENVIRON OPTINDEX_NENV REQUESTED"
definition o_echo :: Opt where
  "o_echo = mk_opt DO DONT WILL WONT TELOPT_ECHO OPTINDEX_ECHO REQUESTED"
definition o_we_sga :: Opt where
  "o_we_sga = mk_opt WILL WONT DO DONT TELOPT_SGA OPTINDEX_WE_SGA REQUESTED"
definition o_they_sga :: Opt where
  "o_they_sga = mk_opt DO DONT WILL WONT TELOPT_SGA OPTINDEX_THEY_SGA REQUESTED"
definition o_we_bin :: Opt where
  "o_we_bin = mk_opt WILL WONT DO DONT TELOPT_BINARY OPTINDEX_WE_BIN INACTIVE"
definition o_they_bin :: Opt where
  "o_they_bin = mk_opt DO DONT WILL WONT TELOPT_BINARY OPTINDEX_THEY_BIN INACTIVE"

definition opts :: "Opt list" where
  "opts = [o_naws, o_tspeed, o_ttype, o_oenv, o_nenv, o_echo, o_we_sga, o_they_sga, o_we_bin, o_they_bin]"

lemmas opt_defs = mk_opt_def o_naws_def o_tspeed_def o_ttype_def o_oenv_def o_nenv_def o_echo_def
  o_we_sga_def o_they_sga_def o_we_bin_def o_they_bin_def

subsection \<open>State\<close>

datatype tstate =
    TOP_LEVEL | SEENIAC | SEENWILL | SEENWONT | SEENDO | SEENDONT
  | SEENSB | SUBNEGOT | SUBNEG_IAC | SEENCR

datatype sender = Client | Server

datatype event =
    SkWrite "byte list" | SkWriteOob "byte list" | SkSetFrozen bool | SkClose
  | SeatStdout "byte list" | SeatRemoteExit | SeatFatal "byte list"
  | LdiscUpdate | LogOption sender byte byte | LogMsg "byte list"

text \<open>The configuration entries the backend reads; \<open>environmt\<close> in the order \<open>conf_get_str_strs\<close>
  enumerates it, \<open>remote_username\<close> the result of \<open>get_remote_username\<close>.\<close>

record tconf =
  passive_telnet :: bool
  rfc_environ :: bool
  termspeed :: "byte list"
  termtype :: "byte list"
  environmt :: "(byte list \<times> byte list) list"
  remote_username :: "byte list option"
  conf_width :: int
  conf_height :: int

record telnet =
  sock :: bool
  closed_on_socket_error :: bool
  ldisc :: bool
  term_width :: int
  term_height :: int
  opt_states :: "optindex \<Rightarrow> optstate"
  echoing :: bool
  editing :: bool
  activated :: bool
  bufsize :: nat
  in_synch :: bool
  sb_opt :: byte
  sb_buf :: "byte list"
  session_started :: bool
  state :: tstate
  conf :: tconf
  events :: "event list"
  backlog_of :: "event list \<Rightarrow> nat"

abbreviation opt_state :: "telnet \<Rightarrow> Opt \<Rightarrow> optstate" where
  "opt_state t opt \<equiv> opt_states t (index opt)"

definition set_opt :: "Opt \<Rightarrow> optstate \<Rightarrow> telnet \<Rightarrow> telnet" where
  "set_opt opt st t = t\<lparr>opt_states := (opt_states t)(index opt := st)\<rparr>"

definition emit :: "event \<Rightarrow> telnet \<Rightarrow> telnet" where
  "emit e t = t\<lparr>events := events t @ [e]\<rparr>"

text \<open>\<open>telnet->bufsize = sk_write(telnet->s, ...)\<close>.\<close>

definition sk_write :: "byte list \<Rightarrow> telnet \<Rightarrow> telnet" where
  "sk_write b t = (let t1 = emit (SkWrite b) t in t1\<lparr>bufsize := backlog_of t1 (events t1)\<rparr>)"

definition sk_write_oob :: "byte list \<Rightarrow> telnet \<Rightarrow> telnet" where
  "sk_write_oob b t = (let t1 = emit (SkWriteOob b) t in t1\<lparr>bufsize := backlog_of t1 (events t1)\<rparr>)"

definition c_write :: "byte list \<Rightarrow> telnet \<Rightarrow> telnet" where
  "c_write buf t =
     (let t1 = emit (SeatStdout buf) t; backlog = backlog_of t1 (events t1)
      in emit (SkSetFrozen (backlog > TELNET_MAX_BACKLOG)) t1)"

definition log_option :: "sender \<Rightarrow> byte \<Rightarrow> byte \<Rightarrow> telnet \<Rightarrow> telnet" where
  "log_option who cmd opt = emit (LogOption who cmd opt)"

subsection \<open>Option negotiation\<close>

definition send_opt :: "byte \<Rightarrow> byte \<Rightarrow> telnet \<Rightarrow> telnet" where
  "send_opt cmd opt t = log_option Client cmd opt (sk_write [IAC, cmd, opt] t)"

definition deactivate_option :: "Opt \<Rightarrow> telnet \<Rightarrow> telnet" where
  "deactivate_option opt t =
     set_opt opt REALLY_INACTIVE
       (if opt_state t opt = REQUESTED \<or> opt_state t opt = ACTIVE
        then send_opt (nsend opt) (option_code opt) t else t)"

text \<open>One of the "minimum options" requested before the first activation.\<close>

definition request_if_inactive :: "Opt \<Rightarrow> telnet \<Rightarrow> telnet" where
  "request_if_inactive opt t =
     (if opt_state t opt = INACTIVE
      then send_opt (send opt) (option_code opt) (set_opt opt REQUESTED t) else t)"

definition option_side_effects :: "Opt \<Rightarrow> bool \<Rightarrow> telnet \<Rightarrow> telnet" where
  "option_side_effects opt enabled t =
     (let t1 = (if option_code opt = TELOPT_ECHO \<and> send opt = DO then t\<lparr>echoing := \<not> enabled\<rparr>
                else if option_code opt = TELOPT_SGA \<and> send opt = DO then t\<lparr>editing := \<not> enabled\<rparr>
                else t);
          t2 = (if ldisc t1 then emit LdiscUpdate t1 else t1)
      in if \<not> activated t2
         then (request_if_inactive o_they_sga (request_if_inactive o_we_sga
                (request_if_inactive o_echo t2)))\<lparr>activated := True\<rparr>
         else t2)"

text \<open>\<open>if (b[n-1] == IAC) b[n++] = IAC;\<close>\<close>

definition iac_double :: "byte \<Rightarrow> byte list" where
  "iac_double c = (if c = IAC then [c, IAC] else [c])"

definition naws_message :: "int \<Rightarrow> int \<Rightarrow> byte list" where
  "naws_message w h =
     [IAC, SB, TELOPT_NAWS] @
     iac_double (word_of_int (drop_bit 8 w)) @ iac_double (word_of_int (w AND 0xFF)) @
     iac_double (word_of_int (drop_bit 8 h)) @ iac_double (word_of_int (h AND 0xFF)) @ [IAC, SE]"

definition telnet_size :: "int \<Rightarrow> int \<Rightarrow> telnet \<Rightarrow> telnet" where
  "telnet_size width height t =
     (let t1 = t\<lparr>term_width := width, term_height := height\<rparr>
      in if \<not> sock t1 \<or> opt_state t1 o_naws \<noteq> ACTIVE then t1
         else sk_write (naws_message (term_width t1) (term_height t1)) t1)"

definition activate_option :: "Opt \<Rightarrow> telnet \<Rightarrow> telnet" where
  "activate_option opt t =
     (let t1 = (if send opt = WILL \<and> option_code opt = TELOPT_NAWS
                then telnet_size (term_width t) (term_height t) t else t);
          t2 = (if send opt = WILL \<and>
                   (option_code opt = TELOPT_NEW_ENVIRON \<or> option_code opt = TELOPT_OLD_ENVIRON)
                then deactivate_option
                  (if option_code opt = TELOPT_NEW_ENVIRON then o_oenv else o_nenv) t1
                else t1)
      in option_side_effects opt True t2)"

definition refused_option :: "Opt \<Rightarrow> telnet \<Rightarrow> telnet" where
  "refused_option opt t =
     (let t1 = (if send opt = WILL \<and> option_code opt = TELOPT_NEW_ENVIRON \<and>
                   opt_state t o_oenv = INACTIVE
                then set_opt o_oenv REQUESTED (send_opt WILL TELOPT_OLD_ENVIRON t) else t)
      in option_side_effects opt False t1)"

fun proc_rec_opt_loop :: "Opt list \<Rightarrow> byte \<Rightarrow> byte \<Rightarrow> telnet \<Rightarrow> telnet" where
  "proc_rec_opt_loop [] cmd opt t =
     (if cmd = WILL \<or> cmd = DO then send_opt (if cmd = WILL then DONT else WONT) opt t else t)"
| "proc_rec_opt_loop (x # xs) cmd opt t =
     (if option_code x = opt \<and> ack x = cmd then
        (case opt_state t x of
           REQUESTED \<Rightarrow> activate_option x (set_opt x ACTIVE t)
         | ACTIVE \<Rightarrow> t
         | INACTIVE \<Rightarrow> activate_option x (send_opt (send x) opt (set_opt x ACTIVE t))
         | REALLY_INACTIVE \<Rightarrow> send_opt (nsend x) opt t)
      else if option_code x = opt \<and> nak x = cmd then
        (case opt_state t x of
           REQUESTED \<Rightarrow> refused_option x (set_opt x INACTIVE t)
         | ACTIVE \<Rightarrow> option_side_effects x False (send_opt (nsend x) opt (set_opt x INACTIVE t))
         | INACTIVE \<Rightarrow> t
         | REALLY_INACTIVE \<Rightarrow> t)
      else proc_rec_opt_loop xs cmd opt t)"

definition proc_rec_opt :: "byte \<Rightarrow> byte \<Rightarrow> telnet \<Rightarrow> telnet" where
  "proc_rec_opt cmd opt t = proc_rec_opt_loop opts cmd opt (log_option Server cmd opt t)"

subsection \<open>Subnegotiation\<close>

definition upcase :: "byte \<Rightarrow> byte" where
  "upcase c = (if 97 \<le> c \<and> c \<le> 122 then c + 65 - 97 else c)"

text \<open>The allocation and the contents of the reply buffers \<open>b\<close>; the second component of
  \<open>subneg_ttype\<close> and \<open>subneg_tspeed\<close> is the number of bytes of \<open>b\<close> the code sends.\<close>

definition tspeed_alloc :: "tconf \<Rightarrow> nat" where
  "tspeed_alloc cf = 20 + length (termspeed cf)"

definition tspeed_message :: "tconf \<Rightarrow> byte list" where
  "tspeed_message cf = [IAC, SB, TELOPT_TSPEED, TELQUAL_IS] @ termspeed cf @ [IAC, SE]"

definition ttype_alloc :: "tconf \<Rightarrow> nat" where
  "ttype_alloc cf = 20 + length (termtype cf)"

definition ttype_message :: "tconf \<Rightarrow> byte list" where
  "ttype_message cf = [IAC, SB, TELOPT_TTYPE, TELQUAL_IS] @ List.map upcase (termtype cf) @ [IAC, SE]"

text \<open>The guess of the sense of VAR and VALUE: the last byte of the request that is one of them.\<close>

fun guess_var :: "byte list \<Rightarrow> byte \<times> byte \<Rightarrow> byte \<times> byte" where
  "guess_var [] vv = vv"
| "guess_var (c # p) vv =
     guess_var p (if c = RFC_VAR then (RFC_VAR, RFC_VALUE)
                  else if c = BSD_VAR then (BSD_VAR, BSD_VALUE) else vv)"

definition environ_sense :: "byte \<Rightarrow> tconf \<Rightarrow> byte list \<Rightarrow> byte \<times> byte" where
  "environ_sense opt cf p =
     (if opt = TELOPT_OLD_ENVIRON
      then guess_var p (if rfc_environ cf then (RFC_VAR, RFC_VALUE) else (BSD_VAR, BSD_VALUE))
      else (RFC_VAR, RFC_VALUE))"

fun environ_bsize_loop :: "(byte list \<times> byte list) list \<Rightarrow> nat \<Rightarrow> nat" where
  "environ_bsize_loop [] bsize = bsize"
| "environ_bsize_loop ((ekey, eval) # es) bsize =
     environ_bsize_loop es (bsize + length ekey + length eval + 2)"

definition environ_bsize :: "tconf \<Rightarrow> nat" where
  "environ_bsize cf =
     (let bsize = environ_bsize_loop (environmt cf) 20
      in case remote_username cf of None \<Rightarrow> bsize | Some user \<Rightarrow> bsize + 6 + length user)"

fun environ_entries :: "byte \<Rightarrow> byte \<Rightarrow> (byte list \<times> byte list) list \<Rightarrow> byte list" where
  "environ_entries var val [] = []"
| "environ_entries var val ((ekey, eval) # es) =
     var # ekey @ val # eval @ environ_entries var val es"

definition environ_message :: "byte \<Rightarrow> tconf \<Rightarrow> byte \<Rightarrow> byte \<Rightarrow> byte list" where
  "environ_message opt cf var val =
     [IAC, SB, opt, TELQUAL_IS] @ environ_entries var val (environmt cf) @
     (case remote_username cf of None \<Rightarrow> [] | Some user \<Rightarrow> var # [85, 83, 69, 82] @ val # user) @
     [IAC, SE]"

definition process_subneg :: "telnet \<Rightarrow> telnet" where
  "process_subneg t =
     (if sb_opt t = TELOPT_TSPEED then
        (if sb_buf t = [TELQUAL_SEND] then sk_write (tspeed_message (conf t)) t else t)
      else if sb_opt t = TELOPT_TTYPE then
        (if sb_buf t = [TELQUAL_SEND] then sk_write (ttype_message (conf t)) t else t)
      else if sb_opt t = TELOPT_OLD_ENVIRON \<or> sb_opt t = TELOPT_NEW_ENVIRON then
        (case sb_buf t of
           [] \<Rightarrow> t
         | c # p \<Rightarrow>
             if c = TELQUAL_SEND
             then (case environ_sense (sb_opt t) (conf t) p of
                     (var, val) \<Rightarrow> sk_write (environ_message (sb_opt t) (conf t) var val) t)
             else t)
      else t)"

subsection \<open>Receiving\<close>

definition subneg_addchar :: "byte \<Rightarrow> telnet \<Rightarrow> telnet" where
  "subneg_addchar c t = t\<lparr>sb_buf := sb_buf t @ [c], state := SUBNEGOT\<rparr>"

text \<open>The \<open>switch\<close> of the read loop, on the state and the bytes for the terminal.\<close>

definition telnet_read_byte :: "byte \<Rightarrow> telnet \<times> byte list \<Rightarrow> telnet \<times> byte list" where
  "telnet_read_byte c = (\<lambda>(t, outbuf).
     case state t of
       SEENIAC \<Rightarrow>
         if c = DO then (t\<lparr>state := SEENDO\<rparr>, outbuf)
         else if c = DONT then (t\<lparr>state := SEENDONT\<rparr>, outbuf)
         else if c = WILL then (t\<lparr>state := SEENWILL\<rparr>, outbuf)
         else if c = WONT then (t\<lparr>state := SEENWONT\<rparr>, outbuf)
         else if c = SB then (t\<lparr>state := SEENSB\<rparr>, outbuf)
         else if c = DM then (t\<lparr>in_synch := False, state := TOP_LEVEL\<rparr>, outbuf)
         else (t\<lparr>state := TOP_LEVEL\<rparr>, if c = IAC then outbuf @ [c] else outbuf)
     | SEENWILL \<Rightarrow> ((proc_rec_opt WILL c t)\<lparr>state := TOP_LEVEL\<rparr>, outbuf)
     | SEENWONT \<Rightarrow> ((proc_rec_opt WONT c t)\<lparr>state := TOP_LEVEL\<rparr>, outbuf)
     | SEENDO \<Rightarrow> ((proc_rec_opt DO c t)\<lparr>state := TOP_LEVEL\<rparr>, outbuf)
     | SEENDONT \<Rightarrow> ((proc_rec_opt DONT c t)\<lparr>state := TOP_LEVEL\<rparr>, outbuf)
     | SEENSB \<Rightarrow> (t\<lparr>sb_opt := c, sb_buf := [], state := SUBNEGOT\<rparr>, outbuf)
     | SUBNEGOT \<Rightarrow>
         if c = IAC then (t\<lparr>state := SUBNEG_IAC\<rparr>, outbuf) else (subneg_addchar c t, outbuf)
     | SUBNEG_IAC \<Rightarrow>
         if c \<noteq> SE then (subneg_addchar c t, outbuf)
         else ((process_subneg t)\<lparr>state := TOP_LEVEL\<rparr>, outbuf)
     | st \<Rightarrow>
         if c = 0 \<and> st = SEENCR then (t\<lparr>state := TOP_LEVEL\<rparr>, outbuf)
         else if c = IAC then (t\<lparr>state := SEENIAC\<rparr>, outbuf)
         else
           let outbuf1 = (if \<not> in_synch t then outbuf @ [c] else outbuf);
               t1 = (if in_synch t \<and> c = DM then t\<lparr>in_synch := False\<rparr> else t)
           in if c = CR \<and> opt_state t1 o_they_bin \<noteq> ACTIVE
              then (t1\<lparr>state := SEENCR\<rparr>, outbuf1) else (t1\<lparr>state := TOP_LEVEL\<rparr>, outbuf1))"

fun telnet_read_loop :: "byte list \<Rightarrow> telnet \<times> byte list \<Rightarrow> telnet \<times> byte list" where
  "telnet_read_loop [] s = s"
| "telnet_read_loop (c # buf) s =
     (case telnet_read_byte c s of
        (t, outbuf) \<Rightarrow>
          telnet_read_loop buf
            (if length outbuf \<ge> 4096 then (c_write outbuf t, []) else (t, outbuf)))"

definition do_telnet_read :: "byte list \<Rightarrow> telnet \<Rightarrow> telnet" where
  "do_telnet_read buf t =
     (case telnet_read_loop buf (t, []) of
        (t1, outbuf) \<Rightarrow> if outbuf \<noteq> [] then c_write outbuf t1 else t1)"

definition telnet_receive :: "bool \<Rightarrow> byte list \<Rightarrow> telnet \<Rightarrow> telnet" where
  "telnet_receive urgent data t =
     do_telnet_read data
       ((if urgent then t\<lparr>in_synch := True\<rparr> else t)\<lparr>session_started := True\<rparr>)"

definition telnet_closing :: "byte list option \<Rightarrow> telnet \<Rightarrow> telnet" where
  "telnet_closing error_msg t =
     (let t1 = (if sock t
                then emit SeatRemoteExit
                  (let t0 = (emit SkClose t)\<lparr>sock := False\<rparr>
                   in if error_msg \<noteq> None then t0\<lparr>closed_on_socket_error := True\<rparr> else t0)
                else t)
      in case error_msg of None \<Rightarrow> t1 | Some msg \<Rightarrow> emit (SeatFatal msg) (emit (LogMsg msg) t1))"

definition telnet_sent :: "nat \<Rightarrow> telnet \<Rightarrow> telnet" where
  "telnet_sent n t = t\<lparr>bufsize := n\<rparr>"

subsection \<open>Sending\<close>

definition iswritable :: "telnet \<Rightarrow> byte \<Rightarrow> bool" where
  "iswritable t x \<longleftrightarrow> x \<noteq> IAC \<and> (opt_state t o_we_bin = ACTIVE \<or> x \<noteq> CR)"

fun send_unwritable :: "byte list \<Rightarrow> telnet \<Rightarrow> byte list \<times> telnet" where
  "send_unwritable [] t = ([], t)"
| "send_unwritable (c # p) t =
     (if \<not> iswritable t c
      then send_unwritable p (sk_write (if c = IAC then [IAC, IAC] else [CR, 0]) t)
      else (c # p, t))"

lemma iswritable_sk_write [simp]: "iswritable (sk_write b t) = iswritable t"
  by (simp add: iswritable_def sk_write_def emit_def Let_def fun_eq_iff)

lemma send_unwritable_length:
  "length (fst (send_unwritable p t)) \<le> length p"
  "p \<noteq> [] \<Longrightarrow> \<not> iswritable t (hd p) \<Longrightarrow> length (fst (send_unwritable p t)) < length p"
proof -
  show le: "length (fst (send_unwritable p t)) \<le> length p" for p t
    by (induction p t rule: send_unwritable.induct) auto
  show "p \<noteq> [] \<Longrightarrow> \<not> iswritable t (hd p) \<Longrightarrow> length (fst (send_unwritable p t)) < length p"
    by (cases p) (auto intro: le_imp_less_Suc le)
qed

function telnet_send_loop :: "byte list \<Rightarrow> telnet \<Rightarrow> telnet" where
  "telnet_send_loop p t =
     (if p = [] then t
      else
        let q = takeWhile (iswritable t) p;
            t1 = sk_write q t;
            r = send_unwritable (dropWhile (iswritable t) p) t1
        in telnet_send_loop (fst r) (snd r))"
  by pat_completeness auto
termination
proof (relation "measure (\<lambda>x. length (fst x))", goal_cases)
  case (2 p t q t1 r)
  let ?d = "dropWhile (iswritable t) p"
  have w: "iswritable t1 = iswritable t" unfolding 2(3) by (rule iswritable_sk_write)
  have "length (fst r) < length p"
  proof (cases "?d = p")
    case True
    with 2(1) have "\<not> iswritable t1 (hd p)" unfolding w by (metis hd_dropWhile)
    from send_unwritable_length(2) [OF 2(1) this] show ?thesis unfolding 2(4) True .
  next
    case False
    have "length (takeWhile (iswritable t) p @ ?d) = length p" by (simp only: takeWhile_dropWhile_id)
    moreover have "takeWhile (iswritable t) p \<noteq> []"
      using False by (metis append_Nil takeWhile_dropWhile_id)
    then have "0 < length (takeWhile (iswritable t) p)" by blast
    ultimately have "length ?d < length p" by (simp only: length_append)
    with send_unwritable_length(1) [of ?d t1] show ?thesis unfolding 2(4) by linarith
  qed
  then show ?case by simp
qed simp

declare telnet_send_loop.simps [simp del]

definition telnet_send :: "byte list \<Rightarrow> telnet \<Rightarrow> nat \<times> telnet" where
  "telnet_send buf t =
     (if \<not> sock t then (0, t) else let t1 = telnet_send_loop buf t in (bufsize t1, t1))"

datatype session_special =
    SS_AYT | SS_BRK | SS_EC | SS_EL | SS_GA | SS_NOP | SS_ABORT | SS_AO | SS_IP | SS_SUSP
  | SS_EOR | SS_EOF | SS_EOL | SS_SYNCH | SS_PING | SS_REKEY | SS_XCERT | SS_SIG | SS_SEP
  | SS_SUBMENU | SS_EXITMENU

definition telnet_special :: "session_special \<Rightarrow> telnet \<Rightarrow> telnet" where
  "telnet_special code t =
     (if \<not> sock t then t
      else case code of
        SS_AYT \<Rightarrow> sk_write [IAC, AYT] t
      | SS_BRK \<Rightarrow> sk_write [IAC, BREAK] t
      | SS_EC \<Rightarrow> sk_write [IAC, EC] t
      | SS_EL \<Rightarrow> sk_write [IAC, EL] t
      | SS_GA \<Rightarrow> sk_write [IAC, GA] t
      | SS_NOP \<Rightarrow> sk_write [IAC, NOP] t
      | SS_ABORT \<Rightarrow> sk_write [IAC, ABORT] t
      | SS_AO \<Rightarrow> sk_write [IAC, AO] t
      | SS_IP \<Rightarrow> sk_write [IAC, IP] t
      | SS_SUSP \<Rightarrow> sk_write [IAC, SUSP] t
      | SS_EOR \<Rightarrow> sk_write [IAC, EOR] t
      | SS_EOF \<Rightarrow> sk_write [IAC, xEOF] t
      | SS_EOL \<Rightarrow> if opt_state t o_we_bin = ACTIVE then sk_write [CR] t else sk_write [CR, LF] t
      | SS_SYNCH \<Rightarrow> sk_write_oob [DM] (sk_write [IAC] t)
      | SS_PING \<Rightarrow> if opt_state t o_they_sga = ACTIVE then sk_write [IAC, NOP] t else t
      | _ \<Rightarrow> t)"

subsection \<open>Set-up and queries\<close>

text \<open>\<open>telnet_init\<close> up to the connection: the structure \<open>snew\<close> and the assignments fill.
  \<open>opt_states\<close>, \<open>bufsize\<close>, \<open>in_synch\<close> and \<open>sb_opt\<close> are not set there: \<open>garbage\<close> gives them.\<close>

definition telnet_fresh :: "tconf \<Rightarrow> (event list \<Rightarrow> nat) \<Rightarrow> telnet \<Rightarrow> telnet" where
  "telnet_fresh cf bl garbage =
     garbage\<lparr>conf := cf, sock := False, closed_on_socket_error := False, echoing := True,
       editing := True, activated := False, sb_buf := [], term_width := conf_width cf,
       term_height := conf_height cf, state := TOP_LEVEL, ldisc := False,
       session_started := True, events := [], backlog_of := bl\<rparr>"

fun init_passive :: "Opt list \<Rightarrow> telnet \<Rightarrow> telnet" where
  "init_passive [] t = t"
| "init_passive (x # xs) t = init_passive xs (set_opt x INACTIVE t)"

fun init_active :: "Opt list \<Rightarrow> telnet \<Rightarrow> telnet" where
  "init_active [] t = t"
| "init_active (x # xs) t =
     init_active xs
       (let t1 = set_opt x (initial_state x) t
        in if opt_state t1 x = REQUESTED then send_opt (send x) (option_code x) t1 else t1)"

text \<open>\<open>lookup_err\<close> and \<open>connect_err\<close> are the errors of \<open>name_lookup\<close> and \<open>new_connection\<close>.\<close>

definition telnet_init ::
    "tconf \<Rightarrow> (event list \<Rightarrow> nat) \<Rightarrow> telnet \<Rightarrow> byte list option \<Rightarrow> byte list option \<Rightarrow> byte list + telnet" where
  "telnet_init cf bl garbage lookup_err connect_err =
     (case lookup_err of
        Some err \<Rightarrow> Inl err
      | None \<Rightarrow>
          let t = (telnet_fresh cf bl garbage)\<lparr>sock := True\<rparr>
          in case connect_err of
               Some err \<Rightarrow> Inl err
             | None \<Rightarrow>
                 let t1 = (if passive_telnet (conf t) then init_passive opts t
                           else (init_active opts t)\<lparr>activated := True\<rparr>)
                 in Inr (t1\<lparr>in_synch := False\<rparr>))"

definition telnet_reconfig :: "tconf \<Rightarrow> telnet \<Rightarrow> telnet" where
  "telnet_reconfig cf t = t\<lparr>conf := cf\<rparr>"

definition telnet_sendbuffer :: "telnet \<Rightarrow> nat" where "telnet_sendbuffer t = bufsize t"

definition telnet_connected :: "telnet \<Rightarrow> bool" where "telnet_connected t = sock t"

definition telnet_unthrottle :: "nat \<Rightarrow> telnet \<Rightarrow> telnet" where
  "telnet_unthrottle backlog t = emit (SkSetFrozen (backlog > TELNET_MAX_BACKLOG)) t"

datatype ldisc_option = LD_EDIT | LD_ECHO

definition telnet_ldisc :: "ldisc_option \<Rightarrow> telnet \<Rightarrow> bool" where
  "telnet_ldisc opt t = (case opt of LD_ECHO \<Rightarrow> echoing t | LD_EDIT \<Rightarrow> editing t)"

definition telnet_provide_ldisc :: "bool \<Rightarrow> telnet \<Rightarrow> telnet" where
  "telnet_provide_ldisc l t = t\<lparr>ldisc := l\<rparr>"

definition INT_MAX :: int where "INT_MAX = 2147483647"

definition telnet_exitcode :: "telnet \<Rightarrow> int" where
  "telnet_exitcode t =
     (if sock t then - 1 else if closed_on_socket_error t then INT_MAX else 0)"

subsection \<open>What the operations send and deliver\<close>

definition wire_of :: "event \<Rightarrow> byte list" where
  "wire_of e = (case e of SkWrite b \<Rightarrow> b | _ \<Rightarrow> [])"

definition seat_of :: "event \<Rightarrow> byte list" where
  "seat_of e = (case e of SeatStdout b \<Rightarrow> b | _ \<Rightarrow> [])"

definition wire :: "telnet \<Rightarrow> byte list" where
  "wire t = concat (List.map wire_of (events t))"

definition seat_data :: "telnet \<Rightarrow> byte list" where
  "seat_data t = concat (List.map seat_of (events t))"

lemma emit_simps [simp]:
  "wire (emit e t) = wire t @ wire_of e" "seat_data (emit e t) = seat_data t @ seat_of e"
  "events (emit e t) = events t @ [e]" "opt_states (emit e t) = opt_states t"
  "state (emit e t) = state t" "in_synch (emit e t) = in_synch t" "sock (emit e t) = sock t"
  "echoing (emit e t) = echoing t" "editing (emit e t) = editing t" "activated (emit e t) = activated t"
  "backlog_of (emit e t) = backlog_of t" "ldisc (emit e t) = ldisc t" "conf (emit e t) = conf t"
  "sb_opt (emit e t) = sb_opt t" "sb_buf (emit e t) = sb_buf t"
  "term_width (emit e t) = term_width t" "term_height (emit e t) = term_height t"
  by (simp_all add: emit_def wire_def seat_data_def)

lemma wire_update [simp]:
  "wire (t\<lparr>state := a\<rparr>) = wire t" "seat_data (t\<lparr>state := a\<rparr>) = seat_data t"
  "wire (t\<lparr>in_synch := b\<rparr>) = wire t" "seat_data (t\<lparr>in_synch := b\<rparr>) = seat_data t"
  "wire (t\<lparr>bufsize := n\<rparr>) = wire t" "seat_data (t\<lparr>bufsize := n\<rparr>) = seat_data t"
  "wire (t\<lparr>sb_buf := l\<rparr>) = wire t" "seat_data (t\<lparr>sb_buf := l\<rparr>) = seat_data t"
  "wire (t\<lparr>sb_opt := c\<rparr>) = wire t" "seat_data (t\<lparr>sb_opt := c\<rparr>) = seat_data t"
  by (simp_all add: wire_def seat_data_def)

lemma event_bytes [simp]:
  "wire_of (SkWrite b) = b" "seat_of (SkWrite b) = []" "wire_of (SeatStdout b) = []"
  "seat_of (SeatStdout b) = b" "wire_of (SkSetFrozen f) = []" "seat_of (SkSetFrozen f) = []"
  "wire_of (LogOption w c opt) = []" "seat_of (LogOption w c opt) = []"
  "wire_of LdiscUpdate = []" "seat_of LdiscUpdate = []"
  by (simp_all add: wire_of_def seat_of_def)

lemma sk_write_simps [simp]:
  "wire (sk_write b t) = wire t @ b" "seat_data (sk_write b t) = seat_data t"
  "opt_states (sk_write b t) = opt_states t" "state (sk_write b t) = state t"
  "in_synch (sk_write b t) = in_synch t" "sock (sk_write b t) = sock t"
  "events (sk_write b t) = events t @ [SkWrite b]"
  "echoing (sk_write b t) = echoing t" "editing (sk_write b t) = editing t"
  "activated (sk_write b t) = activated t" "ldisc (sk_write b t) = ldisc t"
  "conf (sk_write b t) = conf t" "backlog_of (sk_write b t) = backlog_of t"
  "term_width (sk_write b t) = term_width t" "term_height (sk_write b t) = term_height t"
  by (simp_all add: sk_write_def Let_def)

lemma c_write_simps [simp]:
  "wire (c_write b t) = wire t" "seat_data (c_write b t) = seat_data t @ b"
  "opt_states (c_write b t) = opt_states t" "state (c_write b t) = state t"
  "in_synch (c_write b t) = in_synch t" "sock (c_write b t) = sock t"
  "sb_opt (c_write b t) = sb_opt t" "sb_buf (c_write b t) = sb_buf t"
  by (simp_all add: c_write_def Let_def)

text \<open>The escaping \<open>telnet_send\<close> applies, as a function of one byte.\<close>

definition escape :: "bool \<Rightarrow> byte \<Rightarrow> byte list" where
  "escape bin c = (if c = IAC then [IAC, IAC] else if c = CR \<and> \<not> bin then [CR, 0] else [c])"

definition we_bin :: "telnet \<Rightarrow> bool" where
  "we_bin t \<longleftrightarrow> opt_state t o_we_bin = ACTIVE"

lemma we_bin_sk_write [simp]: "we_bin (sk_write b t) = we_bin t"
  by (simp add: we_bin_def)

lemma escape_writable: "iswritable t c \<Longrightarrow> escape (we_bin t) c = [c]"
  by (auto simp: iswritable_def escape_def we_bin_def)

lemma concat_escape_writable:
  "\<forall>c\<in>set q. iswritable t c \<Longrightarrow> concat (List.map (escape (we_bin t)) q) = q"
  by (induction q) (simp_all add: escape_writable)

lemma send_unwritable_wire:
  "send_unwritable p t = (p', t') \<Longrightarrow>
     wire t' @ concat (List.map (escape (we_bin t)) p') = wire t @ concat (List.map (escape (we_bin t)) p) \<and>
     we_bin t' = we_bin t \<and> iswritable t' = iswritable t \<and> seat_data t' = seat_data t \<and>
     opt_states t' = opt_states t"
proof (induction p t arbitrary: p' t' rule: send_unwritable.induct)
  case (2 c p t)
  show ?case
  proof (cases "iswritable t c")
    case False
    with 2 have "send_unwritable p (sk_write (if c = IAC then [IAC, IAC] else [CR, 0]) t) = (p', t')"
      by simp
    moreover have "escape (we_bin t) c = (if c = IAC then [IAC, IAC] else [CR, 0])"
      using False by (auto simp: iswritable_def escape_def we_bin_def)
    ultimately show ?thesis using "2.IH" [OF False] by simp
  qed (use 2 in auto)
qed simp

lemma telnet_send_loop_wire:
  "wire (telnet_send_loop p t) = wire t @ concat (List.map (escape (we_bin t)) p) \<and>
   seat_data (telnet_send_loop p t) = seat_data t \<and> opt_states (telnet_send_loop p t) = opt_states t"
proof (induction p t rule: telnet_send_loop.induct)
  case (1 p t)
  show ?case
  proof (cases "p = []")
    case False
    let ?q = "takeWhile (iswritable t) p" and ?d = "dropWhile (iswritable t) p"
    obtain p' t' where r: "send_unwritable ?d (sk_write ?q t) = (p', t')" by fastforce
    have q: "concat (List.map (escape (we_bin t)) ?q) = ?q"
      by (rule concat_escape_writable) (auto dest: set_takeWhileD)
    have split: "concat (List.map (escape (we_bin t)) p) = ?q @ concat (List.map (escape (we_bin t)) ?d)"
      by (metis q concat_append map_append takeWhile_dropWhile_id)
    from send_unwritable_wire [OF r] "1.IH" [OF False refl refl refl] r False split show ?thesis
      by (subst (1 2 3) telnet_send_loop.simps) (simp add: Let_def)
  qed (simp add: telnet_send_loop.simps)
qed

text \<open>The read loop: what has been delivered and what is still in \<open>outbuf\<close>.\<close>

definition delivered :: "telnet \<times> byte list \<Rightarrow> byte list" where
  "delivered s = seat_data (fst s) @ snd s"

definition flush_out :: "telnet \<times> byte list \<Rightarrow> telnet \<times> byte list" where
  "flush_out s = (if length (snd s) \<ge> 4096 then (c_write (snd s) (fst s), []) else s)"

lemma flush_out_simps [simp]:
  "delivered (flush_out s) = delivered s" "state (fst (flush_out s)) = state (fst s)"
  "in_synch (fst (flush_out s)) = in_synch (fst s)"
  "opt_states (fst (flush_out s)) = opt_states (fst s)" "wire (fst (flush_out s)) = wire (fst s)"
  "sb_buf (fst (flush_out s)) = sb_buf (fst s)" "sb_opt (fst (flush_out s)) = sb_opt (fst s)"
  by (simp_all add: delivered_def flush_out_def)

lemma flush_out_eq:
  assumes "flush_out (t, out) = (t1, o1)"
  shows "state t1 = state t" "in_synch t1 = in_synch t" "opt_states t1 = opt_states t"
    "wire t1 = wire t" "seat_data t1 @ o1 @ z = seat_data t @ out @ z"
  using flush_out_simps [of "(t, out)"] unfolding assms by (simp_all add: delivered_def)

lemma flush_out_seat [simp]:
  "seat_data (fst (flush_out s)) @ snd (flush_out s) = seat_data (fst s) @ snd s"
  using flush_out_simps(1) [of s] by (simp add: delivered_def)

lemma telnet_read_loop_Cons:
  "telnet_read_loop (c # buf) s = telnet_read_loop buf (flush_out (telnet_read_byte c s))"
  by (simp add: flush_out_def split: prod.splits)

declare telnet_read_loop.simps(2) [simp del]
declare telnet_read_loop_Cons [simp]

lemma telnet_read_loop_append:
  "telnet_read_loop (xs @ ys) s = telnet_read_loop ys (telnet_read_loop xs s)"
  by (induction xs arbitrary: s) simp_all

text \<open>A reader at top level, outside a Synch, whose peer's binary mode is \<open>bin\<close>.\<close>

definition at_top :: "bool \<Rightarrow> telnet \<times> byte list \<Rightarrow> bool" where
  "at_top bin s \<longleftrightarrow> state (fst s) = TOP_LEVEL \<and> \<not> in_synch (fst s) \<and>
     (opt_state (fst s) o_they_bin = ACTIVE) = bin"

lemma read_escape:
  assumes "at_top bin s"
  shows "at_top bin (telnet_read_loop (escape bin c) s) \<and>
    delivered (telnet_read_loop (escape bin c) s) = delivered s @ [c] \<and>
    opt_states (fst (telnet_read_loop (escape bin c) s)) = opt_states (fst s) \<and>
    wire (fst (telnet_read_loop (escape bin c) s)) = wire (fst s)"
proof -
  obtain t out where s: "s = (t, out)" by fastforce
  from assms s have st: "state t = TOP_LEVEL" "\<not> in_synch t" "(opt_state t o_they_bin = ACTIVE) = bin"
    by (simp_all add: at_top_def)
  consider "c = IAC" | "c = CR" "\<not> bin" | "c \<noteq> IAC" "c \<noteq> CR \<or> bin" by auto
  then show ?thesis
  proof cases
    case 1
    obtain t1 o1 where f: "flush_out (t\<lparr>state := SEENIAC\<rparr>, out) = (t1, o1)" by fastforce
    from flush_out_eq [OF f] st
    show ?thesis by (simp add: escape_def 1 s f telnet_read_byte_def at_top_def delivered_def)
  next
    case 2
    obtain t1 o1 where f: "flush_out (t\<lparr>state := SEENCR\<rparr>, out @ [CR]) = (t1, o1)" by fastforce
    from flush_out_eq [OF f] st 2
    show ?thesis by (simp add: escape_def s f telnet_read_byte_def at_top_def delivered_def)
  next
    case 3
    with st show ?thesis
      by (auto simp add: escape_def s telnet_read_byte_def at_top_def)
        (simp_all add: delivered_def)
  qed
qed

lemma read_escapes:
  "at_top bin s \<Longrightarrow>
   at_top bin (telnet_read_loop (concat (List.map (escape bin) buf)) s) \<and>
   delivered (telnet_read_loop (concat (List.map (escape bin) buf)) s) = delivered s @ buf \<and>
   opt_states (fst (telnet_read_loop (concat (List.map (escape bin) buf)) s)) = opt_states (fst s) \<and>
   wire (fst (telnet_read_loop (concat (List.map (escape bin) buf)) s)) = wire (fst s)"
proof (induction buf arbitrary: s)
  case (Cons c buf)
  from read_escape [OF Cons.prems, of c] Cons.IH show ?case by (simp add: telnet_read_loop_append)
qed simp

lemma do_telnet_read_out:
  "seat_data (do_telnet_read buf t) = delivered (telnet_read_loop buf (t, [])) \<and>
   state (do_telnet_read buf t) = state (fst (telnet_read_loop buf (t, []))) \<and>
   in_synch (do_telnet_read buf t) = in_synch (fst (telnet_read_loop buf (t, []))) \<and>
   opt_states (do_telnet_read buf t) = opt_states (fst (telnet_read_loop buf (t, []))) \<and>
   wire (do_telnet_read buf t) = wire (fst (telnet_read_loop buf (t, []))) \<and>
   sb_buf (do_telnet_read buf t) = sb_buf (fst (telnet_read_loop buf (t, []))) \<and>
   sb_opt (do_telnet_read buf t) = sb_opt (fst (telnet_read_loop buf (t, [])))"
  by (auto simp: do_telnet_read_def delivered_def split: prod.splits)

text \<open>C11: session data is transparent. Whatever bytes \<open>telnet_send\<close> is given (IAC and CR included), a
  receiver at top level whose view of the binary option agrees with the sender's delivers exactly
  those bytes to its terminal, is at top level again, and has neither changed an option nor
  answered anything.\<close>

theorem telnet_send_receive:
  assumes "sock s" and "state r = TOP_LEVEL" and "\<not> in_synch r"
    and "(opt_state r o_they_bin = ACTIVE) = (opt_state s o_we_bin = ACTIVE)"
    and "wire (snd (telnet_send buf s)) = wire s @ msg"
  shows "seat_data (do_telnet_read msg r) = seat_data r @ buf \<and>
    state (do_telnet_read msg r) = TOP_LEVEL \<and>
    opt_states (do_telnet_read msg r) = opt_states r \<and> wire (do_telnet_read msg r) = wire r"
proof -
  have "msg = concat (List.map (escape (we_bin s)) buf)"
    using assms(1,5) telnet_send_loop_wire [of buf s] by (simp add: telnet_send_def Let_def)
  moreover have "at_top (we_bin s) (r, [])" using assms(2-4) by (simp add: at_top_def we_bin_def)
  ultimately show ?thesis
    using read_escapes [of "we_bin s" "(r, [])" buf] do_telnet_read_out [of msg r]
    by (simp add: at_top_def delivered_def)
qed

text \<open>The state of a session just opened, for the examples.\<close>

definition example_conf :: tconf where
  "example_conf = \<lparr>passive_telnet = False, rfc_environ = False, termspeed = [51, 56],
     termtype = [120, 116], environmt = [([65], [66])], remote_username = Some [109, 101],
     conf_width = 80, conf_height = 24\<rparr>"

definition example_telnet :: telnet where
  "example_telnet = \<lparr>sock = True, closed_on_socket_error = False, ldisc = False, term_width = 80,
     term_height = 24, opt_states = (\<lambda>_. INACTIVE), echoing = True, editing = True,
     activated = True, bufsize = 0, in_synch = False, sb_opt = 0, sb_buf = [],
     session_started = True, state = TOP_LEVEL, conf = example_conf, events = [],
     backlog_of = (\<lambda>_. 0)\<rparr>"

theorem telnet_send_receive_witness:
  "seat_data (do_telnet_read [104, 255, 255, 13, 0, 105] example_telnet) = [104, 255, 13, 105]"
proof -
  have w: "wire (snd (telnet_send [104, 255, 13, 105] example_telnet)) =
      wire example_telnet @ [104, 255, 255, 13, 0, 105]"
    using telnet_send_loop_wire [of "[104, 255, 13, 105]" example_telnet]
    by (simp add: telnet_send_def Let_def example_telnet_def escape_def we_bin_def)
  have "seat_data example_telnet = []" by (simp add: seat_data_def example_telnet_def)
  with telnet_send_receive [OF _ _ _ _ w, of example_telnet] show ?thesis
    by (simp add: example_telnet_def opt_defs)
qed

subsection \<open>Subnegotiation replies\<close>

lemma environ_bsize_loop_eq: "environ_bsize_loop es b = b + length (environ_entries var val es)"
  by (induction es b rule: environ_bsize_loop.induct) simp_all

text \<open>The replies fit the buffers allocated for them. The terminal speed, terminal type and
  environment replies, with their framing, never exceed the \<open>snewn\<close> sizes the code computes, and
  they are framed as \<open>IAC SB option IS ... IAC SE\<close>.\<close>

theorem subneg_replies_fit:
  "length (tspeed_message cf) < tspeed_alloc cf \<and> length (ttype_message cf) < ttype_alloc cf \<and>
   length (environ_message opt cf var val) \<le> environ_bsize cf \<and>
   take 4 (environ_message opt cf var val) = [IAC, SB, opt, TELQUAL_IS] \<and>
   drop (length (environ_message opt cf var val) - 2) (environ_message opt cf var val) = [IAC, SE]"
proof -
  have "length (environ_message opt cf var val) \<le> environ_bsize cf"
    by (cases "remote_username cf")
      (simp_all add: environ_message_def environ_bsize_def environ_bsize_loop_eq [of _ _ var val] Let_def)
  then show ?thesis
    by (simp add: tspeed_message_def tspeed_alloc_def ttype_message_def ttype_alloc_def
        environ_message_def split: option.split)
qed

lemma flush_out_empty [simp]: "flush_out (t, []) = (t, [])"
  by (simp add: flush_out_def)

lemma read_iac_double:
  assumes "state t = SUBNEGOT"
  shows "telnet_read_loop (iac_double c) (t, []) = (t\<lparr>sb_buf := sb_buf t @ [c]\<rparr>, [])"
  using assms by (simp add: iac_double_def telnet_read_byte_def subneg_addchar_def)

definition naws_word :: "byte \<Rightarrow> byte \<Rightarrow> int" where
  "naws_word hi lo = uint hi * 256 + uint lo"

lemma naws_word_split:
  assumes "0 \<le> w" "w < 65536"
  shows "naws_word (word_of_int (drop_bit 8 w)) (word_of_int (w AND 0xFF)) = w"
proof -
  have m: "w AND 0xFF = w mod 256" 
    using take_bit_eq_mask [of 8 w] by (simp add: mask_eq_exp_minus_1 take_bit_eq_mod)
  have "w div 256 < 256" "0 \<le> w div 256" using assms by (simp_all add: div_less_iff_less_mult)
  then show ?thesis
    by (simp add: naws_word_def m drop_bit_eq_div unsigned_of_int take_bit_eq_mod)
qed

text \<open>The window size message. With NAWS active a resize sends one message that fits the
  24-byte buffer whatever IAC bytes had to be doubled, and a receiver at top level collects exactly
  the four size bytes, which give back the width and the height.\<close>

theorem telnet_size_readable:
  assumes "sock t" and "opt_state t o_naws = ACTIVE" and "state r = TOP_LEVEL"
    and "0 \<le> width" "width < 65536" and "0 \<le> height" "height < 65536"
  shows "\<exists>msg a b c d. wire (telnet_size width height t) = wire t @ msg \<and> length msg \<le> 24 \<and>
    state (do_telnet_read msg r) = TOP_LEVEL \<and> seat_data (do_telnet_read msg r) = seat_data r \<and>
    sb_opt (do_telnet_read msg r) = TELOPT_NAWS \<and> sb_buf (do_telnet_read msg r) = [a, b, c, d] \<and>
    naws_word a b = width \<and> naws_word c d = height"
proof -
  let ?a = "word_of_int (drop_bit 8 width)" and ?b = "word_of_int (width AND 0xFF)"
    and ?c = "word_of_int (drop_bit 8 height)" and ?d = "word_of_int (height AND 0xFF)"
  let ?msg = "naws_message width height"
  let ?r = "r\<lparr>sb_opt := TELOPT_NAWS, sb_buf := [], state := SUBNEGOT\<rparr>"
  have w: "wire (telnet_size width height t) = wire t @ ?msg"
    using assms(1,2) by (simp add: telnet_size_def Let_def wire_def)
  have len: "length ?msg \<le> 24" by (simp add: naws_message_def iac_double_def)
  have "telnet_read_loop ?msg (r, []) =
      telnet_read_loop (iac_double ?a @ iac_double ?b @ iac_double ?c @ iac_double ?d @ [IAC, SE]) (?r, [])"
    using assms(3) by (simp add: naws_message_def telnet_read_byte_def)
  also have "\<dots> = (?r\<lparr>sb_buf := [?a, ?b, ?c, ?d], state := TOP_LEVEL\<rparr>, [])"
    by (simp add: telnet_read_loop_append read_iac_double)
      (simp add: telnet_read_byte_def process_subneg_def)
  finally have "telnet_read_loop ?msg (r, []) = (?r\<lparr>sb_buf := [?a, ?b, ?c, ?d], state := TOP_LEVEL\<rparr>, [])" .
  with do_telnet_read_out [of ?msg r] w len naws_word_split [OF assms(4,5)] naws_word_split [OF assms(6,7)]
  show ?thesis
    by (intro exI [of _ ?msg] exI [of _ ?a] exI [of _ ?b] exI [of _ ?c] exI [of _ ?d])
      (simp add: delivered_def)
qed

theorem telnet_size_readable_witness:
  \<comment> \<open>a window of 255 columns: the byte 255 is doubled\<close>
  "\<exists>msg a b c d. wire (telnet_size 255 50 (set_opt o_naws ACTIVE example_telnet)) =
      wire (set_opt o_naws ACTIVE example_telnet) @ msg \<and> length msg \<le> 24 \<and>
    state (do_telnet_read msg example_telnet) = TOP_LEVEL \<and>
    seat_data (do_telnet_read msg example_telnet) = seat_data example_telnet \<and>
    sb_opt (do_telnet_read msg example_telnet) = TELOPT_NAWS \<and>
    sb_buf (do_telnet_read msg example_telnet) = [a, b, c, d] \<and>
    naws_word a b = 255 \<and> naws_word c d = 50"
  by (rule telnet_size_readable) (simp_all add: example_telnet_def set_opt_def)

subsection \<open>Delivery does not depend on how the data is split\<close>

text \<open>Everything but the deliveries to the terminal and the backlog answers, which depend on
  their grouping into calls.\<close>

definition grouping :: "event \<Rightarrow> bool" where
  "grouping e = (case e of SeatStdout _ \<Rightarrow> True | SkSetFrozen _ \<Rightarrow> True | _ \<Rightarrow> False)"

definition erase :: "telnet \<Rightarrow> telnet" where
  "erase t = t\<lparr>events := filter (\<lambda>e. \<not> grouping e) (events t), bufsize := 0, backlog_of := (\<lambda>_. 0)\<rparr>"

lemma erase_simps [simp]:
  "state (erase t) = state t" "in_synch (erase t) = in_synch t" "opt_states (erase t) = opt_states t"
  "sb_opt (erase t) = sb_opt t" "sb_buf (erase t) = sb_buf t" "conf (erase t) = conf t"
  "sock (erase t) = sock t" "ldisc (erase t) = ldisc t" "activated (erase t) = activated t"
  "term_width (erase t) = term_width t" "term_height (erase t) = term_height t"
  by (simp_all add: erase_def)

lemma erase_updates:
  "erase (t\<lparr>state := a\<rparr>) = (erase t)\<lparr>state := a\<rparr>" "erase (t\<lparr>in_synch := b\<rparr>) = (erase t)\<lparr>in_synch := b\<rparr>"
  "erase (t\<lparr>sb_buf := l\<rparr>) = (erase t)\<lparr>sb_buf := l\<rparr>" "erase (t\<lparr>sb_opt := c\<rparr>) = (erase t)\<lparr>sb_opt := c\<rparr>"
  "erase (t\<lparr>echoing := b\<rparr>) = (erase t)\<lparr>echoing := b\<rparr>" "erase (t\<lparr>editing := b\<rparr>) = (erase t)\<lparr>editing := b\<rparr>"
  "erase (t\<lparr>activated := b\<rparr>) = (erase t)\<lparr>activated := b\<rparr>"
  "erase (t\<lparr>term_width := w\<rparr>) = (erase t)\<lparr>term_width := w\<rparr>"
  "erase (t\<lparr>term_height := w\<rparr>) = (erase t)\<lparr>term_height := w\<rparr>"
  "erase (set_opt x st t) = set_opt x st (erase t)"
  "\<not> grouping e \<Longrightarrow> erase (emit e t) = emit e (erase t)"
  "erase (sk_write m t) = sk_write m (erase t)"
  "erase (log_option who cmd opt t) = log_option who cmd opt (erase t)"
  by (simp_all add: erase_def set_opt_def emit_def sk_write_def log_option_def Let_def grouping_def)

lemma erase_c_write [simp]: "erase (c_write m t) = erase t"
  by (simp add: erase_def c_write_def emit_def Let_def grouping_def)

lemma erase_send_opt: "erase (send_opt cmd opt t) = send_opt cmd opt (erase t)"
  by (simp add: send_opt_def erase_updates)

lemma set_opt_fields [simp]:
  "opt_states (set_opt x st t) = (opt_states t)(index x := st)" "ldisc (set_opt x st t) = ldisc t"
  "activated (set_opt x st t) = activated t" "sock (set_opt x st t) = sock t"
  "echoing (set_opt x st t) = echoing t" "editing (set_opt x st t) = editing t"
  "events (set_opt x st t) = events t" "state (set_opt x st t) = state t"
  "term_width (set_opt x st t) = term_width t" "term_height (set_opt x st t) = term_height t"
  by (simp_all add: set_opt_def)

lemma send_opt_fields [simp]:
  "opt_states (send_opt c x t) = opt_states t" "ldisc (send_opt c x t) = ldisc t"
  "activated (send_opt c x t) = activated t" "sock (send_opt c x t) = sock t"
  "echoing (send_opt c x t) = echoing t" "editing (send_opt c x t) = editing t"
  "events (send_opt c x t) = events t @ [SkWrite [IAC, c, x], LogOption Client c x]"
  "state (send_opt c x t) = state t" "term_width (send_opt c x t) = term_width t"
  "term_height (send_opt c x t) = term_height t"
  by (simp_all add: send_opt_def log_option_def)

lemma erase_negotiation:
  "erase (deactivate_option x t) = deactivate_option x (erase t)"
  "erase (request_if_inactive x t) = request_if_inactive x (erase t)"
  "erase (telnet_size w h t) = telnet_size w h (erase t)"
  by (simp_all add: deactivate_option_def request_if_inactive_def telnet_size_def erase_updates
      erase_send_opt Let_def)

lemma erase_side_effects:
  "erase (option_side_effects x b t) = option_side_effects x b (erase t)"
  by (simp add: option_side_effects_def Let_def erase_updates erase_negotiation grouping_def)

lemma erase_if: "erase (if b then t else u) = (if b then erase t else erase u)"
  by simp

lemma erase_activate:
  "erase (activate_option x t) = activate_option x (erase t)"
  "erase (refused_option x t) = refused_option x (erase t)"
  unfolding activate_option_def refused_option_def Let_def
  by (simp_all only: erase_side_effects erase_negotiation erase_updates erase_send_opt erase_if erase_simps)

lemma erase_proc_loop: "erase (proc_rec_opt_loop xs cmd opt t) = proc_rec_opt_loop xs cmd opt (erase t)"
proof (induction xs)
  case Nil
  show ?case by (simp add: erase_send_opt)
next
  case (Cons x xs)
  show ?case
    by (cases "opt_state t x")
      (simp_all only: proc_rec_opt_loop.simps erase_if erase_simps erase_send_opt erase_activate
        erase_side_effects erase_updates optstate.case Cons.IH)
qed

lemma erase_subneg: "erase (process_subneg t) = process_subneg (erase t)"
  unfolding process_subneg_def
  by (cases "sb_buf t"; cases "environ_sense (sb_opt t) (conf t) (tl (sb_buf t))")
    (simp_all only: erase_if erase_simps erase_updates list.case prod.case list.sel)

lemma erase_ops:
  "erase (proc_rec_opt cmd opt t) = proc_rec_opt cmd opt (erase t)"
  "erase (process_subneg t) = process_subneg (erase t)"
  "erase (subneg_addchar c t) = subneg_addchar c (erase t)"
  by (simp_all only: proc_rec_opt_def erase_proc_loop erase_subneg subneg_addchar_def
      erase_updates erase_simps)

lemma erase_read_byte:
  "telnet_read_byte c (t, out) = (t', out') \<Longrightarrow>
   \<exists>add. out' = out @ add \<and> length add \<le> 1 \<and> telnet_read_byte c (erase t, []) = (erase t', add)"
  by (cases "state t") (auto simp: telnet_read_byte_def erase_ops erase_updates Let_def split: if_splits)

lemma seat_data_negotiation [simp]:
  "seat_data (set_opt x st t) = seat_data t" "seat_data (send_opt c z t) = seat_data t"
  "seat_data (log_option who c z t) = seat_data t"
  "seat_data (t\<lparr>echoing := b\<rparr>) = seat_data t" "seat_data (t\<lparr>editing := b\<rparr>) = seat_data t"
  "seat_data (t\<lparr>activated := b\<rparr>) = seat_data t"
  "seat_data (t\<lparr>term_width := w, term_height := h\<rparr>) = seat_data t"
  by (simp_all add: seat_data_def log_option_def)

lemma seat_data_steps:
  "seat_data (deactivate_option x t) = seat_data t" "seat_data (request_if_inactive x t) = seat_data t"
  "seat_data (telnet_size w h t) = seat_data t"
  by (simp_all add: deactivate_option_def request_if_inactive_def telnet_size_def Let_def)

lemma seat_data_side_effects: "seat_data (option_side_effects x b t) = seat_data t"
  by (simp add: option_side_effects_def seat_data_steps Let_def)

lemma seat_data_proc: "seat_data (proc_rec_opt_loop xs cmd opt t) = seat_data t"
  by (induction xs)
    (simp_all add: activate_option_def refused_option_def seat_data_side_effects seat_data_steps
      Let_def split: optstate.split)

lemma seat_data_read_byte: "seat_data (fst (telnet_read_byte c s)) = seat_data (fst s)"
proof -
  have p: "seat_data (process_subneg t) = seat_data t" for t
    by (simp add: process_subneg_def split: list.split prod.split)
  show ?thesis
    by (cases s; cases "state (fst s)")
      (simp_all add: telnet_read_byte_def proc_rec_opt_def seat_data_proc p subneg_addchar_def Let_def)
qed

fun pure_read :: "byte list \<Rightarrow> telnet \<Rightarrow> telnet \<times> byte list" where
  "pure_read [] e = (e, [])"
| "pure_read (c # buf) e =
     (case telnet_read_byte c (e, []) of
        (e1, add) \<Rightarrow> case pure_read buf e1 of (e2, adds) \<Rightarrow> (e2, add @ adds))"

lemma read_loop_pure:
  "telnet_read_loop buf (t, out) = (t', out') \<Longrightarrow>
   \<exists>add. pure_read buf (erase t) = (erase t', add) \<and> delivered (t', out') = delivered (t, out) @ add"
proof (induction buf arbitrary: t out)
  case (Cons c buf)
  obtain t1 out1 where r: "telnet_read_byte c (t, out) = (t1, out1)" by fastforce
  from erase_read_byte [OF r] obtain add1 where a: "out1 = out @ add1"
    "telnet_read_byte c (erase t, []) = (erase t1, add1)" by blast
  obtain t2 out2 where f: "flush_out (t1, out1) = (t2, out2)" by fastforce
  have e: "erase t2 = erase t1" using f by (auto simp: flush_out_def split: if_splits)
  from Cons.prems r f have "telnet_read_loop buf (t2, out2) = (t', out')" by simp
  from Cons.IH [OF this] e a obtain add2 where "pure_read (c # buf) (erase t) = (erase t', add1 @ add2)"
    "delivered (t', out') = delivered (t2, out2) @ add2" by auto
  moreover have "delivered (t2, out2) = delivered (t, out) @ add1"
    using flush_out_simps(1) [of "(t1, out1)"] seat_data_read_byte [of c "(t, out)"]
    unfolding f r by (simp add: delivered_def a(1))
  ultimately show ?case by auto
qed simp

lemma do_telnet_read_pure:
  "\<exists>add. pure_read buf (erase t) = (erase (do_telnet_read buf t), add) \<and>
     seat_data (do_telnet_read buf t) = seat_data t @ add"
proof -
  obtain t' out' where r: "telnet_read_loop buf (t, []) = (t', out')" by fastforce
  have "erase (do_telnet_read buf t) = erase t'" by (simp add: do_telnet_read_def r)
  with read_loop_pure [OF r] do_telnet_read_out [of buf t] r show ?thesis
    by (auto simp: delivered_def)
qed

lemma pure_read_append:
  "pure_read (xs @ ys) e =
     (case pure_read xs e of (e1, a1) \<Rightarrow> case pure_read ys e1 of (e2, a2) \<Rightarrow> (e2, a1 @ a2))"
  by (induction xs arbitrary: e) (auto split: prod.splits)

text \<open>C14: the result does not depend on how the network splits the stream. Receiving two pieces in two
  calls or in one delivers the same bytes to the terminal, sends the same bytes and messages in
  the same order, and leaves the same state (up to the backlog counters, which depend on the
  grouping): every multi-byte sequence survives being cut anywhere.\<close>

theorem telnet_read_chunks:
  "erase (do_telnet_read (xs @ ys) t) = erase (do_telnet_read ys (do_telnet_read xs t)) \<and>
   seat_data (do_telnet_read (xs @ ys) t) = seat_data (do_telnet_read ys (do_telnet_read xs t))"
proof -
  obtain a1 where 1: "pure_read xs (erase t) = (erase (do_telnet_read xs t), a1)"
    "seat_data (do_telnet_read xs t) = seat_data t @ a1" using do_telnet_read_pure by blast
  obtain a2 where 2: "pure_read ys (erase (do_telnet_read xs t)) =
      (erase (do_telnet_read ys (do_telnet_read xs t)), a2)"
    "seat_data (do_telnet_read ys (do_telnet_read xs t)) = seat_data (do_telnet_read xs t) @ a2"
    using do_telnet_read_pure by blast
  obtain a3 where 3: "pure_read (xs @ ys) (erase t) = (erase (do_telnet_read (xs @ ys) t), a3)"
    "seat_data (do_telnet_read (xs @ ys) t) = seat_data t @ a3" using do_telnet_read_pure by blast
  from 3(1) 1(1) 2(1) show ?thesis
    by (simp add: pure_read_append 1(2) 2(2) 3(2))
qed

subsection \<open>The negotiation invariant\<close>

text \<open>The last command about an option that one side has sent, as the log records it: for the
  client one of \<open>send\<close>, \<open>nsend\<close>, for the server one of \<open>ack\<close>, \<open>nak\<close>.\<close>

definition about :: "sender \<Rightarrow> Opt \<Rightarrow> byte \<Rightarrow> byte \<Rightarrow> bool" where
  "about who x cmd opt \<longleftrightarrow> opt = option_code x \<and>
     cmd \<in> (case who of Client \<Rightarrow> {send x, nsend x} | Server \<Rightarrow> {ack x, nak x})"

definition note_cmd :: "sender \<Rightarrow> Opt \<Rightarrow> byte option \<Rightarrow> event \<Rightarrow> byte option" where
  "note_cmd who x acc e =
     (case e of LogOption who' cmd opt \<Rightarrow> if who' = who \<and> about who x cmd opt then Some cmd else acc
      | _ \<Rightarrow> acc)"

definition last_cmd :: "sender \<Rightarrow> Opt \<Rightarrow> telnet \<Rightarrow> byte option" where
  "last_cmd who x t = foldl (note_cmd who x) None (events t)"

definition option_ok :: "telnet \<Rightarrow> Opt \<Rightarrow> bool" where
  "option_ok t x \<longleftrightarrow>
     (opt_state t x = ACTIVE \<longrightarrow> last_cmd Client x t = Some (send x) \<and> last_cmd Server x t = Some (ack x)) \<and>
     (opt_state t x = REQUESTED \<longrightarrow> last_cmd Client x t = Some (send x))"

text \<open>The client commits itself only to options of its table.\<close>

definition known_request :: "event \<Rightarrow> bool" where
  "known_request e = (case e of
     LogOption Client cmd opt \<Rightarrow>
       cmd \<in> {WILL, DO} \<longrightarrow> (\<exists>x\<in>set opts. cmd = send x \<and> opt = option_code x)
   | _ \<Rightarrow> True)"

definition negotiation_ok :: "telnet \<Rightarrow> bool" where
  "negotiation_ok t \<longleftrightarrow>
     (\<forall>x\<in>set opts. option_ok t x) \<and>
     (opt_state t o_oenv = ACTIVE \<longrightarrow> opt_state t o_nenv = REALLY_INACTIVE) \<and>
     (opt_state t o_nenv = ACTIVE \<longrightarrow> opt_state t o_oenv = REALLY_INACTIVE) \<and>
     (echoing t \<longleftrightarrow> opt_state t o_echo \<noteq> ACTIVE) \<and>
     (editing t \<longleftrightarrow> opt_state t o_they_sga \<noteq> ACTIVE) \<and>
     (\<forall>e\<in>set (events t). known_request e)"

lemma opts_distinct:
  assumes "x \<in> set opts" "y \<in> set opts"
  shows "index x = index y \<longleftrightarrow> x = y" and "about Client y (send x) (option_code x) \<longleftrightarrow> x = y"
    and "about Client y (nsend x) (option_code x) \<longleftrightarrow> x = y"
    and "about Server y (ack x) (option_code x) \<longleftrightarrow> x = y"
    and "about Server y (nak x) (option_code x) \<longleftrightarrow> x = y"
  using assms by (simp_all add: opts_def opt_defs about_def) (elim disjE; simp)+

lemma opts_shape:
  assumes "x \<in> set opts"
  shows "send x \<noteq> nsend x" "ack x \<noteq> nak x" "nsend x \<notin> {WILL, DO}"
  using assms by (auto simp: opts_def opt_defs)

lemma opts_members [simp]:
  "o_naws \<in> set opts" "o_tspeed \<in> set opts" "o_ttype \<in> set opts" "o_oenv \<in> set opts"
  "o_nenv \<in> set opts" "o_echo \<in> set opts" "o_we_sga \<in> set opts" "o_they_sga \<in> set opts"
  "o_we_bin \<in> set opts" "o_they_bin \<in> set opts"
  by (simp_all add: opts_def)

lemma last_cmd_same: "events t' = events t \<Longrightarrow> last_cmd who x t' = last_cmd who x t"
  by (simp add: last_cmd_def)

lemma last_cmd_emit:
  "last_cmd who x (emit e t) = note_cmd who x (last_cmd who x t) e"
  by (simp add: last_cmd_def)

lemma last_cmd_simps [simp]:
  "last_cmd who x (set_opt y st t) = last_cmd who x t"
  "last_cmd who x (sk_write b t) = last_cmd who x t"
  "last_cmd who x (emit LdiscUpdate t) = last_cmd who x t"
  "last_cmd who x (send_opt c z t) = (if who = Client \<and> about who x c z then Some c else last_cmd who x t)"
  "last_cmd who x (log_option who' c z t) = (if who = who' \<and> about who x c z then Some c else last_cmd who x t)"
  by (auto simp: last_cmd_def note_cmd_def log_option_def)

lemma option_ok_other [simp]:
  assumes "x \<in> set opts" "y \<in> set opts" "x \<noteq> y"
  shows "option_ok (set_opt x st t) y = option_ok t y"
    "option_ok (send_opt (send x) (option_code x) t) y = option_ok t y"
    "option_ok (send_opt (nsend x) (option_code x) t) y = option_ok t y"
    "option_ok (log_option Server (ack x) (option_code x) t) y = option_ok t y"
    "option_ok (log_option Server (nak x) (option_code x) t) y = option_ok t y"
  using assms opts_distinct [OF assms(1,2)] by (simp_all add: option_ok_def log_option_def [of Server] 
      last_cmd_simps(5) [unfolded log_option_def])

lemma option_ok_fields:
  "events t' = events t \<Longrightarrow> opt_states t' = opt_states t \<Longrightarrow> option_ok t' x = option_ok t x"
  by (simp add: option_ok_def last_cmd_def)

lemma option_ok_quiet [simp]:
  "option_ok (sk_write b t) x = option_ok t x" "option_ok (emit LdiscUpdate t) x = option_ok t x"
  by (simp_all add: option_ok_def)

text \<open>The parts of the invariant that mention the log or the options, and the local echo and
  editing flags for the options other than \<open>x\<close>.\<close>

definition options_ok :: "telnet \<Rightarrow> bool" where
  "options_ok t \<longleftrightarrow> (\<forall>x\<in>set opts. option_ok t x) \<and> (\<forall>e\<in>set (events t). known_request e)"

definition environ_ok :: "telnet \<Rightarrow> bool" where
  "environ_ok t \<longleftrightarrow> (opt_state t o_oenv = ACTIVE \<longrightarrow> opt_state t o_nenv = REALLY_INACTIVE) \<and>
     (opt_state t o_nenv = ACTIVE \<longrightarrow> opt_state t o_oenv = REALLY_INACTIVE)"

definition flags_ok :: "Opt option \<Rightarrow> telnet \<Rightarrow> bool" where
  "flags_ok ex t \<longleftrightarrow> (ex \<noteq> Some o_echo \<longrightarrow> (echoing t \<longleftrightarrow> opt_state t o_echo \<noteq> ACTIVE)) \<and>
     (ex \<noteq> Some o_they_sga \<longrightarrow> (editing t \<longleftrightarrow> opt_state t o_they_sga \<noteq> ACTIVE))"

lemma negotiation_ok_split: "negotiation_ok t \<longleftrightarrow> options_ok t \<and> environ_ok t \<and> flags_ok None t"
  by (auto simp: negotiation_ok_def options_ok_def environ_ok_def flags_ok_def)

lemma known_simps [simp]:
  "known_request (SkWrite b)" "known_request LdiscUpdate" "known_request (LogOption Server c z)"
  "x \<in> set opts \<Longrightarrow> known_request (LogOption Client (send x) (option_code x))"
  "x \<in> set opts \<Longrightarrow> known_request (LogOption Client (nsend x) z)"
  "c \<notin> {WILL, DO} \<Longrightarrow> known_request (LogOption Client c z)"
  using opts_shape(3) [of x] by (auto simp: known_request_def)

lemma options_ok_ball: "options_ok t \<Longrightarrow> x \<in> set opts \<Longrightarrow> option_ok t x"
  by (simp add: options_ok_def)

lemma options_okI:
  assumes "\<And>y. y \<in> set opts \<Longrightarrow> y \<noteq> x \<Longrightarrow> option_ok t' y" and "option_ok t' x"
    and "\<forall>e\<in>set (events t'). known_request e"
  shows "options_ok t'"
  using assms unfolding options_ok_def by metis

lemma deactivate_options_ok:
  assumes "options_ok t" "x \<in> set opts"
  shows "options_ok (deactivate_option x t)"
proof (rule options_okI [of x])
  show "option_ok (deactivate_option x t) x" by (simp add: deactivate_option_def option_ok_def)
  show "option_ok (deactivate_option x t) y" if "y \<in> set opts" "y \<noteq> x" for y
    using that assms options_ok_ball [OF assms(1) that(1)] by (simp add: deactivate_option_def)
  show "\<forall>e\<in>set (events (deactivate_option x t)). known_request e"
    using assms by (auto simp: deactivate_option_def options_ok_def)
qed

lemma request_options_ok:
  assumes "options_ok t" "x \<in> set opts"
  shows "options_ok (request_if_inactive x t)"
proof (cases "opt_state t x = INACTIVE")
  case True
  let ?t = "request_if_inactive x t"
  have t: "?t = send_opt (send x) (option_code x) (set_opt x REQUESTED t)"
    using True by (simp add: request_if_inactive_def)
  show ?thesis unfolding t
  proof (rule options_okI [of x])
    show "option_ok (send_opt (send x) (option_code x) (set_opt x REQUESTED t)) x"
      using opts_distinct(2) [OF assms(2,2)] by (simp add: option_ok_def)
    show "option_ok (send_opt (send x) (option_code x) (set_opt x REQUESTED t)) y"
      if "y \<in> set opts" "y \<noteq> x" for y
      using that assms options_ok_ball [OF assms(1) that(1)] by simp
    show "\<forall>e\<in>set (events (send_opt (send x) (option_code x) (set_opt x REQUESTED t))). known_request e"
      using assms by (auto simp: options_ok_def)
  qed
qed (use assms in \<open>simp add: request_if_inactive_def\<close>)

lemma request_frame:
  "opt_states (request_if_inactive x t) =
     (opt_states t)(index x := if opt_state t x = INACTIVE then REQUESTED else opt_state t x)"
  "echoing (request_if_inactive x t) = echoing t" "editing (request_if_inactive x t) = editing t"
  by (simp_all add: request_if_inactive_def)

lemma options_ok_quiet [simp]:
  "options_ok (emit LdiscUpdate t) = options_ok t" "options_ok (sk_write b t) = options_ok t"
  "options_ok (t\<lparr>echoing := b'\<rparr>) = options_ok t" "options_ok (t\<lparr>editing := b'\<rparr>) = options_ok t"
  "options_ok (t\<lparr>activated := b'\<rparr>) = options_ok t"
  "options_ok (t\<lparr>term_width := w, term_height := h\<rparr>) = options_ok t"
  by (simp_all add: options_ok_def option_ok_def last_cmd_def note_cmd_def)

lemma side_effects_ok:
  assumes "options_ok t" "environ_ok t" "flags_ok (Some x) t" "x \<in> set opts" "(opt_state t x = ACTIVE) = b"
  shows "negotiation_ok (option_side_effects x b t)"
proof -
  define t1 where "t1 = (if option_code x = TELOPT_ECHO \<and> send x = DO then t\<lparr>echoing := \<not> b\<rparr>
                else if option_code x = TELOPT_SGA \<and> send x = DO then t\<lparr>editing := \<not> b\<rparr> else t)"
  define t2 where "t2 = (if ldisc t1 then emit LdiscUpdate t1 else t1)"
  have o1: "options_ok t1" "environ_ok t1" using assms(1,2) by (simp_all add: t1_def environ_ok_def)
  have "x = o_echo \<longleftrightarrow> option_code x = TELOPT_ECHO \<and> send x = DO"
    "x = o_they_sga \<longleftrightarrow> option_code x = TELOPT_SGA \<and> send x = DO"
    using assms(4) by (auto simp: opts_def opt_defs)
  with assms(3,5) have f1: "flags_ok None t1" by (auto simp: t1_def flags_ok_def)
  have o2: "options_ok t2" "environ_ok t2" "flags_ok None t2"
    using o1 f1 by (simp_all add: t2_def environ_ok_def flags_ok_def)
  let ?t3 = "request_if_inactive o_they_sga (request_if_inactive o_we_sga (request_if_inactive o_echo t2))"
  have "options_ok ?t3" by (intro request_options_ok o2) simp_all
  moreover have "environ_ok ?t3" "flags_ok None ?t3"
    using o2(2,3) by (simp_all add: environ_ok_def flags_ok_def request_frame opt_defs)
  moreover have "option_side_effects x b t = (if \<not> activated t2 then ?t3\<lparr>activated := True\<rparr> else t2)"
    by (simp add: option_side_effects_def t2_def t1_def Let_def)
  ultimately show ?thesis using o2
    by (simp add: negotiation_ok_split environ_ok_def flags_ok_def)
qed

lemma activate_ok:
  assumes "options_ok t" "x \<in> set opts" "opt_state t x = ACTIVE" "flags_ok (Some x) t"
    and "x = o_oenv \<or> x = o_nenv \<or> environ_ok t"
  shows "negotiation_ok (activate_option x t)"
proof -
  define t1 where "t1 = (if send x = WILL \<and> option_code x = TELOPT_NAWS
                then telnet_size (term_width t) (term_height t) t else t)"
  define t2 where "t2 = (if send x = WILL \<and>
                   (option_code x = TELOPT_NEW_ENVIRON \<or> option_code x = TELOPT_OLD_ENVIRON)
                then deactivate_option
                  (if option_code x = TELOPT_NEW_ENVIRON then o_oenv else o_nenv) t1
                else t1)"
  have t1: "options_ok t1" "opt_states t1 = opt_states t" "echoing t1 = echoing t" "editing t1 = editing t"
    using assms(1) by (simp_all add: t1_def telnet_size_def Let_def)
  have env: "send x = WILL \<and> (option_code x = TELOPT_NEW_ENVIRON \<or> option_code x = TELOPT_OLD_ENVIRON)
      \<longleftrightarrow> x = o_oenv \<or> x = o_nenv" "x = o_oenv \<Longrightarrow> option_code x \<noteq> TELOPT_NEW_ENVIRON"
      "x = o_nenv \<Longrightarrow> option_code x = TELOPT_NEW_ENVIRON"
    using assms(2) by (auto simp: opts_def opt_defs)
  have d: "opt_states (deactivate_option y t1) = (opt_states t1)(index y := REALLY_INACTIVE)"
    "echoing (deactivate_option y t1) = echoing t1" "editing (deactivate_option y t1) = editing t1" for y
    by (simp_all add: deactivate_option_def)
  have "options_ok t2" using t1(1) by (simp add: t2_def deactivate_options_ok)
  moreover have "environ_ok t2"
    using assms(3,5) env t1(2) by (auto simp: t2_def environ_ok_def d opt_defs)
  moreover have "flags_ok (Some x) t2"
    using assms(4) t1 by (auto simp: t2_def flags_ok_def d opt_defs)
  moreover have "opt_state t2 x = ACTIVE"
    using assms(3) env t1(2) by (auto simp: t2_def d opt_defs)
  ultimately have "negotiation_ok (option_side_effects x True t2)"
    using assms(2) by (intro side_effects_ok) simp_all
  then show ?thesis
    by (simp only: activate_option_def Let_def t1_def [symmetric] t2_def [symmetric])
qed

lemma refused_ok:
  assumes "options_ok t" "x \<in> set opts" "opt_state t x = INACTIVE" "flags_ok (Some x) t" "environ_ok t"
  shows "negotiation_ok (refused_option x t)"
proof -
  define t1 where "t1 = (if send x = WILL \<and> option_code x = TELOPT_NEW_ENVIRON \<and>
                   opt_state t o_oenv = INACTIVE
                then set_opt o_oenv REQUESTED (send_opt WILL TELOPT_OLD_ENVIRON t) else t)"
  have oenv: "send o_oenv = WILL" "option_code o_oenv = TELOPT_OLD_ENVIRON" by (simp_all add: opt_defs)
  let ?t = "set_opt o_oenv REQUESTED (send_opt WILL TELOPT_OLD_ENVIRON t)"
  have "options_ok ?t"
  proof (rule options_okI [of o_oenv])
    show "option_ok ?t o_oenv"
      using opts_distinct(2) [of o_oenv o_oenv] oenv by (simp add: option_ok_def)
    show "option_ok ?t y" if "y \<in> set opts" "y \<noteq> o_oenv" for y
      using that options_ok_ball [OF assms(1) that(1)] option_ok_other(1,2) [of o_oenv y] oenv by simp
    show "\<forall>e\<in>set (events ?t). known_request e"
      using assms(1) known_simps(4) [of o_oenv] oenv by (auto simp: options_ok_def)
  qed
  then have "options_ok t1" using assms(1) by (simp add: t1_def)
  moreover have "environ_ok t1" using assms(5) by (auto simp: t1_def environ_ok_def opt_defs)
  moreover have "flags_ok (Some x) t1" using assms(4) by (auto simp: t1_def flags_ok_def opt_defs)
  moreover have "opt_state t1 x \<noteq> ACTIVE" using assms(3) by (simp add: t1_def)
  ultimately have "negotiation_ok (option_side_effects x False t1)"
    using assms(2) by (intro side_effects_ok) simp_all
  then show ?thesis by (simp only: refused_option_def Let_def t1_def [symmetric])
qed

lemma opts_ack:
  assumes "x \<in> set opts"
  shows "nsend x = DONT \<longleftrightarrow> ack x = WILL" "nsend x = WONT \<longleftrightarrow> ack x = DO" "send x = DO \<longleftrightarrow> ack x = WILL"
    "send x \<noteq> DONT" "send x \<noteq> WONT" "nsend x \<noteq> send y \<or> y \<notin> set opts"
  using assms by (auto simp: opts_def opt_defs)

lemma proc_loop_ok:
  assumes "negotiation_ok t0" "set xs \<subseteq> set opts"
    and "\<forall>y\<in>set opts. y \<notin> set xs \<longrightarrow> \<not> (option_code y = opt \<and> (ack y = cmd \<or> nak y = cmd))"
  shows "negotiation_ok (proc_rec_opt_loop xs cmd opt (log_option Server cmd opt t0))"
  using assms(2,3)
proof (induction xs)
  case Nil
  have none: "\<not> about Server y cmd opt" if "y \<in> set opts" for y
    using Nil(2) that by (auto simp: about_def)
  define t where "t = log_option Server cmd opt t0"
  have t: "option_ok t y" if "y \<in> set opts" for y
    using assms(1) that none [OF that]
    by (simp add: t_def negotiation_ok_def option_ok_def log_option_def last_cmd_simps(5) [unfolded log_option_def])
  have nt: "negotiation_ok t"
    using assms(1) t by (auto simp: negotiation_ok_def t_def log_option_def)
  show ?case
  proof (cases "cmd = WILL \<or> cmd = DO")
    case True
    define c where "c = (if cmd = WILL then DONT else WONT)"
    have c: "\<not> about Client y c opt" if "y \<in> set opts" for y
      using none [OF that] True opts_ack(1,2,4,5) [OF that] by (auto simp: about_def c_def split: if_splits)
    have "c \<notin> {WILL, DO}" by (simp add: c_def)
    then have "negotiation_ok (send_opt c opt t)"
      using nt c by (auto simp: negotiation_ok_def option_ok_def)
    with True show ?thesis by (simp add: t_def c_def)
  qed (use nt in \<open>simp add: t_def\<close>)
next
  case (Cons x xs)
  define t where "t = log_option Server cmd opt t0"
  have x: "x \<in> set opts" using Cons.prems(1) by simp
  have os: "opt_states t = opt_states t0" "echoing t = echoing t0" "editing t = editing t0"
    by (simp_all add: t_def log_option_def)
  have fl: "environ_ok t" "flags_ok None t" and kn: "\<forall>e\<in>set (events t). known_request e"
    using assms(1) os by (auto simp: negotiation_ok_split environ_ok_def flags_ok_def options_ok_def t_def log_option_def)
  have others: "option_ok t y" if "option_code x = opt" "ack x = cmd \<or> nak x = cmd" "y \<in> set opts" "y \<noteq> x" for y
    using assms(1) that option_ok_other(4,5) [OF x that(3)] by (auto simp: t_def negotiation_ok_def)
  have lc: "opt_state t x = ACTIVE \<or> opt_state t x = REQUESTED \<Longrightarrow> last_cmd Client x t = Some (send x)"
    using assms(1) x by (auto simp: t_def negotiation_ok_def option_ok_def log_option_def
        last_cmd_simps(5) [unfolded log_option_def])
  have ls: "last_cmd Server x t = Some cmd" if "option_code x = opt" "ack x = cmd \<or> nak x = cmd"
    using that by (auto simp: t_def about_def)
  have fset: "flags_ok (Some x) (set_opt x st t)" for st
    using fl(2) opts_distinct(1) [OF x, of o_echo] opts_distinct(1) [OF x, of o_they_sga]
    by (auto simp: flags_ok_def)
  have eset: "environ_ok (set_opt x st t)" if "st \<noteq> ACTIVE \<and> opt_state t x \<noteq> REALLY_INACTIVE \<or> (x \<noteq> o_oenv \<and> x \<noteq> o_nenv)" for st
    using fl(1) that opts_distinct(1) [of o_oenv x, OF _ x] opts_distinct(1) [of o_nenv x, OF _ x]
    by (auto simp: environ_ok_def)
  have send_quiet: "flags_ok ex (send_opt c z u) = flags_ok ex u" "environ_ok (send_opt c z u) = environ_ok u" for ex c z u
    by (simp_all add: flags_ok_def environ_ok_def)
  have kset: "\<forall>e\<in>set (events (set_opt x st t)). known_request e" for st using kn by simp
  consider (ack) "option_code x = opt" "ack x = cmd"
    | (nak) "option_code x = opt" "ack x \<noteq> cmd" "nak x = cmd"
    | (other) "\<not> (option_code x = opt \<and> (ack x = cmd \<or> nak x = cmd))" by blast
  then show ?case
  proof cases
    case ack
    note oth = others [OF ack(1) disjI1 [OF ack(2)]]
    have l: "last_cmd Server x t = Some (ack x)" using ls ack by simp
    have step: "proc_rec_opt_loop (x # xs) cmd opt t = (case opt_state t x of
           REQUESTED \<Rightarrow> activate_option x (set_opt x ACTIVE t)
         | ACTIVE \<Rightarrow> t
         | INACTIVE \<Rightarrow> activate_option x (send_opt (send x) opt (set_opt x ACTIVE t))
         | REALLY_INACTIVE \<Rightarrow> send_opt (nsend x) opt t)" using ack by simp
    have "negotiation_ok \<dots>"
    proof (cases "opt_state t x")
      case REQUESTED
      have "options_ok (set_opt x ACTIVE t)"
        using oth x kset REQUESTED lc l by (intro options_okI [of x]) (auto simp: option_ok_def [of _ x])
      with REQUESTED x fset eset show ?thesis by (simp, intro activate_ok) auto
    next
      case ACTIVE
      have "options_ok t"
        using oth kn ACTIVE lc l by (intro options_okI [of x]) (auto simp: option_ok_def [of _ x])
      with ACTIVE fl show ?thesis by (simp add: negotiation_ok_split)
    next
      case INACTIVE
      have "options_ok (send_opt (send x) opt (set_opt x ACTIVE t))"
        using oth x kset INACTIVE l opts_distinct(2) [OF x x] ack(1)
        by (intro options_okI [of x]) (auto simp: option_ok_def [of _ x])
      with INACTIVE x fset eset show ?thesis by (simp, intro activate_ok) (auto simp: send_quiet)
    next
      case REALLY_INACTIVE
      have "options_ok (send_opt (nsend x) opt t)"
        using oth x kn REALLY_INACTIVE ack(1)
        by (intro options_okI [of x]) (auto simp: option_ok_def [of _ x])
      with REALLY_INACTIVE fl show ?thesis by (simp add: negotiation_ok_split send_quiet)
    qed
    with step show ?thesis by (simp only: t_def [symmetric])
  next
    case nak
    note oth = others [OF nak(1) disjI2 [OF nak(3)]]
    have step: "proc_rec_opt_loop (x # xs) cmd opt t = (case opt_state t x of
           REQUESTED \<Rightarrow> refused_option x (set_opt x INACTIVE t)
         | ACTIVE \<Rightarrow> option_side_effects x False (send_opt (nsend x) opt (set_opt x INACTIVE t))
         | INACTIVE \<Rightarrow> t
         | REALLY_INACTIVE \<Rightarrow> t)" using nak by simp
    have "negotiation_ok \<dots>"
    proof (cases "opt_state t x")
      case REQUESTED
      have "options_ok (set_opt x INACTIVE t)"
        using oth x kset by (intro options_okI [of x]) (auto simp: option_ok_def [of _ x])
      with REQUESTED x fset eset [of INACTIVE] show ?thesis by (simp, intro refused_ok) auto
    next
      case ACTIVE
      have "options_ok (send_opt (nsend x) opt (set_opt x INACTIVE t))"
        using oth x kset nak(1) by (intro options_okI [of x]) (auto simp: option_ok_def [of _ x])
      with ACTIVE x fset eset [of INACTIVE] show ?thesis
        by (simp, intro side_effects_ok) (auto simp: send_quiet)
    next
      case INACTIVE
      have "options_ok t"
        using oth kn INACTIVE by (intro options_okI [of x]) (auto simp: option_ok_def [of _ x])
      with INACTIVE fl show ?thesis by (simp add: negotiation_ok_split)
    next
      case REALLY_INACTIVE
      have "options_ok t"
        using oth kn REALLY_INACTIVE by (intro options_okI [of x]) (auto simp: option_ok_def [of _ x])
      with REALLY_INACTIVE fl show ?thesis by (simp add: negotiation_ok_split)
    qed
    with step show ?thesis by (simp only: t_def [symmetric])
  next
    case other
    have "negotiation_ok (proc_rec_opt_loop xs cmd opt (log_option Server cmd opt t0))"
      using Cons.prems other by (intro Cons.IH) auto
    with other show ?thesis by auto
  qed
qed

lemma proc_rec_opt_ok: "negotiation_ok t \<Longrightarrow> negotiation_ok (proc_rec_opt cmd opt t)"
  unfolding proc_rec_opt_def by (rule proc_loop_ok) auto

text \<open>Steps that say nothing about options keep the invariant.\<close>

definition no_option :: "event \<Rightarrow> bool" where
  "no_option e = (case e of LogOption _ _ _ \<Rightarrow> False | _ \<Rightarrow> True)"

lemma no_option_simps [simp]:
  "no_option (SkWrite b)" "no_option (SkWriteOob b)" "no_option (SkSetFrozen f)" "no_option SkClose"
  "no_option (SeatStdout b)" "no_option SeatRemoteExit" "no_option (SeatFatal m)"
  "no_option LdiscUpdate" "no_option (LogMsg m)" "\<not> no_option (LogOption w c z)"
  by (simp_all add: no_option_def)

lemma foldl_note_quiet: "\<forall>e\<in>set es. no_option e \<Longrightarrow> foldl (note_cmd who x) acc es = acc"
  by (induction es arbitrary: acc) (auto simp: note_cmd_def no_option_def split: event.splits)

lemma negotiation_quiet:
  assumes "negotiation_ok t" and "opt_states t' = opt_states t" "echoing t' = echoing t"
    "editing t' = editing t" and "events t' = events t @ es" "\<forall>e\<in>set es. no_option e"
  shows "negotiation_ok t'"
proof -
  have "last_cmd who x t' = last_cmd who x t" for who x
    using assms(5,6) by (simp add: last_cmd_def foldl_note_quiet)
  moreover have "\<forall>e\<in>set es. known_request e"
    using assms(6) by (auto simp: no_option_def known_request_def split: event.splits)
  ultimately show ?thesis using assms(1-5) by (auto simp: negotiation_ok_def option_ok_def)
qed

lemma negotiation_fields:
  "negotiation_ok t \<Longrightarrow> opt_states t' = opt_states t \<Longrightarrow> echoing t' = echoing t \<Longrightarrow>
   editing t' = editing t \<Longrightarrow> events t' = events t \<Longrightarrow> negotiation_ok t'"
  by (rule negotiation_quiet [of t t' "[]"]) simp_all

lemma negotiation_sk_write: "negotiation_ok t \<Longrightarrow> negotiation_ok (sk_write b t)"
  by (rule negotiation_quiet [of t _ "[SkWrite b]"]) (simp_all add: no_option_def)

lemma c_write_fields [simp]:
  "echoing (c_write b t) = echoing t" "editing (c_write b t) = editing t"
  by (simp_all add: c_write_def Let_def)

lemma negotiation_c_write: "negotiation_ok t \<Longrightarrow> negotiation_ok (c_write b t)"
  by (rule negotiation_quiet [of t _ "[SeatStdout b,
      SkSetFrozen (TELNET_MAX_BACKLOG < backlog_of t (events t @ [SeatStdout b]))]"])
    (simp_all add: c_write_def Let_def)

lemma negotiation_read_byte:
  assumes "negotiation_ok t"
  shows "negotiation_ok (fst (telnet_read_byte c (t, out)))"
proof -
  have f: "negotiation_ok (u\<lparr>state := a\<rparr>)" if "negotiation_ok u" for u a
    by (rule negotiation_fields [OF that]) simp_all
  have g: "negotiation_ok (t\<lparr>in_synch := a\<rparr>)" "negotiation_ok (t\<lparr>sb_opt := c, sb_buf := []\<rparr>)"
    "negotiation_ok (t\<lparr>sb_buf := l\<rparr>)" for a c l
    by (rule negotiation_fields [OF assms]; simp)+
  have p: "negotiation_ok (process_subneg t)"
    using assms by (auto simp: process_subneg_def negotiation_sk_write split: list.split prod.split)
  show ?thesis
    using assms by (cases "state t")
      (auto simp: telnet_read_byte_def Let_def proc_rec_opt_ok p f g subneg_addchar_def)
qed

lemma negotiation_read: "negotiation_ok t \<Longrightarrow> negotiation_ok (do_telnet_read buf t)"
proof -
  have "negotiation_ok (fst s) \<Longrightarrow> negotiation_ok (fst (telnet_read_loop buf s))" for s
  proof (induction buf arbitrary: s)
    case (Cons c buf)
    then have "negotiation_ok (fst (telnet_read_byte c s))"
      using negotiation_read_byte [of "fst s" c "snd s"] by simp
    then have "negotiation_ok (fst (flush_out (telnet_read_byte c s)))"
      by (simp add: flush_out_def negotiation_c_write)
    with Cons.IH show ?case by simp
  qed simp
  moreover obtain t1 out where "telnet_read_loop buf (t, []) = (t1, out)" by fastforce
  moreover assume "negotiation_ok t"
  ultimately have "negotiation_ok t1" by (metis fst_conv)
  with \<open>telnet_read_loop buf (t, []) = (t1, out)\<close> show "negotiation_ok (do_telnet_read buf t)"
    by (simp add: do_telnet_read_def negotiation_c_write)
qed

lemma negotiation_send_loop: "negotiation_ok t \<Longrightarrow> negotiation_ok (telnet_send_loop p t)"
proof (induction p t rule: telnet_send_loop.induct)
  case (1 p t)
  have u: "negotiation_ok t \<Longrightarrow> negotiation_ok (snd (send_unwritable p t))" for p t
    by (induction p t rule: send_unwritable.induct) (auto simp: negotiation_sk_write)
  from 1 show ?case
    by (subst telnet_send_loop.simps) (simp add: Let_def u negotiation_sk_write)
qed

subsection \<open>Sessions\<close>

text \<open>The states the backend's entry points reach, in any order; data arrives only while the
  socket is open.\<close>

inductive telnet_session :: "telnet \<Rightarrow> bool" where
  Init: "telnet_init cf bl garbage None None = Inr t \<Longrightarrow> telnet_session t"
| Receive: "telnet_session t \<Longrightarrow> sock t \<Longrightarrow> telnet_session (telnet_receive urgent data t)"
| Closing: "telnet_session t \<Longrightarrow> telnet_session (telnet_closing msg t)"
| Sent: "telnet_session t \<Longrightarrow> telnet_session (telnet_sent n t)"
| Send: "telnet_session t \<Longrightarrow> telnet_session (snd (telnet_send buf t))"
| Size: "telnet_session t \<Longrightarrow> telnet_session (telnet_size w h t)"
| Special: "telnet_session t \<Longrightarrow> telnet_session (telnet_special code t)"
| Reconfig: "telnet_session t \<Longrightarrow> telnet_session (telnet_reconfig cf t)"
| Unthrottle: "telnet_session t \<Longrightarrow> telnet_session (telnet_unthrottle n t)"
| Provide_ldisc: "telnet_session t \<Longrightarrow> telnet_session (telnet_provide_ldisc l t)"

lemma init_passive_fields:
  "events (init_passive xs t) = events t \<and> echoing (init_passive xs t) = echoing t \<and>
   editing (init_passive xs t) = editing t"
  by (induction xs arbitrary: t) simp_all

lemma init_active_ok:
  "set xs \<subseteq> set opts \<Longrightarrow> \<forall>y\<in>set opts. y \<notin> set xs \<longrightarrow> option_ok t y \<Longrightarrow>
   \<forall>e\<in>set (events t). known_request e \<Longrightarrow> options_ok (init_active xs t)"
proof (induction xs arbitrary: t)
  case Nil
  then show ?case by (simp add: options_ok_def)
next
  case (Cons x xs)
  define t1 where "t1 = set_opt x (initial_state x) t"
  define t2 where "t2 = (if opt_state t1 x = REQUESTED then send_opt (send x) (option_code x) t1 else t1)"
  have x: "x \<in> set opts" using Cons.prems(1) by simp
  then have "initial_state x \<noteq> ACTIVE" by (auto simp: opts_def opt_defs)
  then have "option_ok t2 x"
    using opts_distinct(2) [OF x x] by (simp add: t2_def t1_def option_ok_def)
  moreover have "option_ok t2 y = option_ok t y" if "y \<in> set opts" "y \<noteq> x" for y
    using that option_ok_other(1,2) [OF x that(1)] by (auto simp: t2_def t1_def)
  ultimately have "\<forall>y\<in>set opts. y \<notin> set xs \<longrightarrow> option_ok t2 y"
    using Cons.prems(2) by (metis set_ConsD)
  moreover have "\<forall>e\<in>set (events t2). known_request e"
    using Cons.prems(3) x by (auto simp: t2_def t1_def)
  ultimately have "options_ok (init_active xs t2)" using Cons.prems(1) by (intro Cons.IH) auto
  then show ?case by (simp only: init_active.simps Let_def t1_def [symmetric] t2_def [symmetric])
qed

lemma init_ok:
  assumes "telnet_init cf bl garbage None None = Inr t"
  shows "negotiation_ok t"
proof (cases "passive_telnet cf")
  case True
  with assms have t: "t = (init_passive opts ((telnet_fresh cf bl garbage)\<lparr>sock := True\<rparr>))\<lparr>in_synch := False\<rparr>"
    by (auto simp: telnet_init_def Let_def telnet_fresh_def)
  have "opt_states t = (\<lambda>i. INACTIVE)"
    unfolding t by (rule ext, case_tac i) (simp_all add: opts_def opt_defs)
  moreover have "events t = []" "echoing t" "editing t"
    using init_passive_fields [of opts "(telnet_fresh cf bl garbage)\<lparr>sock := True\<rparr>"]
    by (simp_all add: t telnet_fresh_def)
  ultimately show ?thesis by (simp add: negotiation_ok_def option_ok_def)
next
  case False
  with assms have t: "t = (init_active opts ((telnet_fresh cf bl garbage)\<lparr>sock := True\<rparr>))\<lparr>activated := True, in_synch := False\<rparr>"
    by (auto simp: telnet_init_def Let_def telnet_fresh_def)
  let ?t0 = "(telnet_fresh cf bl garbage)\<lparr>sock := True\<rparr>"
  have "options_ok (init_active opts ?t0)"
    by (rule init_active_ok) (simp_all add: telnet_fresh_def)
  then have "options_ok t" by (simp add: t options_ok_def option_ok_def last_cmd_def)
  moreover have "environ_ok t"
    by (simp add: t environ_ok_def opts_def opt_defs)
  moreover have "flags_ok None t"
    by (simp add: t flags_ok_def opts_def opt_defs telnet_fresh_def)
  ultimately show ?thesis by (simp add: negotiation_ok_split)
qed

text \<open>C12: the negotiation invariant of a whole session. In every state the entry points reach, an option
  is ACTIVE only if the client's last word on it was its request and the server's last word its
  agreement, and REQUESTED only if the client asked last; at most one of the two ENVIRON options is
  active (the other is then refused for good); local echo and local line editing are on exactly
  when the server has not taken over ECHO and SGA; and the client never offered or asked for an
  option outside its table.\<close>

theorem telnet_negotiation_invariant:
  assumes "telnet_session t"
  shows "negotiation_ok t"
  using assms
proof induction
  case (Init cf bl garbage t)
  then show ?case by (rule init_ok)
next
  case (Receive t urgent data)
  have "negotiation_ok ((if urgent then t\<lparr>in_synch := True\<rparr> else t)\<lparr>session_started := True\<rparr>)"
    by (rule negotiation_fields [OF Receive.IH]) simp_all
  then show ?case unfolding telnet_receive_def by (rule negotiation_read)
next
  case (Closing t msg)
  obtain es where "events (telnet_closing msg t) = events t @ es" "\<forall>e\<in>set es. no_option e"
    by (cases "sock t"; cases msg) (auto simp: telnet_closing_def Let_def no_option_def)
  from negotiation_quiet [OF Closing.IH _ _ _ this] show ?case
    by (cases msg) (simp_all add: telnet_closing_def Let_def)
next
  case (Send t buf)
  then show ?case by (simp add: telnet_send_def Let_def negotiation_send_loop)
next
  case (Size t w h)
  then show ?case
    by (auto simp: telnet_size_def Let_def intro!: negotiation_sk_write intro: negotiation_fields)
next
  case (Special t code)
  have "negotiation_ok (sk_write_oob b u)" if "negotiation_ok u" for b u
    by (rule negotiation_quiet [OF that, of _ "[SkWriteOob b]"])
      (simp_all add: sk_write_oob_def Let_def no_option_def)
  with Special.IH show ?case
    by (cases code) (simp_all add: telnet_special_def negotiation_sk_write)
next
  case (Unthrottle t n)
  show ?case unfolding telnet_unthrottle_def
    by (rule negotiation_quiet [OF Unthrottle.IH, of _ "[SkSetFrozen (TELNET_MAX_BACKLOG < n)]"])
      simp_all
qed (auto simp: telnet_sent_def telnet_reconfig_def telnet_provide_ldisc_def intro: negotiation_fields)

theorem telnet_negotiation_invariant_witness:
  "\<exists>t. telnet_session t \<and> opt_state t o_echo = ACTIVE \<and> negotiation_ok t"
proof -
  define c where "c = example_conf\<lparr>passive_telnet := True\<rparr>"
  define t0 where "t0 = (init_passive opts ((telnet_fresh c (\<lambda>_. 0) example_telnet)\<lparr>sock := True\<rparr>))\<lparr>in_synch := False\<rparr>"
  have "telnet_init c (\<lambda>_. 0) example_telnet None None = Inr t0"
    by (simp add: telnet_init_def t0_def c_def telnet_fresh_def Let_def)
  then have s0: "telnet_session t0" by (rule Init)
  have f: "sock t0" "state t0 = TOP_LEVEL" "opt_state t0 o_echo = INACTIVE"
    by (simp_all add: t0_def telnet_fresh_def opts_def opt_defs set_opt_def)
  from Receive [OF s0 f(1), of False "[IAC, WILL, TELOPT_ECHO]"]
  have s1: "telnet_session (telnet_receive False [IAC, WILL, TELOPT_ECHO] t0)" .
  have "opt_state (telnet_receive False [IAC, WILL, TELOPT_ECHO] t0) o_echo = ACTIVE"
    using f do_telnet_read_out [of "[IAC, WILL, TELOPT_ECHO]" "t0\<lparr>session_started := True\<rparr>"]
    by (simp add: telnet_receive_def telnet_read_byte_def proc_rec_opt_def log_option_def opts_def
        opt_defs activate_option_def option_side_effects_def request_frame Let_def)
  with s1 telnet_negotiation_invariant [OF s1] show ?thesis by blast
qed

subsection \<open>Negotiation does not loop\<close>

text \<open>What the loop over the table does: the first matching option, or a refusal.\<close>

definition on_match :: "Opt \<Rightarrow> byte \<Rightarrow> byte \<Rightarrow> telnet \<Rightarrow> telnet" where
  "on_match x cmd opt t =
     (if ack x = cmd then
        (case opt_state t x of
           REQUESTED \<Rightarrow> activate_option x (set_opt x ACTIVE t)
         | ACTIVE \<Rightarrow> t
         | INACTIVE \<Rightarrow> activate_option x (send_opt (send x) opt (set_opt x ACTIVE t))
         | REALLY_INACTIVE \<Rightarrow> send_opt (nsend x) opt t)
      else
        (case opt_state t x of
           REQUESTED \<Rightarrow> refused_option x (set_opt x INACTIVE t)
         | ACTIVE \<Rightarrow> option_side_effects x False (send_opt (nsend x) opt (set_opt x INACTIVE t))
         | _ \<Rightarrow> t))"

lemma proc_loop_cases:
  obtains (match) x where "x \<in> set xs" "option_code x = opt" "ack x = cmd \<or> nak x = cmd"
      "\<And>t. proc_rec_opt_loop xs cmd opt t = on_match x cmd opt t"
    | (none) "\<And>t. proc_rec_opt_loop xs cmd opt t =
       (if cmd = WILL \<or> cmd = DO then send_opt (if cmd = WILL then DONT else WONT) opt t else t)"
proof (induction xs)
  case (Cons x xs)
  show ?case
  proof (cases "option_code x = opt \<and> (ack x = cmd \<or> nak x = cmd)")
    case True
    then show ?thesis by (intro Cons.prems(1) [of x]) (auto simp: on_match_def split: optstate.split)
  next
    case False
    then have "\<And>t. proc_rec_opt_loop (x # xs) cmd opt t = proc_rec_opt_loop xs cmd opt t" by auto
    with Cons.IH Cons.prems show ?thesis by (metis list.set_intros(2))
  qed
qed simp

lemma activated_frames:
  "activated t \<Longrightarrow> opt_states (option_side_effects x b t) = opt_states t"
  "activated t \<Longrightarrow> wire (option_side_effects x b t) = wire t"
  "activated t \<Longrightarrow> activated (option_side_effects x b t)"
  by (simp_all add: option_side_effects_def Let_def wire_def)

lemma wire_negotiation [simp]:
  "wire (set_opt x st t) = wire t" "wire (send_opt c z t) = wire t @ [IAC, c, z]"
  "wire (log_option who c z t) = wire t"
  by (simp_all add: wire_def log_option_def)

lemma telnet_size_frames [simp]:
  "opt_states (telnet_size w h t) = opt_states t" "activated (telnet_size w h t) = activated t"
  by (simp_all add: telnet_size_def Let_def)

lemma environ_options:
  assumes "x \<in> set opts"
  shows "send x = WILL \<and> option_code x = TELOPT_NEW_ENVIRON \<longleftrightarrow> x = o_nenv"
    "send x = WILL \<and> option_code x = TELOPT_OLD_ENVIRON \<longleftrightarrow> x = o_oenv" "o_nenv \<noteq> o_oenv"
    "option_code o_nenv = TELOPT_NEW_ENVIRON" "option_code o_oenv = TELOPT_OLD_ENVIRON"
    "index o_nenv \<noteq> index o_oenv"
  using assms by (auto simp: opts_def opt_defs)

lemma deactivate_frame [simp]:
  "opt_states (deactivate_option x t) = (opt_states t)(index x := REALLY_INACTIVE)"
  "activated (deactivate_option x t) = activated t"
  by (simp_all add: deactivate_option_def)

lemma activate_frame:
  assumes "activated t" "x \<in> set opts" "opt_state t x = ACTIVE"
  shows "opt_state (activate_option x t) x = ACTIVE"
proof -
  define t1 where "t1 = (if send x = WILL \<and> option_code x = TELOPT_NAWS
                then telnet_size (term_width t) (term_height t) t else t)"
  have t1: "activated t1" "opt_states t1 = opt_states t" using assms(1) by (simp_all add: t1_def)
  define t2 where "t2 = (if send x = WILL \<and>
                   (option_code x = TELOPT_NEW_ENVIRON \<or> option_code x = TELOPT_OLD_ENVIRON)
                then deactivate_option
                  (if option_code x = TELOPT_NEW_ENVIRON then o_oenv else o_nenv) t1
                else t1)"
  have a: "activated t2" using t1(1) by (simp add: t2_def)
  have "opt_state t2 x = ACTIVE"
    using assms(3) t1(2) environ_options [OF assms(2)] by (auto simp: t2_def)
  then have "opt_state (option_side_effects x True t2) x = ACTIVE" by (simp add: activated_frames(1) [OF a])
  then show ?thesis by (simp only: activate_option_def Let_def t1_def [symmetric] t2_def [symmetric])
qed

lemma refused_frame:
  assumes "activated t" "x \<in> set opts"
  shows "opt_state (refused_option x t) x = opt_state t x"
  using assms environ_options [OF assms(2)]
  by (auto simp: refused_option_def Let_def activated_frames)

text \<open>A command of the server is a request (WILL, DO) or a denial.\<close>

definition refusal :: "byte \<Rightarrow> byte \<Rightarrow> byte list" where
  "refusal cmd opt = [IAC, if cmd = WILL then DONT else WONT, opt]"

lemma on_match_settles:
  assumes "activated t" "x \<in> set opts"
  shows "opt_state (on_match x cmd opt t) x \<in>
    (if ack x = cmd then {ACTIVE, REALLY_INACTIVE} else {INACTIVE, REALLY_INACTIVE})"
  using assms
  by (cases "opt_state t x") (simp_all add: on_match_def activate_frame refused_frame activated_frames)

lemma on_match_settled:
  assumes "x \<in> set opts" "ack x = cmd \<or> nak x = cmd"
    and "opt_state t x \<in> (if ack x = cmd then {ACTIVE, REALLY_INACTIVE} else {INACTIVE, REALLY_INACTIVE})"
  shows "opt_states (on_match x cmd opt t) = opt_states t \<and>
    (wire (on_match x cmd opt t) = wire t \<or>
     cmd \<in> {WILL, DO} \<and> wire (on_match x cmd opt t) = wire t @ refusal cmd opt)"
proof -
  have "ack x = cmd \<Longrightarrow> cmd \<in> {WILL, DO} \<and> nsend x = (if cmd = WILL then DONT else WONT)"
    using assms(1) by (auto simp: opts_def opt_defs)
  with assms(3) show ?thesis by (auto simp: on_match_def refusal_def split: if_splits)
qed

text \<open>C13: negotiation does not loop. Once the backend is active, receiving the same option command
  again changes no option, a repeated denial is not answered at all, and a repeated request is
  answered at most by one refusal: the client never acknowledges a mode it is already in, so two
  ends cannot keep each other busy.\<close>

theorem telnet_no_option_loop:
  assumes "activated t" and t1_def: "t1 = proc_rec_opt cmd opt t"
  shows "opt_states (proc_rec_opt cmd opt t1) = opt_states t1 \<and>
    (wire (proc_rec_opt cmd opt t1) = wire t1 \<or>
     cmd \<in> {WILL, DO} \<and> wire (proc_rec_opt cmd opt t1) = wire t1 @ refusal cmd opt)"
proof (cases rule: proc_loop_cases [of opts opt cmd])
  case (match x)
  have l: "activated (log_option Server cmd opt t)" "opt_states (log_option Server cmd opt u) = opt_states u"
    "wire (log_option Server cmd opt u) = wire u" for u
    using assms(1) by (simp_all add: log_option_def)
  have "opt_state (log_option Server cmd opt t1) x \<in>
      (if ack x = cmd then {ACTIVE, REALLY_INACTIVE} else {INACTIVE, REALLY_INACTIVE})"
    using on_match_settles [OF l(1) match(1), of cmd opt] by (simp add: l(2) t1_def proc_rec_opt_def match(4))
  from on_match_settled [OF match(1,3) this] show ?thesis
    by (simp add: proc_rec_opt_def match(4) l)
next
  case none
  then show ?thesis by (auto simp: proc_rec_opt_def refusal_def log_option_def)
qed

theorem telnet_no_option_loop_witness:
  \<comment> \<open>a second \<open>DO AUTHENTICATION\<close> is refused again, and nothing more\<close>
  "opt_states (proc_rec_opt DO 37 (proc_rec_opt DO 37 example_telnet)) =
     opt_states (proc_rec_opt DO 37 example_telnet)"
proof -
  have "activated example_telnet" by (simp add: example_telnet_def)
  from telnet_no_option_loop [OF this refl] show ?thesis by blast
qed

end
