(* ===== verification/Base64.thy ===== *)
theory Base64
  imports Prelude
begin

text \<open>
  The base64 codecs of the program against one reference: the encoder and decoder of
  \<open>bcrypt/bcrypt.c\<close> (with line breaks), the atoms of \<open>utils/utils.c\<close> (\<open>base64_encode_atom\<close>,
  \<open>base64_decode_atom\<close>), \<open>base64/base64.c\<close> (\<open>encode64\<close>, in-place \<open>decode64\<close>) and the
  streaming codec of \<open>far2l/cencode.c\<close> and \<open>far2l/cdecode.c\<close>. The reference \<open>b64_spec\<close>
  splits three octets into four sextets; each encoder is shown to compute it and each decoder to
  invert it.
\<close>

subsection \<open>The reference\<close>

definition B64 :: "byte list" where
  "B64 = List.map word_of_nat ([65..<91] @ [97..<123] @ [48..<58] @ [43, 47])"

definition b64c :: "byte \<Rightarrow> byte" where
  "b64c x = B64 ! unat x"

definition sext1 :: "byte \<Rightarrow> byte" where "sext1 a = drop_bit 2 a"
definition sext2 :: "byte \<Rightarrow> byte \<Rightarrow> byte" where "sext2 a b = push_bit 4 (a AND 3) OR drop_bit 4 b"
definition sext3 :: "byte \<Rightarrow> byte \<Rightarrow> byte" where "sext3 b c = push_bit 2 (b AND 15) OR drop_bit 6 c"
definition sext4 :: "byte \<Rightarrow> byte" where "sext4 c = c AND 63"

definition octet1 :: "byte \<Rightarrow> byte \<Rightarrow> byte" where "octet1 s t = push_bit 2 s OR drop_bit 4 t"
definition octet2 :: "byte \<Rightarrow> byte \<Rightarrow> byte" where "octet2 s t = push_bit 4 s OR drop_bit 2 t"
definition octet3 :: "byte \<Rightarrow> byte \<Rightarrow> byte" where "octet3 s t = push_bit 6 s OR t"

lemmas sext_defs = sext1_def sext2_def sext3_def sext4_def
lemmas octet_defs = octet1_def octet2_def octet3_def

fun b64_spec :: "byte list \<Rightarrow> byte list" where
  "b64_spec [] = []"
| "b64_spec [a] = [b64c (sext1 a), b64c (sext2 a 0), 61, 61]"
| "b64_spec [a, b] = [b64c (sext1 a), b64c (sext2 a b), b64c (sext3 b 0), 61]"
| "b64_spec (a # b # c # r) =
     b64c (sext1 a) # b64c (sext2 a b) # b64c (sext3 b c) # b64c (sext4 c) # b64_spec r"

lemma mask_bits:
  "(3 :: byte) = mask 2" "(15 :: byte) = mask 4" "(63 :: byte) = mask 6" "(63 :: u32) = mask 6"
  "(255 :: u32) = mask 8"
  by (simp_all add: mask_eq_exp_minus_1)

lemma byte_eqI:
  fixes x y :: byte
  assumes "bit x 0 = bit y 0" "bit x 1 = bit y 1" "bit x 2 = bit y 2" "bit x 3 = bit y 3"
    "bit x 4 = bit y 4" "bit x 5 = bit y 5" "bit x 6 = bit y 6" "bit x 7 = bit y 7"
  shows "x = y"
proof (rule bit_word_eqI)
  fix n :: nat
  assume "n < LENGTH(8)"
  then have "n = 0 \<or> n = 1 \<or> n = 2 \<or> n = 3 \<or> n = 4 \<or> n = 5 \<or> n = 6 \<or> n = 7" by simp linarith
  with assms show "bit x n = bit y n" by blast
qed

lemma octets_of_sextets:
  shows "octet1 (sext1 a) (sext2 a b) = a" and "octet2 (sext2 a b) (sext3 b c) = b"
    and "octet3 (sext3 b c) (sext4 c) = c"
proof -
  show "octet1 (sext1 a) (sext2 a b) = a"
    unfolding octet_defs sext_defs mask_bits
    by (rule byte_eqI) (simp_all add: bit_simps)
  show "octet2 (sext2 a b) (sext3 b c) = b"
    unfolding octet_defs sext_defs mask_bits
    by (rule byte_eqI) (simp_all add: bit_simps)
  show "octet3 (sext3 b c) (sext4 c) = c"
    unfolding octet_defs sext_defs mask_bits
    by (rule byte_eqI) (simp_all add: bit_simps)
qed

lemma six_bits:
  fixes x :: byte
  assumes "\<And>n. bit x n \<Longrightarrow> n < 6"
  shows "x < 64"
proof -
  have "take_bit 6 x = x" by (rule bit_word_eqI) (use assms in \<open>auto simp: bit_simps\<close>)
  moreover have "unat (take_bit 6 x) < 2 ^ 6" unfolding unsigned_take_bit_eq by (rule take_bit_nat_less_exp)
  ultimately show ?thesis by (simp add: word_less_nat_alt)
qed

lemma sextets_small:
  "sext1 a < 64" "sext2 a b < 64" "sext3 b c < 64" "sext4 c < 64"
proof -
  have b: "bit x n \<Longrightarrow> n < 8" for x :: byte and n using bit_imp_le_length [of x n] by simp
  show "sext1 a < 64" "sext2 a b < 64" "sext3 b c < 64" "sext4 c < 64"
    unfolding sext_defs mask_bits
    by (rule six_bits; force simp: bit_simps dest: b)+
qed

lemma B64_length [simp]: "length B64 = 64"
  by (simp add: B64_def)

text \<open>The characters, one by one.\<close>

definition b64_index :: "byte \<Rightarrow> byte option" where
  "b64_index c = (if 65 \<le> c \<and> c \<le> 90 then Some (c - 65) else if 97 \<le> c \<and> c \<le> 122 then Some (c - 71)
     else if 48 \<le> c \<and> c \<le> 57 then Some (c + 4) else if c = 43 then Some 62
     else if c = 47 then Some 63 else None)"

lemma b64_index_b64c:
  assumes "x < 64"
  shows "b64_index (b64c x) = Some x" and "b64c x \<noteq> 61" and "b64c x \<noteq> 10" and "32 < b64c x" and "b64c x < 128"
proof -
  have "list_all (\<lambda>i. b64_index (B64 ! i) = Some (word_of_nat i) \<and> B64 ! i \<noteq> 61 \<and> B64 ! i \<noteq> 10 \<and>
      32 < B64 ! i \<and> B64 ! i < 128) [0..<64]"
    by code_simp
  then have "\<forall>i<64. b64_index (B64 ! i) = Some (word_of_nat i) \<and> B64 ! i \<noteq> 61 \<and> B64 ! i \<noteq> 10 \<and>
      32 < B64 ! i \<and> B64 ! i < 128"
    by (simp only: list_all_iff set_upt atLeastLessThan_iff) simp
  moreover have "unat x < 64" using assms by (simp add: word_less_nat_alt)
  ultimately show "b64_index (b64c x) = Some x" "b64c x \<noteq> 61" "b64c x \<noteq> 10" "32 < b64c x" "b64c x < 128"
    by (auto simp: b64c_def)
qed

subsection \<open>Encoding through a 24-bit word\<close>

text \<open>\<open>base64_encode_atom\<close>: \<open>n\<close> octets, one to three, as four characters.\<close>

definition base64_encode_atom :: "byte list \<Rightarrow> nat \<Rightarrow> byte list" where
  "base64_encode_atom data n =
     (let w = push_bit 16 (ucast (data ! 0) :: u32);
          w = (if n > 1 then w OR push_bit 8 (ucast (data ! 1)) else w);
          w = (if n > 2 then w OR ucast (data ! 2) else w)
      in [B64 ! unat (drop_bit 18 w AND 0x3F), B64 ! unat (drop_bit 12 w AND 0x3F),
          if n > 1 then B64 ! unat (drop_bit 6 w AND 0x3F) else 61,
          if n > 2 then B64 ! unat (w AND 0x3F) else 61])"

text \<open>\<open>quad\<close> of \<open>b64_encode\<close>, for the input from position \<open>i\<close>.\<close>

definition b64_quad :: "byte list \<Rightarrow> byte list" where
  "b64_quad inp =
     (let v = push_bit 16 (ucast (inp ! 0) :: u32); rem = length inp;
          v = (if rem > 1 then v OR push_bit 8 (ucast (inp ! 1)) else v);
          v = (if rem > 2 then v OR ucast (inp ! 2) else v)
      in [B64 ! unat (drop_bit 18 v AND 0x3F), B64 ! unat (drop_bit 12 v AND 0x3F),
          if rem > 1 then B64 ! unat (drop_bit 6 v AND 0x3F) else 61,
          if rem > 2 then B64 ! unat (v AND 0x3F) else 61])"

lemma bit_byte_lt: "bit (x :: byte) n \<Longrightarrow> n < 8"
  using bit_imp_le_length [of x n] by simp

lemma unat_ucast_byte: "unat (ucast x :: u32) = unat x" for x :: byte
  by (simp add: unsigned_ucast_eq take_bit_nat_eq_self less_trans [OF unat_byte_less])

lemma word_sextets:
  fixes a b c :: byte
  shows "unat (drop_bit 18 (push_bit 16 (ucast a) OR push_bit 8 (ucast b) OR ucast c :: u32) AND 0x3F) = unat (sext1 a)"
    and "unat (drop_bit 12 (push_bit 16 (ucast a) OR push_bit 8 (ucast b) OR ucast c :: u32) AND 0x3F) = unat (sext2 a b)"
    and "unat (drop_bit 6 (push_bit 16 (ucast a) OR push_bit 8 (ucast b) OR ucast c :: u32) AND 0x3F) = unat (sext3 b c)"
    and "unat ((push_bit 16 (ucast a) OR push_bit 8 (ucast b) OR ucast c :: u32) AND 0x3F) = unat (sext4 c)"
proof -
  let ?w = "push_bit 16 (ucast a) OR push_bit 8 (ucast b) OR ucast c :: u32"
  have 1: "drop_bit 18 ?w AND 0x3F = ucast (sext1 a)"
    unfolding sext_defs mask_bits by (rule bit_word_eqI) (auto simp: bit_simps dest: bit_byte_lt)
  have 2: "drop_bit 12 ?w AND 0x3F = ucast (sext2 a b)"
    unfolding sext_defs mask_bits by (rule bit_word_eqI) (auto simp: bit_simps dest: bit_byte_lt)
  have 3: "drop_bit 6 ?w AND 0x3F = ucast (sext3 b c)"
    unfolding sext_defs mask_bits by (rule bit_word_eqI) (auto simp: bit_simps dest: bit_byte_lt)
  have 4: "?w AND 0x3F = ucast (sext4 c)"
    unfolding sext_defs mask_bits by (rule bit_word_eqI) (auto simp: bit_simps dest: bit_byte_lt)
  show "unat (drop_bit 18 ?w AND 0x3F) = unat (sext1 a)" unfolding 1 by (rule unat_ucast_byte)
  show "unat (drop_bit 12 ?w AND 0x3F) = unat (sext2 a b)" unfolding 2 by (rule unat_ucast_byte)
  show "unat (drop_bit 6 ?w AND 0x3F) = unat (sext3 b c)" unfolding 3 by (rule unat_ucast_byte)
  show "unat (?w AND 0x3F) = unat (sext4 c)" unfolding 4 by (rule unat_ucast_byte)
qed

lemma base64_encode_atom_spec:
  "base64_encode_atom (a # r) 1 = b64_spec [a]"
  "base64_encode_atom (a # b # r) 2 = b64_spec [a, b]"
  "base64_encode_atom (a # b # c # r) 3 = b64_spec [a, b, c]"
  using word_sextets [of a 0 0] word_sextets [of a b 0] word_sextets [of a b c]
  by (simp_all add: base64_encode_atom_def b64c_def or.assoc)

lemma b64_quad_spec:
  "b64_quad [a] = b64_spec [a]" "b64_quad [a, b] = b64_spec [a, b]"
  "b64_quad (a # b # c # r) = b64_spec [a, b, c]"
  using word_sextets [of a 0 0] word_sextets [of a b 0] word_sextets [of a b c]
  by (simp_all add: b64_quad_def b64c_def or.assoc)

text \<open>\<open>b64_encode\<close>: the characters go out through a column counter that inserts a newline each
  time a line is full.\<close>

definition b64_put :: "nat \<Rightarrow> byte \<Rightarrow> nat \<times> byte list \<Rightarrow> nat \<times> byte list" where
  "b64_put maxlinesize c = (\<lambda>(col, out).
     let (col, out) = (if maxlinesize > 0 \<and> col = maxlinesize then (0, out @ [10]) else (col, out))
     in (col + 1, out @ [c]))"

fun b64_encode_loop :: "nat \<Rightarrow> byte list \<Rightarrow> nat \<times> byte list \<Rightarrow> byte list" where
  "b64_encode_loop m [] s = snd s"
| "b64_encode_loop m (a # r) s =
     b64_encode_loop m (drop 2 r) (fold (b64_put m) (b64_quad (a # r)) s)"

definition b64_encode :: "byte list \<Rightarrow> nat \<Rightarrow> byte list" where
  "b64_encode inp maxlinesize = b64_encode_loop maxlinesize inp (0, [])"

definition b64_encoded_len :: "nat \<Rightarrow> nat \<Rightarrow> nat" where
  "b64_encoded_len n maxlinesize =
     (let len = ((n + 2) div 3) * 4
      in if maxlinesize > 0 \<and> len > 0 then len + (len - 1) div maxlinesize else len)"

definition b64_value :: "byte \<Rightarrow> int" where
  "b64_value c =
     (if c \<ge> 65 \<and> c \<le> 90 then uint c - 65
      else if c \<ge> 97 \<and> c \<le> 122 then uint c - 97 + 26
      else if c \<ge> 48 \<and> c \<le> 57 then uint c - 48 + 52
      else if c = 43 then 62
      else if c = 47 then 63
      else - 1)"

fun b64_decode_loop :: "byte list \<Rightarrow> u32 \<Rightarrow> nat \<Rightarrow> byte list \<Rightarrow> byte list" where
  "b64_decode_loop [] acc bits out = out"
| "b64_decode_loop (c # inp) acc bits out =
     (let v = b64_value c in
      if v < 0 then b64_decode_loop inp acc bits out
      else
        let acc = push_bit 6 acc OR word_of_int v; bits = bits + 6
        in if bits \<ge> 8
           then b64_decode_loop inp acc (bits - 8) (out @ [ucast (drop_bit (bits - 8) acc AND 0xFF)])
           else b64_decode_loop inp acc bits out)"

definition b64_decode :: "byte list \<Rightarrow> byte list" where
  "b64_decode inp = b64_decode_loop inp 0 0 []"

text \<open>The encoder is the reference with line breaks.\<close>

lemma fold_put_data:
  "filter (\<lambda>c. c \<noteq> 10) (snd (fold (b64_put m) cs s)) = filter (\<lambda>c. c \<noteq> 10) (snd s) @ filter (\<lambda>c. c \<noteq> 10) cs"
  by (induction cs arbitrary: s) (auto simp: b64_put_def Let_def split: prod.splits if_splits)

lemma b64_spec_no_newline: "10 \<notin> set (b64_spec r)"
  using b64_index_b64c(3) [OF sextets_small(1)] b64_index_b64c(3) [OF sextets_small(2)]
    b64_index_b64c(3) [OF sextets_small(3)] b64_index_b64c(3) [OF sextets_small(4)]
  by (induction r rule: b64_spec.induct) (simp_all add: eq_commute)

lemma filter_newline_id: "10 \<notin> set r \<Longrightarrow> filter (\<lambda>c. c \<noteq> 10) r = r"
  by (induction r) auto

lemma b64_encode_loop_fold: "b64_encode_loop m r s = snd (fold (b64_put m) (b64_spec r) s)"
proof (induction r arbitrary: s rule: b64_spec.induct)
  case (4 a b c r)
  then show ?case using b64_quad_spec(3) [of a b c r] by simp
qed (simp_all add: b64_quad_spec)

lemma b64_encode_data: "filter (\<lambda>c. c \<noteq> 10) (b64_encode r m) = b64_spec r"
  using fold_put_data [of m "b64_spec r" "(0, [])"] filter_newline_id [OF b64_spec_no_newline [of r]]
  by (simp add: b64_encode_def b64_encode_loop_fold)

lemma length_b64_spec: "length (b64_spec r) = ((length r + 2) div 3) * 4"
proof (induction r rule: b64_spec.induct)
  case (4 a b c r)
  have "(length (a # b # c # r) + 2) div 3 = Suc ((length r + 2) div 3)" by simp
  with 4 show ?case by simp
qed simp_all

text \<open>The column counter: after \<open>k > 0\<close> characters it is \<open>(k - 1) mod m + 1\<close> and \<open>(k - 1) div m\<close>
  newlines are out.\<close>

lemma fold_put_count:
  "0 < m \<Longrightarrow> cs \<noteq> [] \<Longrightarrow> fold (b64_put m) cs (0, []) = (col, out) \<Longrightarrow>
     col = (length cs - 1) mod m + 1 \<and> length out = length cs + (length cs - 1) div m"
proof (induction cs arbitrary: col out rule: rev_induct)
  case (snoc c cs)
  show ?case
  proof (cases "cs = []")
    case True
    with snoc.prems show ?thesis by (auto simp: b64_put_def)
  next
    case False
    obtain col1 out1 where f: "fold (b64_put m) cs (0, []) = (col1, out1)" by fastforce
    from snoc.IH [OF snoc.prems(1) False f]
    have c: "col1 = (length cs - 1) mod m + 1" "length out1 = length cs + (length cs - 1) div m" by auto
    obtain k where k: "length cs = Suc k" using False by (cases cs) auto
    have "b64_put m c (col1, out1) = (col, out)" using snoc.prems(3) f by simp
    then show ?thesis
      using snoc.prems(1) c k
      by (auto simp: b64_put_def Let_def mod_Suc div_Suc split: if_splits)
  qed
qed simp

lemma fold_put_zero: "snd (fold (b64_put 0) cs (col, out)) = out @ cs"
  by (induction cs arbitrary: col out) (simp_all add: b64_put_def)

lemma b64_encode_length: "length (b64_encode r m) = b64_encoded_len (length r) m"
proof -
  have e: "b64_encode r m = snd (fold (b64_put m) (b64_spec r) (0, []))"
    by (simp add: b64_encode_def b64_encode_loop_fold)
  show ?thesis
  proof (cases "m = 0 \<or> r = []")
    case True
    then show ?thesis
      by (auto simp: e fold_put_zero length_b64_spec b64_encoded_len_def)
  next
    case False
    then have "b64_spec r \<noteq> []" by (cases r rule: b64_spec.cases) auto
    with False fold_put_count [of m "b64_spec r"] show ?thesis
      by (cases "fold (b64_put m) (b64_spec r) (0, [])")
        (auto simp: e length_b64_spec b64_encoded_len_def Let_def)
  qed
qed

text \<open>Decoding: four sextets make three octets, whatever is left in the accumulator.\<close>

lemma b64_value_b64c:
  assumes "x < 64"
  shows "b64_value (b64c x) = uint x"
proof -
  have "list_all (\<lambda>i. b64_value (B64 ! i) = int i) [0..<64]" by code_simp
  then have "\<forall>i<64. b64_value (B64 ! i) = int i"
    by (simp only: list_all_iff set_upt atLeastLessThan_iff) simp
  moreover have "unat x < 64" using assms by (simp add: word_less_nat_alt)
  ultimately show ?thesis by (simp add: b64c_def)
qed

lemma b64_value_special [simp]: "b64_value 61 = - 1" "b64_value 10 = - 1"
  by (simp_all add: b64_value_def)

lemma decode_skip_newlines:
  "b64_decode_loop (filter (\<lambda>c. c \<noteq> 10) inp) acc bits out = b64_decode_loop inp acc bits out"
  by (induction inp acc bits out rule: b64_decode_loop.induct) (simp_all add: Let_def)

lemma small_bits:
  fixes x :: byte
  assumes "x < 64" "6 \<le> n"
  shows "\<not> bit x n"
proof -
  have "take_bit 6 x = x"
    using assms(1) by (simp add: word_unat_eq_iff unsigned_take_bit_eq take_bit_nat_eq_self word_less_nat_alt)
  then have "bit x n \<longleftrightarrow> bit (take_bit 6 x) n" by simp
  with assms(2) show ?thesis by (simp add: bit_take_bit_iff)
qed

lemma decode_step:
  "x < 64 \<Longrightarrow> b64_decode_loop (b64c x # inp) acc bits out =
     (if bits + 6 \<ge> 8
      then b64_decode_loop inp (push_bit 6 acc OR ucast x) (bits - 2)
        (out @ [ucast (drop_bit (bits - 2) (push_bit 6 acc OR ucast x) AND 0xFF)])
      else b64_decode_loop inp (push_bit 6 acc OR ucast x) (bits + 6) out)"
  by (simp add: b64_value_b64c Let_def)

lemma decode_octets:
  fixes x y :: byte and acc :: u32
  assumes "x < 64" "y < 64"
  shows "(ucast (drop_bit 4 (push_bit 6 (push_bit 6 acc OR ucast x) OR ucast y) AND 0xFF) :: byte) = octet1 x y"
    and "(ucast (drop_bit 2 (push_bit 6 (push_bit 6 acc OR ucast x) OR ucast y) AND 0xFF) :: byte) = octet2 x y"
    and "(ucast ((push_bit 6 (push_bit 6 acc OR ucast x) OR ucast y) AND 0xFF) :: byte) = octet3 x y"
proof -
  note b = small_bits [OF assms(1)] small_bits [OF assms(2)] bit_byte_lt
  show "(ucast (drop_bit 4 (push_bit 6 (push_bit 6 acc OR ucast x) OR ucast y) AND 0xFF) :: byte) = octet1 x y"
    unfolding octet_defs mask_bits by (rule byte_eqI) (auto simp: bit_simps b)
  show "(ucast (drop_bit 2 (push_bit 6 (push_bit 6 acc OR ucast x) OR ucast y) AND 0xFF) :: byte) = octet2 x y"
    unfolding octet_defs mask_bits by (rule byte_eqI) (auto simp: bit_simps b)
  show "(ucast ((push_bit 6 (push_bit 6 acc OR ucast x) OR ucast y) AND 0xFF) :: byte) = octet3 x y"
    unfolding octet_defs mask_bits by (rule byte_eqI) (auto simp: bit_simps b)
qed

lemma decode_spec:
  "b64_decode_loop (b64_spec r) acc 0 out = out @ r"
proof (induction r arbitrary: acc out rule: b64_spec.induct)
  case (2 a)
  have "b64_decode_loop [61, 61] acc' bits out' = out'" for acc' bits out' by simp
  with decode_octets(1) [OF sextets_small(1,2)] octets_of_sextets(1) show ?case
    by (simp add: decode_step sextets_small
      del: b64_decode_loop.simps(2) push_bit_or drop_bit_or push_bit_push_bit)
next
  case (3 a b)
  have "b64_decode_loop [61] acc' bits out' = out'" for acc' bits out' by simp
  with decode_octets(1) [OF sextets_small(1,2)] decode_octets(2) [OF sextets_small(2,3)] octets_of_sextets(1,2)
  show ?case by (simp add: decode_step sextets_small
      del: b64_decode_loop.simps(2) push_bit_or drop_bit_or push_bit_push_bit)
next
  case (4 a b c r)
  from 4 decode_octets(1) [OF sextets_small(1,2)] decode_octets(2) [OF sextets_small(2,3)]
    decode_octets(3) [OF sextets_small(3,4)] octets_of_sextets
  show ?case by (simp add: decode_step sextets_small
      del: b64_decode_loop.simps(2) push_bit_or drop_bit_or push_bit_push_bit)
qed simp

lemma b64c_nonzero: "x < 64 \<Longrightarrow> 0 \<noteq> b64c x"
  using b64_index_b64c(4) [of x] by auto

lemma b64_decode_encode: "b64_decode (b64_encode r m) = r"
  unfolding b64_decode_def decode_skip_newlines [of "b64_encode r m", symmetric] b64_encode_data
  by (simp add: decode_spec)

lemma b64_encode_no_NUL: "0 \<notin> set (b64_encode r m)"
proof -
  have "0 \<notin> set (b64_spec r)"
    using b64c_nonzero by (induction r rule: b64_spec.induct) (simp_all add: sextets_small)
  then show ?thesis unfolding b64_encode_data [of r m, symmetric] by simp
qed

text \<open>C15: the base64 transport of the saved secrets. For every line length the decoder gives back the
  encoded bytes, the encoded text has exactly the length \<open>b64_encoded_len\<close> announced (which the
  allocations rely on), and apart from its newlines it is the standard encoding, without NUL.\<close>

theorem b64_encode_decode:
  "b64_decode (b64_encode r m) = r \<and> length (b64_encode r m) = b64_encoded_len (length r) m \<and>
   filter (\<lambda>c. c \<noteq> 10) (b64_encode r m) = b64_spec r \<and> 0 \<notin> set (b64_encode r m)"
  by (simp add: b64_decode_encode b64_encode_length b64_encode_data b64_encode_no_NUL)

subsection \<open>Atoms\<close>

text \<open>The value of a character of an atom: \<open>None\<close> is an invalid one, \<open>Some (- 1)\<close> the padding.\<close>

definition atom_value :: "byte \<Rightarrow> int option" where
  "atom_value c =
     (if c \<ge> 65 \<and> c \<le> 90 then Some (uint c - 65)
      else if c \<ge> 97 \<and> c \<le> 122 then Some (uint c - 97 + 26)
      else if c \<ge> 48 \<and> c \<le> 57 then Some (uint c - 48 + 52)
      else if c = 43 then Some 62
      else if c = 47 then Some 63
      else if c = 61 then Some (- 1)
      else None)"

fun atom_values :: "byte list \<Rightarrow> int list option" where
  "atom_values [] = Some []"
| "atom_values (c # cs) =
     (case atom_value c of None \<Rightarrow> None | Some v \<Rightarrow> map_option ((#) v) (atom_values cs))"

text \<open>The bytes stored to \<open>out\<close>; their number is the return value.\<close>

definition base64_decode_atom :: "byte list \<Rightarrow> byte list" where
  "base64_decode_atom atom =
     (case atom_values (take 4 atom) of
        None \<Rightarrow> []
      | Some vals \<Rightarrow>
          if vals ! 0 = - 1 \<or> vals ! 1 = - 1 then []
          else if vals ! 2 = - 1 \<and> vals ! 3 \<noteq> - 1 then []
          else
            let len = (if vals ! 3 \<noteq> - 1 then 3 else if vals ! 2 \<noteq> - 1 then 2 else 1);
                w = push_bit 18 (word_of_int (vals ! 0) :: u32) OR push_bit 12 (word_of_int (vals ! 1)) OR
                    push_bit 6 (word_of_int (vals ! 2) AND 0x3F) OR (word_of_int (vals ! 3) AND 0x3F)
            in take len [ucast (drop_bit 16 w AND 0xFF), ucast (drop_bit 8 w AND 0xFF), ucast (w AND 0xFF)])"

lemma atom_value_b64c:
  assumes "x < 64"
  shows "atom_value (b64c x) = Some (uint x)"
proof -
  have "list_all (\<lambda>i. atom_value (B64 ! i) = Some (int i)) [0..<64]" by code_simp
  then have "\<forall>i<64. atom_value (B64 ! i) = Some (int i)"
    by (simp only: list_all_iff set_upt atLeastLessThan_iff) simp
  moreover have "unat x < 64" using assms by (simp add: word_less_nat_alt)
  ultimately show ?thesis by (simp add: b64c_def)
qed

lemma atom_octets:
  fixes x y z t :: byte and Z T :: u32
  assumes "x < 64" "y < 64" "z < 64" "t < 64"
  shows "(ucast (drop_bit 16 (push_bit 18 (ucast x) OR push_bit 12 (ucast y) OR push_bit 6 (Z AND 0x3F) OR (T AND 0x3F)) AND 0xFF) :: byte) = octet1 x y"
    and "(ucast (drop_bit 8 (push_bit 18 (ucast x) OR push_bit 12 (ucast y) OR push_bit 6 (ucast z AND 0x3F) OR (T AND 0x3F)) AND 0xFF) :: byte) = octet2 y z"
    and "(ucast ((push_bit 18 (ucast x) OR push_bit 12 (ucast y) OR push_bit 6 (ucast z AND 0x3F) OR (ucast t AND 0x3F :: u32)) AND 0xFF) :: byte) = octet3 z t"
proof -
  note b = small_bits [OF assms(1)] small_bits [OF assms(2)] small_bits [OF assms(3)]
    small_bits [OF assms(4)] bit_byte_lt
  show "(ucast (drop_bit 16 (push_bit 18 (ucast x) OR push_bit 12 (ucast y) OR push_bit 6 (Z AND 0x3F) OR (T AND 0x3F)) AND 0xFF) :: byte) = octet1 x y"
    unfolding octet_defs mask_bits by (rule byte_eqI) (auto simp: bit_simps b)
  show "(ucast (drop_bit 8 (push_bit 18 (ucast x) OR push_bit 12 (ucast y) OR push_bit 6 (ucast z AND 0x3F) OR (T AND 0x3F)) AND 0xFF) :: byte) = octet2 y z"
    unfolding octet_defs mask_bits by (rule byte_eqI) (auto simp: bit_simps b)
  show "(ucast ((push_bit 18 (ucast x) OR push_bit 12 (ucast y) OR push_bit 6 (ucast z AND 0x3F) OR (ucast t AND 0x3F :: u32)) AND 0xFF) :: byte) = octet3 z t"
    unfolding octet_defs mask_bits by (rule byte_eqI) (auto simp: bit_simps b)
qed

lemma atom_value_pad [simp]: "atom_value 61 = Some (- 1)"
  by (simp add: atom_value_def)

lemma uint_not_minus [simp]: "uint (x :: byte) \<noteq> - 1" "- 1 \<noteq> uint (x :: byte)"
  using uint_ge_0 [of x] by linarith+

lemma base64_decode_atom_spec:
  "base64_decode_atom (b64_spec [a] @ r) = [a]"
  "base64_decode_atom (b64_spec [a, b] @ r) = [a, b]"
  "base64_decode_atom (b64_spec [a, b, c] @ r) = [a, b, c]"
proof -
  note oc = atom_octets [OF sextets_small(1,2) sextets_small(3,4)] octets_of_sextets
  show "base64_decode_atom (b64_spec [a] @ r) = [a]"
    using oc(1) [of a a 0 "- 1" "- 1"] oc(4) [of a 0]
    by (simp add: base64_decode_atom_def atom_value_b64c sextets_small Let_def
      del: push_bit_or drop_bit_or push_bit_push_bit push_bit_and drop_bit_and)
  show "base64_decode_atom (b64_spec [a, b] @ r) = [a, b]"
    using oc(1) [of a a b _ "- 1"] oc(2) [of a a b b 0 "- 1"] oc(4) [of a b] oc(5) [of a b 0]
    by (simp add: base64_decode_atom_def atom_value_b64c sextets_small Let_def
      del: push_bit_or drop_bit_or push_bit_push_bit push_bit_and drop_bit_and)
  show "base64_decode_atom (b64_spec [a, b, c] @ r) = [a, b, c]"
    using oc(1) [of a a b] oc(2) [of a a b b c] oc(3) [of a a b b c c] oc(4) [of a b] oc(5) [of a b c] oc(6) [of b c]
    by (simp add: base64_decode_atom_def atom_value_b64c sextets_small Let_def
      del: push_bit_or drop_bit_or push_bit_push_bit push_bit_and drop_bit_and)
qed

text \<open>The key-file atoms. Encoding one to three bytes and decoding the atom gives the bytes back;
  decoding never stores more than three bytes; and an atom with a character outside the
  alphabet, or with padding in a place other than the end, is refused.\<close>

theorem base64_atom_roundtrip:
  "(data \<noteq> [] \<longrightarrow> length data \<le> 3 \<longrightarrow>
      base64_decode_atom (base64_encode_atom data (length data)) = data) \<and>
   length (base64_decode_atom atom) \<le> 3 \<and>
   (length atom = 4 \<and> base64_decode_atom atom \<noteq> [] \<longrightarrow>
      b64_index (atom ! 0) \<noteq> None \<and> b64_index (atom ! 1) \<noteq> None \<and>
      (b64_index (atom ! 2) \<noteq> None \<or> atom ! 2 = 61 \<and> atom ! 3 = 61) \<and>
      (b64_index (atom ! 3) \<noteq> None \<or> atom ! 3 = 61))"
proof (intro conjI impI)
  assume "data \<noteq> []" "length data \<le> 3"
  then consider a where "data = [a]" | a b where "data = [a, b]" | a b c where "data = [a, b, c]"
    by (cases data rule: b64_spec.cases) auto
  then show "base64_decode_atom (base64_encode_atom data (length data)) = data"
  proof cases
    case 1
    with base64_decode_atom_spec(1) [of a "[]"] base64_encode_atom_spec(1) [of a "[]"] show ?thesis by simp
  next
    case 2
    with base64_decode_atom_spec(2) [of a b "[]"] base64_encode_atom_spec(2) [of a b "[]"]
    show ?thesis by (simp add: numeral_2_eq_2)
  next
    case 3
    with base64_decode_atom_spec(3) [of a b c "[]"] base64_encode_atom_spec(3) [of a b c "[]"]
    show ?thesis by (simp add: numeral_3_eq_3)
  qed
next
  show "length (base64_decode_atom atom) \<le> 3"
    by (auto simp: base64_decode_atom_def Let_def split: option.split)
next
  assume a: "length atom = 4 \<and> base64_decode_atom atom \<noteq> []"
  have v: "v = - 1 \<longleftrightarrow> c = 61" "v \<noteq> - 1 \<longleftrightarrow> b64_index c \<noteq> None" if "atom_value c = Some v" for c v
    using that uint_ge_0 [of c] by (auto simp: atom_value_def b64_index_def word_le_def split: if_splits)
  obtain c0 c1 c2 c3 where c: "atom = [c0, c1, c2, c3]" using a by (auto simp: length_4_conv)
  from a obtain v0 v1 v2 v3 where vs: "atom_value c0 = Some v0" "atom_value c1 = Some v1"
    "atom_value c2 = Some v2" "atom_value c3 = Some v3" "v0 \<noteq> - 1" "v1 \<noteq> - 1" "\<not> (v2 = - 1 \<and> v3 \<noteq> - 1)"
    by (auto simp: base64_decode_atom_def c split: option.splits if_splits)
  show "b64_index (atom ! 0) \<noteq> None" "b64_index (atom ! 1) \<noteq> None"
    "b64_index (atom ! 2) \<noteq> None \<or> atom ! 2 = 61 \<and> atom ! 3 = 61"
    "b64_index (atom ! 3) \<noteq> None \<or> atom ! 3 = 61"
    using vs v(1,2) [OF vs(1)] v(1,2) [OF vs(2)] v(1,2) [OF vs(3)] v(1,2) [OF vs(4)] by (auto simp: c)
qed

theorem base64_atom_roundtrip_witness:
  "base64_decode_atom (base64_encode_atom [222, 173] 2) = [222, 173] \<and>
   b64_index ([81, 81, 61, 61] ! 0) \<noteq> None"
proof -
  have "base64_decode_atom [81, 81, 61, 61] \<noteq> []"
    by (simp add: base64_decode_atom_def atom_value_def Let_def)
  then show ?thesis
    using base64_atom_roundtrip [of "[222, 173]" "[81, 81, 61, 61]"] by (simp add: numeral_2_eq_2)
qed

subsection \<open>\<open>base64/base64.c\<close>\<close>

text \<open>\<open>encode64\<close>: what is stored to \<open>dest\<close>, before the final NUL.\<close>

function encode64 :: "byte list \<Rightarrow> nat \<Rightarrow> byte list" where
  "encode64 orig nbcar =
     (if nbcar \<ge> 3 then
        let octet1 = orig ! 0; octet2 = orig ! 1; octet3 = orig ! 2
        in [B64 ! unat (drop_bit 2 octet1),
            B64 ! unat (push_bit 4 (octet1 AND 3) OR drop_bit 4 octet2),
            B64 ! unat (push_bit 2 (octet2 AND 0x0F) OR drop_bit 6 octet3),
            B64 ! unat (octet3 AND 0x3F)] @ encode64 (drop 3 orig) (nbcar - 3)
      else if nbcar > 0 then
        let octet1 = orig ! 0
        in B64 ! unat (drop_bit 2 octet1) #
           (if nbcar = 1 then [B64 ! unat (push_bit 4 (octet1 AND 3)), 61]
            else let octet2 = orig ! 1
                 in [B64 ! unat (push_bit 4 (octet1 AND 3) OR drop_bit 4 octet2),
                     B64 ! unat (push_bit 2 (octet2 AND 0x0F))]) @ [61]
      else [])"
  by pat_completeness auto
termination by (relation "measure snd") auto

declare encode64.simps [simp del]

lemma encode64_spec: "encode64 (r @ junk) (length r) = b64_spec r"
proof (induction r rule: b64_spec.induct)
  case (4 a b c r)
  then show ?case
    by (subst encode64.simps) (simp add: b64c_def sext_defs numeral_2_eq_2)
qed (subst encode64.simps; simp add: b64c_def sext_defs)+

text \<open>\<open>decode64\<close> works in place: \<open>buffer\<close> is the whole array, \<open>None\<close> a read past its end. A character
  outside the alphabet leaves the entry of \<open>valcar\<close> as it was. \<open>char\<close> is signed.\<close>

definition decode64_char :: "byte \<Rightarrow> byte \<Rightarrow> byte" where
  "decode64_char car old =
     (if 65 \<le> car \<and> car \<le> 90 then car - 65
      else if 97 \<le> car \<and> car \<le> 122 then car + 26 - 97
      else if 48 \<le> car \<and> car \<le> 57 then car + 52 - 48
      else if car = 43 then 62
      else if car = 47 then 63
      else old)"

function decode64_group :: "byte list \<Rightarrow> nat \<Rightarrow> nat \<Rightarrow> byte list \<Rightarrow> (nat \<times> nat \<times> byte list) option" where
  "decode64_group buffer i posorig valcar =
     (if i < 4 then
        if posorig \<ge> length buffer then None
        else if buffer ! posorig \<noteq> 61
        then decode64_group buffer (i + 1) (posorig + 1)
               (valcar[i := decode64_char (buffer ! posorig) (valcar ! i)])
        else Some (i, posorig, valcar)
      else Some (i, posorig, valcar))"
  by pat_completeness auto
termination by (relation "measure (\<lambda>(b, i, p, v). 4 - i)") auto

declare decode64_group.simps [simp del]

lemma decode64_group_pos:
  "decode64_group buffer i posorig valcar = Some (i', pos', val') \<Longrightarrow>
     posorig \<le> pos' \<and> (i < 4 \<and> posorig < length buffer \<and> buffer ! posorig \<noteq> 61 \<longrightarrow> posorig < pos')"
proof (induction buffer i posorig valcar rule: decode64_group.induct)
  case (1 buffer i posorig valcar)
  from 1(2) show ?case
    by (subst (asm) decode64_group.simps) (auto split: if_splits dest!: 1(1))
qed

function decode64_loop :: "byte list \<Rightarrow> nat \<Rightarrow> nat \<Rightarrow> byte list \<Rightarrow> (byte list \<times> nat) option" where
  "decode64_loop buffer posorig posdest valcar =
     (if posorig \<ge> length buffer then None
      else if 32 < buffer ! posorig \<and> buffer ! posorig < 128 \<and> buffer ! posorig \<noteq> 61 then
        (case decode64_group buffer 0 posorig valcar of
           None \<Rightarrow> None
         | Some (i, posorig', v) \<Rightarrow>
             let buffer1 = buffer[posdest := push_bit 2 (v ! 0) OR drop_bit 4 (v ! 1)]
             in if i > 2 then
                  let buffer2 = buffer1[posdest + 1 := push_bit 4 (v ! 1) OR drop_bit 2 (v ! 2)]
                  in if i > 3
                     then decode64_loop (buffer2[posdest + 2 := push_bit 6 (v ! 2) OR v ! 3]) posorig' (posdest + 3) v
                     else decode64_loop buffer2 posorig' (posdest + 2) v
                else decode64_loop buffer1 posorig' (posdest + 1) v)
      else Some (buffer[posdest := 0], posdest))"
  by pat_completeness auto
termination
  by (relation "measure (\<lambda>(b, p, d, v). length b - p)") (auto dest!: decode64_group_pos)

declare decode64_loop.simps [simp del]

definition decode64 :: "byte list \<Rightarrow> (byte list \<times> nat) option" where
  "decode64 buffer = decode64_loop buffer 0 0 [0, 0, 0, 0]"

lemma decode64_char_b64c:
  assumes "x < 64"
  shows "decode64_char (b64c x) old = x"
proof -
  have "b64_index (b64c x) = Some x" by (rule b64_index_b64c [OF assms])
  then show ?thesis by (auto simp: b64_index_def decode64_char_def split: if_splits) (simp_all add: add.commute)
qed

lemma drop_Cons_nth: "drop p xs = y # ys \<Longrightarrow> p < length xs \<and> xs ! p = y \<and> drop (Suc p) xs = ys"
  by (metis Cons_nth_drop_Suc drop_all linorder_not_le list.distinct(1) list.inject)

lemma decode64_group_step:
  assumes "drop p buffer = b64c x # cs" "x < 64" "i < 4"
  shows "decode64_group buffer i p v = decode64_group buffer (i + 1) (p + 1) (v[i := x])"
  using drop_Cons_nth [OF assms(1)] assms(2,3) b64_index_b64c(2) [OF assms(2)] decode64_char_b64c [OF assms(2)]
  by (simp_all add: decode64_group.simps [of buffer i])

lemma drop_next: "drop p xs = y # ys \<Longrightarrow> drop (p + 1) xs = ys"
  using drop_Cons_nth [of p xs y ys] by simp

lemma decode64_group_pad:
  "drop p buffer = 61 # cs \<Longrightarrow> decode64_group buffer i p v = Some (i, p, v)"
  using drop_Cons_nth [of p buffer 61 cs] by (simp add: decode64_group.simps)

lemma decode64_group_full: "decode64_group buffer 4 p v = Some (4, p, v)"
  by (simp add: decode64_group.simps)

lemma take_update_next: "d < length xs \<Longrightarrow> take (Suc d) (xs[d := a]) = take d xs @ [a]"
  by (simp add: take_Suc_conv_app_nth)

lemma decode64_loop_start:
  assumes "drop p buffer = b64c x # cs" "x < 64"
  shows "decode64_loop buffer p d v =
    (case decode64_group buffer 0 p v of
           None \<Rightarrow> None
         | Some (i, posorig', v) \<Rightarrow>
             let buffer1 = buffer[d := octet1 (v ! 0) (v ! 1)]
             in if i > 2 then
                  let buffer2 = buffer1[d + 1 := octet2 (v ! 1) (v ! 2)]
                  in if i > 3
                     then decode64_loop (buffer2[d + 2 := octet3 (v ! 2) (v ! 3)]) posorig' (d + 3) v
                     else decode64_loop buffer2 posorig' (d + 2) v
                else decode64_loop buffer1 posorig' (d + 1) v)"
  using drop_Cons_nth [OF assms(1)] b64_index_b64c [OF assms(2)]
  unfolding octet_defs by (subst decode64_loop.simps) simp

lemma decode64_loop_stop:
  assumes "drop p buffer = c # cs" "c = 61 \<or> c = 0"
  shows "decode64_loop buffer p d v = Some (buffer[d := 0], d)"
  using drop_Cons_nth [OF assms(1)] assms(2) by (subst decode64_loop.simps) auto

lemma length_4_nths: "length v = 4 \<Longrightarrow> v[0 := x, 1 := y] ! 0 = x \<and> v[0 := x, 1 := y] ! 1 = y"
  by simp

lemma decode64_loop_spec:
  "drop p buffer = b64_spec r @ 0 # junk \<Longrightarrow> d \<le> p \<Longrightarrow> length v = 4 \<Longrightarrow>
   \<exists>buffer'. decode64_loop buffer p d v = Some (buffer', d + length r) \<and> length buffer' = length buffer \<and>
     take (Suc (d + length r)) buffer' = take d buffer @ r @ [0]"
proof (induction r arbitrary: buffer p d v rule: b64_spec.induct)
  case 1
  then have "drop p buffer = 0 # junk" by simp
  with decode64_loop_stop [OF this] drop_Cons_nth [OF this] 1(2) show ?case
    by (intro exI [of _ "buffer[d := 0]"]) (simp add: take_update_next)
next
  case (2 a)
  let ?x = "sext1 a" and ?y = "sext2 a 0"
  from 2(1) have d0: "drop p buffer = b64c ?x # b64c ?y # 61 # 61 # 0 # junk" by simp
  note n0 = drop_next [OF d0]
  note s0 = decode64_group_step [OF d0 sextets_small(1), of 0 v]
  note n1 = drop_next [OF n0]
  note s1 = decode64_group_step [OF n0 sextets_small(2), of 1 "v[0 := ?x]"]
  have g: "decode64_group buffer 0 p v = Some (2, p + 2, v[0 := ?x, 1 := ?y])"
    using s0 s1 decode64_group_pad [OF n1, of 2 "v[0 := ?x, 1 := ?y]"] by (simp add: numeral_2_eq_2)
  let ?b = "buffer[d := a]"
  have l: "p + 2 < length buffer" using drop_Cons_nth [OF n1] by simp
  have "drop (p + 2) ?b = 61 # 61 # 0 # junk" using n1 2(2) by simp
  then have "decode64_loop ?b (p + 2) (d + 1) v' = Some (?b[d + 1 := 0], d + 1)" for v'
    by (rule decode64_loop_stop) simp
  then have "decode64_loop buffer p d v = Some (?b[d + 1 := 0], d + 1)"
    unfolding decode64_loop_start [OF d0 sextets_small(1)] g
    using 2(3) octets_of_sextets(1) [of a 0] by simp
  moreover have "take (Suc (d + 1)) (?b[d + 1 := 0]) = take d buffer @ [a] @ [0]"
    using l 2(2) by (simp add: take_update_next)
  ultimately show ?case by simp
next
  case (3 a b)
  let ?x = "sext1 a" and ?y = "sext2 a b" and ?z = "sext3 b 0"
  from 3(1) have d0: "drop p buffer = b64c ?x # b64c ?y # b64c ?z # 61 # 0 # junk" by simp
  note n0 = drop_next [OF d0]
  note s0 = decode64_group_step [OF d0 sextets_small(1), of 0 v]
  note n1 = drop_next [OF n0]
  note s1 = decode64_group_step [OF n0 sextets_small(2), of 1 "v[0 := ?x]"]
  note n2 = drop_next [OF n1]
  note s2 = decode64_group_step [OF n1 sextets_small(3), of 2 "v[0 := ?x, 1 := ?y]"]
  have g: "decode64_group buffer 0 p v = Some (3, p + 3, v[0 := ?x, 1 := ?y, 2 := ?z])"
    using s0 s1 s2 decode64_group_pad [OF n2, of 3 "v[0 := ?x, 1 := ?y, 2 := ?z]"]
    by (simp add: numeral_2_eq_2 numeral_3_eq_3)
  let ?b = "buffer[d := a, d + 1 := b]"
  have l: "p + 3 < length buffer" using drop_Cons_nth [OF n2] by simp
  have "drop (p + 3) ?b = 61 # 0 # junk" using n2 3(2) by (simp add: numeral_3_eq_3)
  then have "decode64_loop ?b (p + 3) (d + 2) v' = Some (?b[d + 2 := 0], d + 2)" for v'
    by (rule decode64_loop_stop) simp
  then have "decode64_loop buffer p d v = Some (?b[d + 2 := 0], d + 2)"
    unfolding decode64_loop_start [OF d0 sextets_small(1)] g
    using 3(3) octets_of_sextets(1) [of a b] octets_of_sextets(2) [of a b 0] by simp
  moreover have "take (Suc (d + 2)) (?b[d + 2 := 0]) = take d buffer @ [a, b] @ [0]"
    using l 3(2) by (simp add: take_update_next)
  ultimately show ?case by (simp add: numeral_2_eq_2)
next
  case (4 a b c r)
  let ?x = "sext1 a" and ?y = "sext2 a b" and ?z = "sext3 b c" and ?t = "sext4 c"
  from 4(2) have d0: "drop p buffer = b64c ?x # b64c ?y # b64c ?z # b64c ?t # b64_spec r @ 0 # junk" by simp
  note n0 = drop_next [OF d0]
  note s0 = decode64_group_step [OF d0 sextets_small(1), of 0 v]
  note n1 = drop_next [OF n0]
  note s1 = decode64_group_step [OF n0 sextets_small(2), of 1 "v[0 := ?x]"]
  note n2 = drop_next [OF n1]
  note s2 = decode64_group_step [OF n1 sextets_small(3), of 2 "v[0 := ?x, 1 := ?y]"]
  note n3 = drop_next [OF n2]
  note s3 = decode64_group_step [OF n2 sextets_small(4), of 3 "v[0 := ?x, 1 := ?y, 2 := ?z]"]
  let ?v = "v[0 := ?x, 1 := ?y, 2 := ?z, 3 := ?t]"
  have g: "decode64_group buffer 0 p v = Some (4, p + 4, ?v)"
    using s0 s1 s2 s3 decode64_group_full [of buffer "p + 4" ?v] by (simp add: eval_nat_numeral)
  let ?b = "buffer[d := a, d + 1 := b, d + 2 := c]"
  have l: "p + 3 < length buffer" using drop_Cons_nth [OF n2] by simp
  have t: "take (Suc (Suc (Suc d))) ?b = take d buffer @ [a, b, c]"
    using l 4(3) by (simp add: take_update_next)
  have dr: "drop (p + 4) ?b = b64_spec r @ 0 # junk" using n3 4(3) by (simp add: eval_nat_numeral)
  have "length ?v = 4" using 4(4) by simp
  from 4(1) [OF dr _ this, of "d + 3"] 4(3) obtain b' where
    "decode64_loop ?b (p + 4) (d + 3) ?v = Some (b', d + 3 + length r)" "length b' = length buffer"
    "take (Suc (d + 3 + length r)) b' = take (d + 3) ?b @ r @ [0]" by auto
  moreover have "decode64_loop buffer p d v = decode64_loop ?b (p + 4) (d + 3) ?v"
    unfolding decode64_loop_start [OF d0 sextets_small(1)] g
    using 4(4) octets_of_sextets(1) [of a b] octets_of_sextets(2) [of a b c] octets_of_sextets(3) [of b c] by simp
  ultimately show ?case using t by (simp add: add.commute numeral_3_eq_3)
qed

text \<open>\<open>encode64\<close> and the in-place \<open>decode64\<close>. Decoding the string \<open>encode64\<close> wrote, in its own
  buffer and with anything behind it, returns the original length and leaves exactly the original
  bytes, terminated; no read or write leaves the buffer, and the length of the encoding is the
  one callers must provide room for.\<close>

theorem encode64_decode64:
  "length (encode64 orig (length orig)) = 4 * ((length orig + 2) div 3) \<and>
   (\<exists>buffer. decode64 (encode64 orig (length orig) @ 0 # junk) = Some (buffer, length orig) \<and>
      take (Suc (length orig)) buffer = orig @ [0])"
proof -
  have e: "encode64 orig (length orig) = b64_spec orig" using encode64_spec [of orig "[]"] by simp
  show ?thesis
    using decode64_loop_spec [of 0 "b64_spec orig @ 0 # junk" orig junk 0 "[0, 0, 0, 0]"]
    by (auto simp: e length_b64_spec decode64_def)
qed

subsection \<open>The streaming codec of \<open>far2l/\<close>\<close>

datatype base64_encodestep = step_A | step_B | step_C

record base64_encodestate =
  estep :: base64_encodestep
  result :: byte
  stepcount :: nat

definition CHARS_PER_LINE :: nat where "CHARS_PER_LINE = 72"

definition base64_init_encodestate :: base64_encodestate where
  "base64_init_encodestate = \<lparr>estep = step_A, result = 0, stepcount = 0\<rparr>"

text \<open>The values passed are masked below 64, so the sign of \<open>char\<close> plays no part.\<close>

definition base64_encode_value :: "byte \<Rightarrow> byte" where
  "base64_encode_value value_in = (if value_in > 63 then 61 else B64 ! unat value_in)"

text \<open>One character of the input, at the step the state is in: what is written, and the next state.\<close>

definition encode_step :: "byte \<Rightarrow> base64_encodestate \<Rightarrow> byte list \<times> base64_encodestate" where
  "encode_step fragment st =
     (case estep st of
        step_A \<Rightarrow>
          ([base64_encode_value (drop_bit 2 (fragment AND 0xfc))],
           st\<lparr>result := push_bit 4 (fragment AND 0x03), estep := step_B\<rparr>)
      | step_B \<Rightarrow>
          ([base64_encode_value (result st OR drop_bit 4 (fragment AND 0xf0))],
           st\<lparr>result := push_bit 2 (fragment AND 0x0f), estep := step_C\<rparr>)
      | step_C \<Rightarrow>
          ([base64_encode_value (result st OR drop_bit 6 (fragment AND 0xc0)),
            base64_encode_value (fragment AND 0x3f)],
           st\<lparr>result := fragment AND 0x3f, estep := step_A,
             stepcount := (if stepcount st + 1 = CHARS_PER_LINE div 4 then 0 else stepcount st + 1)\<rparr>))"

fun base64_encode_block :: "byte list \<Rightarrow> base64_encodestate \<Rightarrow> byte list \<times> base64_encodestate" where
  "base64_encode_block [] st = ([], st)"
| "base64_encode_block (c # plain) st =
     (case encode_step c st of
        (code, st1) \<Rightarrow> case base64_encode_block plain st1 of (code', st2) \<Rightarrow> (code @ code', st2))"

definition base64_encode_blockend :: "base64_encodestate \<Rightarrow> byte list" where
  "base64_encode_blockend st =
     (case estep st of
        step_B \<Rightarrow> [base64_encode_value (result st), 61, 61]
      | step_C \<Rightarrow> [base64_encode_value (result st), 61]
      | step_A \<Rightarrow> [])"

datatype base64_decodestep = step_a | step_b | step_c | step_d

record base64_decodestate =
  dstep :: base64_decodestep
  plainchar :: byte

definition base64_init_decodestate :: base64_decodestate where
  "base64_init_decodestate = \<lparr>dstep = step_a, plainchar = 0\<rparr>"

definition decoding :: "int list" where
  "decoding = [62,-1,-1,-1,63,52,53,54,55,56,57,58,59,60,61,-1,-1,-1,-2,-1,-1,-1,0,1,2,3,4,5,6,7,8,9,
     10,11,12,13,14,15,16,17,18,19,20,21,22,23,24,25,-1,-1,-1,-1,-1,-1,26,27,28,29,30,31,32,33,34,35,
     36,37,38,39,40,41,42,43,44,45,46,47,48,49,50,51]"

text \<open>\<open>base64_decode_value\<close>: the subtraction is on \<open>char\<close> (8 bits, signed). \<open>None\<close>: the index is
  \<open>decoding_size\<close>, one past the end of the table, which the test lets through.\<close>

definition base64_decode_value :: "byte \<Rightarrow> int option" where
  "base64_decode_value c =
     (let value_in = sint (c - 43) in
      if value_in < 0 \<or> value_in > int (length decoding) then Some (- 1)
      else if nat value_in < length decoding then Some (decoding ! nat value_in) else None)"

text \<open>One accepted character: the completed byte, if any, and the next state; \<open>plainchar\<close> is the byte
  being assembled at \<open>*plainchar\<close>.\<close>

definition decode_accept :: "byte \<Rightarrow> base64_decodestate \<Rightarrow> byte list \<times> base64_decodestate" where
  "decode_accept fragment st =
     (case dstep st of
        step_a \<Rightarrow> ([], st\<lparr>plainchar := push_bit 2 (fragment AND 0x3f), dstep := step_b\<rparr>)
      | step_b \<Rightarrow>
          ([plainchar st OR drop_bit 4 (fragment AND 0x30)],
           st\<lparr>plainchar := push_bit 4 (fragment AND 0x0f), dstep := step_c\<rparr>)
      | step_c \<Rightarrow>
          ([plainchar st OR drop_bit 2 (fragment AND 0x3c)],
           st\<lparr>plainchar := push_bit 6 (fragment AND 0x03), dstep := step_d\<rparr>)
      | step_d \<Rightarrow> ([plainchar st OR (fragment AND 0x3f)], st\<lparr>dstep := step_a\<rparr>))"

fun base64_decode_block :: "byte list \<Rightarrow> base64_decodestate \<Rightarrow> (byte list \<times> base64_decodestate) option" where
  "base64_decode_block [] st = Some ([], st)"
| "base64_decode_block (c # code) st =
     (case base64_decode_value c of
        None \<Rightarrow> None
      | Some v \<Rightarrow>
          if v < 0 then base64_decode_block code st
          else case decode_accept (word_of_int v) st of
                 (out, st1) \<Rightarrow> map_option (\<lambda>(out', st2). (out @ out', st2)) (base64_decode_block code st1))"

lemma base64_encode_block_append:
  "base64_encode_block (xs @ ys) st =
     (case base64_encode_block xs st of
        (c1, st1) \<Rightarrow> case base64_encode_block ys st1 of (c2, st2) \<Rightarrow> (c1 @ c2, st2))"
  by (induction xs arbitrary: st) (auto split: prod.splits)

lemma base64_encode_value_b64c: "x < 64 \<Longrightarrow> base64_encode_value x = b64c x"
  by (auto simp: base64_encode_value_def b64c_def word_less_nat_alt)

lemma encode_step_sextets:
  "drop_bit 2 (a AND 0xfc) = sext1 a" "push_bit 4 (a AND 3) OR drop_bit 4 (b AND 0xf0) = sext2 a b"
  "push_bit 2 (b AND 15) OR drop_bit 6 (c AND 0xc0) = sext3 b c" "c AND 63 = sext4 c"
  "push_bit 4 (a AND 3) = sext2 a 0" "push_bit 2 (b AND 15) = sext3 b 0" for a b c :: byte
proof -
  have m: "(0xfc :: byte) = NOT (mask 2)" "(0xf0 :: byte) = NOT (mask 4)" "(0xc0 :: byte) = NOT (mask 6)"
    by (simp_all add: mask_eq_exp_minus_1)
  show "drop_bit 2 (a AND 0xfc) = sext1 a" unfolding m sext_defs
    by (rule byte_eqI) (auto simp: bit_simps dest: bit_byte_lt)
  show "push_bit 4 (a AND 3) OR drop_bit 4 (b AND 0xf0) = sext2 a b" unfolding m sext_defs
    by (rule byte_eqI) (auto simp: bit_simps dest: bit_byte_lt)
  show "push_bit 2 (b AND 15) OR drop_bit 6 (c AND 0xc0) = sext3 b c" unfolding m sext_defs
    by (rule byte_eqI) (auto simp: bit_simps dest: bit_byte_lt)
  show "c AND 63 = sext4 c" "push_bit 4 (a AND 3) = sext2 a 0" "push_bit 2 (b AND 15) = sext3 b 0"
    by (simp_all add: sext_defs)
qed

lemmas encode_step_joined = encode_step_sextets(2,3) [unfolded encode_step_sextets(5,6)]

lemma encode_block_spec:
  "estep st = step_A \<Longrightarrow>
     fst (base64_encode_block r st) @ base64_encode_blockend (snd (base64_encode_block r st)) = b64_spec r"
proof (induction r arbitrary: st rule: b64_spec.induct)
  case (4 a b c r)
  obtain code1 st1 where s: "base64_encode_block [a, b, c] st = (code1, st1)" by fastforce
  then have s1: "estep st1 = step_A" "code1 = b64_spec [a, b, c]"
    using "4.prems" by (auto simp: encode_step_def encode_step_sextets encode_step_joined base64_encode_value_b64c sextets_small
        simp del: push_bit_and drop_bit_and)
  from "4.IH" [OF s1(1)] s s1(2) base64_encode_block_append [of "[a, b, c]" r st]
  show ?case by (simp split: prod.splits)
qed (simp_all add: encode_step_def base64_encode_blockend_def encode_step_sextets encode_step_joined
      base64_encode_value_b64c sextets_small del: push_bit_and drop_bit_and)

lemma base64_decode_value_b64c:
  assumes "x < 64"
  shows "base64_decode_value (b64c x) = Some (uint x)"
proof -
  have "list_all (\<lambda>i. base64_decode_value (B64 ! i) = Some (int i)) [0..<64]" by code_simp
  then have "\<forall>i<64. base64_decode_value (B64 ! i) = Some (int i)"
    by (simp only: list_all_iff set_upt atLeastLessThan_iff) simp
  moreover have "unat x < 64" using assms by (simp add: word_less_nat_alt)
  ultimately show ?thesis by (simp add: b64c_def)
qed

lemma base64_decode_value_pad [simp]: "base64_decode_value 61 = Some (- 2)"
  by code_simp

lemma base64_decode_block_append:
  "base64_decode_block (xs @ ys) st =
     (case base64_decode_block xs st of
        None \<Rightarrow> None
      | Some (o1, st1) \<Rightarrow> map_option (\<lambda>(o2, st2). (o1 @ o2, st2)) (base64_decode_block ys st1))"
  by (induction xs arbitrary: st)
    (auto split: option.splits prod.splits simp: option.map_comp comp_def map_option_case)

lemma accept_octets:
  assumes "x < 64" "y < 64" "z < 64" "t < 64"
  shows "push_bit 2 (x AND 63) OR drop_bit 4 (y AND 48) = octet1 x y"
    "push_bit 4 (y AND 15) OR drop_bit 2 (z AND 60) = octet2 y z"
    "push_bit 6 (z AND 3) OR t AND 63 = octet3 z t"
proof -
  note b = small_bits [OF assms(1)] small_bits [OF assms(2)] small_bits [OF assms(3)]
    small_bits [OF assms(4)] bit_byte_lt
  have m: "(48 :: byte) = mask 6 AND NOT (mask 4)" "(60 :: byte) = mask 6 AND NOT (mask 2)"
    by (simp_all add: mask_eq_exp_minus_1)
  show "push_bit 2 (x AND 63) OR drop_bit 4 (y AND 48) = octet1 x y"
    unfolding octet_defs mask_bits m by (rule byte_eqI) (auto simp: bit_simps b)
  show "push_bit 4 (y AND 15) OR drop_bit 2 (z AND 60) = octet2 y z"
    unfolding octet_defs mask_bits m by (rule byte_eqI) (auto simp: bit_simps b)
  show "push_bit 6 (z AND 3) OR t AND 63 = octet3 z t"
    unfolding octet_defs mask_bits m by (rule byte_eqI) (auto simp: bit_simps b)
qed

lemma decode_block_step:
  "x < 64 \<Longrightarrow> base64_decode_block (b64c x # code) st =
     (case decode_accept x st of
        (out, st1) \<Rightarrow> map_option (\<lambda>(out', st2). (out @ out', st2)) (base64_decode_block code st1))"
  by (simp add: base64_decode_value_b64c)

lemma decode_block_pad: "base64_decode_block (61 # code) st = base64_decode_block code st"
  by simp

lemma decode_block_spec:
  "dstep st = step_a \<Longrightarrow> \<exists>st'. base64_decode_block (b64_spec r) st = Some (r, st')"
proof (induction r arbitrary: st rule: b64_spec.induct)
  case 1
  then show ?case by simp
next
  case (2 a)
  then show ?case
    using accept_octets(1) [OF sextets_small(1,2) sextets_small(3,4)] octets_of_sextets(1) [of a 0]
    by (simp add: decode_block_step decode_block_pad sextets_small decode_accept_def
        del: base64_decode_block.simps(2) push_bit_and drop_bit_and)
next
  case (3 a b)
  then show ?case
    using accept_octets(1) [OF sextets_small(1,2) sextets_small(3,4)] octets_of_sextets(1) [of a b]
      accept_octets(2) [OF sextets_small(1,2) sextets_small(3,4)] octets_of_sextets(2) [of a b 0]
    by (simp add: decode_block_step decode_block_pad sextets_small decode_accept_def
        del: base64_decode_block.simps(2) push_bit_and drop_bit_and)
next
  case (4 a b c r)
  have "\<exists>st1. dstep st1 = step_a \<and> base64_decode_block (b64_spec [a, b, c]) st = Some ([a, b, c], st1)"
    using "4.prems" accept_octets(1) [OF sextets_small(1,2) sextets_small(3,4)] octets_of_sextets(1) [of a b]
      accept_octets(2) [OF sextets_small(1,2) sextets_small(3,4)] octets_of_sextets(2) [of a b c]
      accept_octets(3) [OF sextets_small(1,2) sextets_small(3,4)] octets_of_sextets(3) [of b c]
    by (simp add: decode_block_step decode_block_pad sextets_small decode_accept_def
        del: base64_decode_block.simps(2) push_bit_and drop_bit_and)
  then obtain st1 where s: "dstep st1 = step_a"
    "base64_decode_block (b64_spec [a, b, c]) st = Some ([a, b, c], st1)" by blast
  from "4.IH" [OF s(1)] obtain st' where "base64_decode_block (b64_spec r) st1 = Some (r, st')" by blast
  with s(2) base64_decode_block_append [of "b64_spec [a, b, c]" "b64_spec r" st] show ?case by simp
qed

text \<open>Any number of calls, each continuing from the state the one before left.\<close>

fun encode_blocks :: "byte list list \<Rightarrow> base64_encodestate \<Rightarrow> byte list \<times> base64_encodestate" where
  "encode_blocks [] st = ([], st)"
| "encode_blocks (b # bs) st =
     (case base64_encode_block b st of
        (c, st1) \<Rightarrow> case encode_blocks bs st1 of (cs, st2) \<Rightarrow> (c @ cs, st2))"

fun decode_blocks :: "byte list list \<Rightarrow> base64_decodestate \<Rightarrow> (byte list \<times> base64_decodestate) option" where
  "decode_blocks [] st = Some ([], st)"
| "decode_blocks (b # bs) st =
     (case base64_decode_block b st of
        None \<Rightarrow> None
      | Some (p, st1) \<Rightarrow> (case decode_blocks bs st1 of None \<Rightarrow> None | Some (ps, st2) \<Rightarrow> Some (p @ ps, st2)))"

lemma encode_blocks_concat: "encode_blocks bs st = base64_encode_block (concat bs) st"
  by (induction bs arbitrary: st) (auto simp: base64_encode_block_append split: prod.splits)

lemma decode_blocks_concat: "decode_blocks bs st = base64_decode_block (concat bs) st"
  by (induction bs arbitrary: st) (auto simp: base64_decode_block_append split: option.splits prod.splits)

text \<open>C16: the far2l stream codec. Encoding data in any number of blocks, of any lengths, followed by
  \<open>base64_encode_blockend\<close> gives the standard encoding of all of it, and decoding that text in any
  number of blocks gives the data back: the state carried between blocks loses nothing wherever
  the blocks are cut.\<close>

theorem base64_stream_roundtrip:
  assumes "encode_blocks plains base64_init_encodestate = (code, st)"
    and "concat texts = code @ base64_encode_blockend st"
  shows "code @ base64_encode_blockend st = b64_spec (concat plains) \<and>
    (\<exists>st'. decode_blocks texts base64_init_decodestate = Some (concat plains, st'))"
proof -
  have "code @ base64_encode_blockend st = b64_spec (concat plains)"
    using encode_block_spec [of base64_init_encodestate "concat plains"] assms(1)
    by (simp add: base64_init_encodestate_def encode_blocks_concat)
  moreover obtain st' where "base64_decode_block (b64_spec (concat plains)) base64_init_decodestate =
      Some (concat plains, st')"
    using decode_block_spec [of base64_init_decodestate] by (auto simp: base64_init_decodestate_def)
  ultimately show ?thesis using assms(2) by (simp add: decode_blocks_concat)
qed

theorem base64_stream_roundtrip_witness:
  "\<exists>st'. decode_blocks [[84], [87, 69], [61]] base64_init_decodestate = Some ([77, 97], st')"
proof -
  have e: "encode_blocks [[77], [], [97]] base64_init_encodestate = ([84, 87], \<lparr>estep = step_C, result = 4, stepcount = 0\<rparr>)"
    by code_simp
  have t: "concat [[84], [87, 69], [61]] = [84, 87] @ base64_encode_blockend \<lparr>estep = step_C, result = 4, stepcount = 0\<rparr>"
    by code_simp
  from base64_stream_roundtrip [OF e t] show ?thesis by simp
qed

end
