(* ===== verification/Kcrypt.thy ===== *)
theory Kcrypt
  imports Base64
begin

text \<open>
  The obfuscation of saved secrets: \<open>bcrypt/bcrypt.c\<close> (format \<open>SCT1 | salt | nonce | tag |
  ciphertext\<close> in base64, over the Windows CNG), and \<open>kitty_crypt.c\<close> (the pass key, the password
  wrappers, \<open>MASKPASS\<close>, the Latin-1/UTF-8 mappers). CNG, \<open>malloc\<close> and the file system are the record
  \<open>sys\<close>; \<open>sys_laws\<close> states what CNG documents: random buffers have the size asked for, and
  authenticated decryption with the same key, nonce and tag inverts encryption, which keeps the
  length. Key material is wiped by the code; the wiping has no functional effect.
\<close>

subsection \<open>The system\<close>

datatype algorithm = BCRYPT_SHA256_ALGORITHM | BCRYPT_AES_ALGORITHM

record sys =
  open_provider :: "algorithm \<Rightarrow> bool"
  set_chaining_gcm :: bool
  derive_pbkdf2 :: "byte list \<Rightarrow> byte list \<Rightarrow> nat \<Rightarrow> nat \<Rightarrow> byte list option"
  generate_key :: "byte list \<Rightarrow> bool"
  cng_encrypt :: "byte list \<Rightarrow> byte list \<Rightarrow> byte list \<Rightarrow> (byte list \<times> byte list) option"
  cng_decrypt :: "byte list \<Rightarrow> byte list \<Rightarrow> byte list \<Rightarrow> byte list \<Rightarrow> byte list option"
  gen_random :: "nat \<Rightarrow> nat \<Rightarrow> byte list option"  \<comment> \<open>the \<open>i\<close>-th call, \<open>n\<close> bytes\<close>
  malloc_ok :: "nat \<Rightarrow> bool"

definition sys_laws :: "sys \<Rightarrow> bool" where
  "sys_laws s \<longleftrightarrow>
     (\<forall>i n b. gen_random s i n = Some b \<longrightarrow> length b = n) \<and>
     (\<forall>key nonce plain c tag. cng_encrypt s key nonce plain = Some (c, tag) \<longrightarrow>
        length c = length plain \<and> length tag = 16 \<and> cng_decrypt s key nonce tag c = Some plain)"

definition MAGIC :: "byte list" where "MAGIC = [83, 67, 84, 49]"
definition MAGIC_LEN :: nat where "MAGIC_LEN = 4"
definition SALT_LEN :: nat where "SALT_LEN = 16"
definition NONCE_LEN :: nat where "NONCE_LEN = 12"
definition TAG_LEN :: nat where "TAG_LEN = 16"
definition HEADER_LEN :: nat where "HEADER_LEN = MAGIC_LEN + SALT_LEN + NONCE_LEN + TAG_LEN"
definition KDF_ITERATIONS :: nat where "KDF_ITERATIONS = 1000"
definition BCRYPT_MAX_OUTPUT :: nat where "BCRYPT_MAX_OUTPUT = 4000"

lemmas len_defs = MAGIC_LEN_def SALT_LEN_def NONCE_LEN_def TAG_LEN_def HEADER_LEN_def

subsection \<open>CNG wrappers\<close>

text \<open>\<open>None\<close> is the return value 0. A NULL key is the empty one.\<close>

definition derive_key :: "sys \<Rightarrow> byte list option \<Rightarrow> byte list \<Rightarrow> byte list option" where
  "derive_key s key salt =
     (if \<not> open_provider s BCRYPT_SHA256_ALGORITHM then None
      else derive_pbkdf2 s (case key of None \<Rightarrow> [] | Some k \<Rightarrow> k) (take SALT_LEN salt) KDF_ITERATIONS 32)"

definition aes_gcm_ready :: "sys \<Rightarrow> byte list \<Rightarrow> bool" where
  "aes_gcm_ready s key \<longleftrightarrow> open_provider s BCRYPT_AES_ALGORITHM \<and> set_chaining_gcm s \<and> generate_key s key"

definition aes_gcm_encrypt :: "sys \<Rightarrow> byte list \<Rightarrow> byte list \<Rightarrow> byte list \<Rightarrow> (byte list \<times> byte list) option" where
  "aes_gcm_encrypt s key nonce plain =
     (if aes_gcm_ready s key then cng_encrypt s key (take NONCE_LEN nonce) plain else None)"

definition aes_gcm_decrypt :: "sys \<Rightarrow> byte list \<Rightarrow> byte list \<Rightarrow> byte list \<Rightarrow> byte list \<Rightarrow> byte list option" where
  "aes_gcm_decrypt s key nonce tag inp =
     (if aes_gcm_ready s key then cng_decrypt s key (take NONCE_LEN nonce) (take TAG_LEN tag) inp else None)"

subsection \<open>Strings\<close>

text \<open>The return value and what is written from \<open>st_out\<close> on, if anything; \<open>st_in\<close> is the memory at the
  input pointer (\<open>None\<close> for NULL). The input is read entirely before \<open>st_out\<close> is written, so the
  result is the same when the two are one buffer.\<close>

definition bcrypt_string_base64 ::
    "sys \<Rightarrow> byte list option \<Rightarrow> bool \<Rightarrow> nat \<Rightarrow> byte list option \<Rightarrow> nat \<Rightarrow> int \<times> byte list option" where
  "bcrypt_string_base64 s st_in st_out_null len key maxlinesize =
     (case st_in of
        None \<Rightarrow> (0, None)
      | Some inp \<Rightarrow>
          if st_out_null then (0, None)
          else if b64_encoded_len (HEADER_LEN + len) maxlinesize \<ge> BCRYPT_MAX_OUTPUT then (0, None)
          else (case (gen_random s 0 SALT_LEN, gen_random s 1 NONCE_LEN) of
             (Some salt, Some nonce) \<Rightarrow>
               (case derive_key s key salt of
                  None \<Rightarrow> (0, None)
                | Some dk \<Rightarrow>
                    if \<not> malloc_ok s (HEADER_LEN + len) then (0, None)
                    else (case aes_gcm_encrypt s dk nonce (take len inp) of
                       None \<Rightarrow> (0, None)
                     | Some (c, tag) \<Rightarrow>
                         let blob = MAGIC @ salt @ nonce @ tag @ c;
                             out = b64_encode blob maxlinesize
                         in (int (length out), Some (out @ [0]))))
           | _ \<Rightarrow> (0, None)))"

definition buncrypt_string_base64 ::
    "sys \<Rightarrow> byte list option \<Rightarrow> bool \<Rightarrow> nat \<Rightarrow> byte list option \<Rightarrow> int \<times> byte list option" where
  "buncrypt_string_base64 s st_in st_out_null len key =
     (case st_in of
        None \<Rightarrow> (0, None)
      | Some inp \<Rightarrow>
          if st_out_null \<or> len = 0 then (0, None)
          else if \<not> malloc_ok s (len + 4) then (0, None)
          else
            let blob = b64_decode (take len inp); bloblen = length blob
            in if bloblen < HEADER_LEN \<or> take MAGIC_LEN blob \<noteq> MAGIC then (0, None)
               else
                 let plainlen = bloblen - HEADER_LEN
                 in if \<not> malloc_ok s (plainlen + 1) then (0, None)
                    else (case derive_key s key (drop MAGIC_LEN blob) of
                       None \<Rightarrow> (0, None)
                     | Some dk \<Rightarrow>
                         (case aes_gcm_decrypt s dk
                                 (drop (MAGIC_LEN + SALT_LEN) blob)
                                 (drop (MAGIC_LEN + SALT_LEN + NONCE_LEN) blob)
                                 (drop HEADER_LEN blob) of
                            None \<Rightarrow> (0, None)
                          | Some plain \<Rightarrow>
                              (int plainlen, Some (take plainlen plain @ [0])))))"

text \<open>The variants of the interface that ignore the extra pattern.\<close>

definition bcrypt_string where
  "bcrypt_string s st_in st_out_null len init_pattern key maxlinesize =
     (let _ = (init_pattern :: byte list option) in bcrypt_string_base64 s st_in st_out_null len key maxlinesize)"

definition buncrypt_string where
  "buncrypt_string s st_in st_out_null len init_pattern key =
     (let _ = (init_pattern :: byte list option) in buncrypt_string_base64 s st_in st_out_null len key)"

definition bcrypt_string_auto where
  "bcrypt_string_auto s st len init_pattern key maxlinesize =
     (let _ = (init_pattern :: byte list option)
      in bcrypt_string_base64 s st (st = None) len key maxlinesize)"

definition buncrypt_string_auto where
  "buncrypt_string_auto s st len init_pattern key =
     (let _ = (init_pattern :: byte list option) in buncrypt_string_base64 s st (st = None) len key)"

subsection \<open>Files\<close>

text \<open>A file system: the contents by name, which names can be created, and how many bytes a write
  can store.\<close>

record files =
  contents :: "byte list \<Rightarrow> byte list option"
  can_create :: "byte list \<Rightarrow> bool"
  room :: nat

definition slurp :: "sys \<Rightarrow> files \<Rightarrow> byte list \<Rightarrow> byte list option" where
  "slurp s fs filename =
     (case contents fs filename of
        None \<Rightarrow> None
      | Some data \<Rightarrow> if malloc_ok s (length data + 1) then Some data else None)"

definition spew :: "files \<Rightarrow> byte list \<Rightarrow> byte list \<Rightarrow> bool \<times> files" where
  "spew fs filename buf =
     (if \<not> can_create fs filename then (False, fs)
      else (length (take (room fs) buf) = length buf,
            fs\<lparr>contents := (contents fs)(filename := Some (take (room fs) buf))\<rparr>))"

definition bcrypt_file_base64 ::
    "sys \<Rightarrow> files \<Rightarrow> byte list \<Rightarrow> byte list \<Rightarrow> byte list option \<Rightarrow> nat \<Rightarrow> int \<times> files" where
  "bcrypt_file_base64 s fs filename_in filename_out key maxlinesize =
     (case slurp s fs filename_in of
        None \<Rightarrow> (0, fs)
      | Some inp \<Rightarrow>
          if \<not> malloc_ok s (b64_encoded_len (HEADER_LEN + length inp) maxlinesize + 2) then (0, fs)
          else (case (gen_random s 0 SALT_LEN, gen_random s 1 NONCE_LEN) of
             (Some salt, Some nonce) \<Rightarrow>
               (case derive_key s key salt of
                  None \<Rightarrow> (0, fs)
                | Some dk \<Rightarrow>
                    if \<not> malloc_ok s (HEADER_LEN + length inp) then (0, fs)
                    else (case aes_gcm_encrypt s dk nonce inp of
                       None \<Rightarrow> (0, fs)
                     | Some (c, tag) \<Rightarrow>
                         let blob = MAGIC @ salt @ nonce @ tag @ c;
                             out = b64_encode blob maxlinesize;
                             n = int (length out);
                             r = spew fs filename_out out
                         in (if fst r then n else 0, snd r)))
           | _ \<Rightarrow> (0, fs)))"

definition buncrypt_file_base64 ::
    "sys \<Rightarrow> files \<Rightarrow> byte list \<Rightarrow> byte list \<Rightarrow> byte list option \<Rightarrow> int \<times> files" where
  "buncrypt_file_base64 s fs filename filename_out key =
     (case slurp s fs filename of
        None \<Rightarrow> (0, fs)
      | Some inp \<Rightarrow>
          if \<not> malloc_ok s (length inp + 1) then (0, fs)
          else (case buncrypt_string_base64 s (Some (inp @ [0])) False (length inp) key of
             (n, Some out) \<Rightarrow>
               if n > 0
               then (let r = spew fs filename_out (take (nat n) out) in (if fst r then n else 0, snd r))
               else (0, fs)
           | (n, None) \<Rightarrow> (0, fs)))"

subsection \<open>Encrypting and decrypting\<close>

lemma b64_decode_take: "b64_decode (take (length (b64_encode r m)) (b64_encode r m @ z)) = r"
  by (simp add: b64_decode_encode)

lemma gcm_round:
  assumes "sys_laws s" "aes_gcm_encrypt s dk nonce plain = Some (c, tag)" "length nonce = NONCE_LEN"
  shows "length c = length plain" "length tag = TAG_LEN" "aes_gcm_decrypt s dk (nonce @ x) (tag @ y) c = Some plain"
  using assms by (auto simp: sys_laws_def aes_gcm_encrypt_def aes_gcm_decrypt_def len_defs split: if_splits)

lemma bcrypt_success:
  assumes "sys_laws s" and "bcrypt_string_base64 s (Some inp) False len key m = (n, Some w)"
  obtains salt nonce tag c dk out where "n = int (length out)" "w = out @ [0]"
    "out = b64_encode (MAGIC @ salt @ nonce @ tag @ c) m" "length salt = SALT_LEN"
    "length nonce = NONCE_LEN" "length tag = TAG_LEN" "length c = length (take len inp)"
    "derive_key s key salt = Some dk" "aes_gcm_encrypt s dk nonce (take len inp) = Some (c, tag)"
    "b64_encoded_len (HEADER_LEN + len) m < BCRYPT_MAX_OUTPUT"
proof -
  from assms(2) obtain salt nonce dk c tag where *: "gen_random s 0 SALT_LEN = Some salt"
    "gen_random s 1 NONCE_LEN = Some nonce" "derive_key s key salt = Some dk"
    "aes_gcm_encrypt s dk nonce (take len inp) = Some (c, tag)"
    "w = b64_encode (MAGIC @ salt @ nonce @ tag @ c) m @ [0]"
    "n = int (length (b64_encode (MAGIC @ salt @ nonce @ tag @ c) m))"
    "b64_encoded_len (HEADER_LEN + len) m < BCRYPT_MAX_OUTPUT"
    by (auto simp: bcrypt_string_base64_def Let_def split: if_splits option.splits)
  have "length salt = SALT_LEN" "length nonce = NONCE_LEN"
    using assms(1) *(1,2) by (simp_all add: sys_laws_def)
  with * gcm_round [OF assms(1) *(4)] that show thesis by blast
qed

lemma b64_encoded_len_mono: "a \<le> b \<Longrightarrow> b64_encoded_len a m \<le> b64_encoded_len b m"
proof -
  assume "a \<le> b"
  then have *: "(a + 2) div 3 * 4 \<le> (b + 2) div 3 * 4" by (intro mult_le_mono1 div_le_mono) simp
  then have "((a + 2) div 3 * 4 - 1) div m \<le> ((b + 2) div 3 * 4 - 1) div m" by (intro div_le_mono) simp
  with * show ?thesis by (auto simp: b64_encoded_len_def Let_def)
qed

lemma blob_fields:
  assumes "length salt = SALT_LEN" "length nonce = NONCE_LEN" "length tag = TAG_LEN"
    and "blob = MAGIC @ salt @ nonce @ tag @ c"
  shows "take MAGIC_LEN blob = MAGIC" "length blob = HEADER_LEN + length c"
    "take SALT_LEN (drop MAGIC_LEN blob) = salt"
    "drop (MAGIC_LEN + SALT_LEN) blob = nonce @ tag @ c"
    "drop (MAGIC_LEN + SALT_LEN + NONCE_LEN) blob = tag @ c" "drop HEADER_LEN blob = c"
  using assms by (simp_all add: len_defs MAGIC_def)

lemma derive_key_take: "take SALT_LEN a = take SALT_LEN b \<Longrightarrow> derive_key s key a = derive_key s key b"
  by (simp add: derive_key_def)

lemma buncrypt_blob:
  assumes "sys_laws s" "length salt = SALT_LEN" "length nonce = NONCE_LEN"
    "derive_key s key salt = Some dk" "aes_gcm_encrypt s dk nonce plain = Some (c, tag)"
    "inp = b64_encode (MAGIC @ salt @ nonce @ tag @ c) m" "\<And>k. malloc_ok s k"
  shows "buncrypt_string_base64 s (Some (inp @ z)) False (length inp) key =
    (int (length plain), Some (plain @ [0]))"
proof -
  obtain blob where blob: "blob = MAGIC @ salt @ nonce @ tag @ c" by simp
  note g = gcm_round [OF assms(1,5,3)]
  note b = blob_fields [OF assms(2,3) g(2) blob]
  have d: "b64_decode inp = blob" unfolding assms(6) blob by (rule b64_decode_encode)
  have "inp \<noteq> []" using d b64_decode_def [of "[]"] by (auto simp: MAGIC_def blob)
  moreover have "derive_key s key (drop MAGIC_LEN blob) = derive_key s key salt"
    by (rule derive_key_take) (use b(3) assms(2) in simp)
  then have "derive_key s key (drop MAGIC_LEN blob) = Some dk" using assms(4) by simp
  moreover have "aes_gcm_decrypt s dk (nonce @ tag @ c) (tag @ c) c = Some plain" by (rule g(3))
  ultimately show ?thesis
    unfolding buncrypt_string_base64_def using assms(7) b g(1) by (simp add: d Let_def)
qed

text \<open>C17: saved secrets survive. With CNG behaving as documented, whatever \<open>bcrypt_string_base64\<close> accepts
  (any bytes, NULs included, any key, any line length) \<open>buncrypt_string_base64\<close> with the same key
  turns back into exactly those bytes; the value returned is the length of the text, as the callers
  rely on, and the text with its NUL stays below the 4000-byte ceiling.\<close>

theorem bcrypt_roundtrip:
  assumes "sys_laws s" and "\<And>k. malloc_ok s k" and "len \<le> length inp"
    and "bcrypt_string_base64 s (Some inp) False len key m = (n, Some w)"
  shows "w = take (nat n) w @ [0] \<and> 0 < n \<and> length w \<le> BCRYPT_MAX_OUTPUT \<and> 0 \<notin> set (take (nat n) w) \<and>
    buncrypt_string_base64 s (Some w) False (nat n) key = (int len, Some (take len inp @ [0]))"
proof -
  obtain salt nonce tag c dk out where *: "n = int (length out)" "w = out @ [0]"
    "out = b64_encode (MAGIC @ salt @ nonce @ tag @ c) m" "length salt = SALT_LEN"
    "length nonce = NONCE_LEN" "length tag = TAG_LEN" "length c = length (take len inp)"
    "derive_key s key salt = Some dk" "aes_gcm_encrypt s dk nonce (take len inp) = Some (c, tag)"
    "b64_encoded_len (HEADER_LEN + len) m < BCRYPT_MAX_OUTPUT"
    by (rule bcrypt_success [OF assms(1,4)])
  have "length (MAGIC @ salt @ nonce @ tag @ c) = HEADER_LEN + len"
    using *(4-7) assms(3) by (simp add: len_defs MAGIC_def)
  then have l: "length out = b64_encoded_len (HEADER_LEN + len) m"
    unfolding *(3) b64_encode_length by simp
  moreover have "0 < b64_encoded_len (HEADER_LEN + len) m"
    by (simp add: b64_encoded_len_def len_defs Let_def div_greater_zero_iff)
  ultimately show ?thesis
    using buncrypt_blob [OF assms(1) *(4,5,8,9,3) assms(2), of "[0]"] *(1,2,10) assms(3)
      b64_encode_no_NUL [of "MAGIC @ salt @ nonce @ tag @ c" m, folded *(3)]
    by simp
qed

text \<open>A toy provider that meets the documented laws, for the examples: it encrypts with a one-byte
  exclusive or and a constant tag.\<close>

definition toy_sys :: sys where
  "toy_sys = \<lparr>open_provider = (\<lambda>_. True), set_chaining_gcm = True,
     derive_pbkdf2 = (\<lambda>k salt it n. Some (replicate n (foldr (XOR) (k @ salt) 0))),
     generate_key = (\<lambda>_. True),
     cng_encrypt = (\<lambda>k nonce p. Some (List.map (\<lambda>c. c XOR hd k) p, replicate 16 7)),
     cng_decrypt = (\<lambda>k nonce tag c. if tag = replicate 16 7 then Some (List.map (\<lambda>x. x XOR hd k) c) else None),
     gen_random = (\<lambda>i n. Some (replicate n (word_of_nat i))), malloc_ok = (\<lambda>_. True)\<rparr>"

lemma toy_sys_laws: "sys_laws toy_sys"
  by (auto simp: sys_laws_def toy_sys_def xor.assoc comp_def)

theorem bcrypt_roundtrip_witness:
  "\<exists>n w. bcrypt_string_base64 toy_sys (Some [112, 0, 119]) False 3 (Some [107]) 0 = (n, Some w) \<and>
     buncrypt_string_base64 toy_sys (Some w) False (nat n) (Some [107]) = (3, Some [112, 0, 119, 0])"
proof -
  obtain n w where b: "bcrypt_string_base64 toy_sys (Some [112, 0, 119]) False 3 (Some [107]) 0 = (n, Some w)"
    by (simp add: bcrypt_string_base64_def toy_sys_def derive_key_def aes_gcm_encrypt_def
        aes_gcm_ready_def b64_encoded_len_def len_defs BCRYPT_MAX_OUTPUT_def Let_def)
  have "malloc_ok toy_sys k" for k by (simp add: toy_sys_def)
  from bcrypt_roundtrip [OF toy_sys_laws this _ b] b show ?thesis by auto
qed

lemma b64_decode_loop_length:
  "bits < 8 \<Longrightarrow> 8 * length (b64_decode_loop inp acc bits out) \<le> 8 * length out + 6 * length inp + bits"
proof (induction inp acc bits out rule: b64_decode_loop.induct)
  case (2 c inp acc bits out)
  consider "b64_value c < 0" | "\<not> b64_value c < 0" "bits + 6 \<ge> 8" | "\<not> b64_value c < 0" "bits + 6 < 8"
    by linarith
  then show ?case
  proof cases
    case 1
    with 2 show ?thesis by (simp add: Let_def)
  next
    case b: 2
    have "bits + 6 - 8 < 8" using 2(4) by simp
    from 2(2) [OF refl b(1) refl refl b(2) this] b 2(4) show ?thesis by (simp add: Let_def)
  next
    case 3
    with 2(3) [OF refl 3(1) refl refl] 2(4) show ?thesis by (simp add: Let_def)
  qed
qed simp

lemma b64_decode_shorter: "8 * length (b64_decode inp) \<le> 6 * length inp"
  using b64_decode_loop_length [of 0 inp 0 "[]"] by (simp add: b64_decode_def)

lemma buncrypt_success:
  assumes "buncrypt_string_base64 s (Some inp) False len key = (n, Some w)"
  obtains plain where "\<not> length (b64_decode (take len inp)) < HEADER_LEN"
    "w = take (length (b64_decode (take len inp)) - HEADER_LEN) plain @ [0]"
    "n = int (length (b64_decode (take len inp)) - HEADER_LEN)"
proof -
  obtain blob where b: "b64_decode (take len inp) = blob" by simp
  show thesis
    using assms that unfolding buncrypt_string_base64_def b Let_def
    by (auto simp: b split: if_splits option.splits)
qed

text \<open>C18: old or damaged contents are refused, and decrypting in place is safe. A text that does not
  decode to at least a header with the right magic gives 0 and writes nothing; and whatever the
  input, what \<open>buncrypt_string_base64\<close> writes (the plain text and its NUL) fits in the space of the
  input it may overwrite, and the scratch buffer is large enough for the decoded text.\<close>

theorem buncrypt_refuses:
  "(take MAGIC_LEN (b64_decode (take len inp)) \<noteq> MAGIC \<or> length (b64_decode (take len inp)) < HEADER_LEN \<longrightarrow>
      buncrypt_string_base64 s (Some inp) False len key = (0, None)) \<and>
   (\<forall>n w. buncrypt_string_base64 s (Some inp) False len key = (n, Some w) \<longrightarrow>
      length w \<le> len \<and> length (b64_decode (take len inp)) \<le> len + 4 \<and> 0 \<le> n)"
proof -
  have d: "8 * length (b64_decode (take len inp)) \<le> 6 * len"
    using b64_decode_shorter [of "take len inp"] by simp
  have "length w \<le> len \<and> length (b64_decode (take len inp)) \<le> len + 4 \<and> 0 \<le> n"
    if "buncrypt_string_base64 s (Some inp) False len key = (n, Some w)" for n w
  proof -
    from that obtain plain where "\<not> length (b64_decode (take len inp)) < HEADER_LEN"
      "w = take (length (b64_decode (take len inp)) - HEADER_LEN) plain @ [0]"
      "n = int (length (b64_decode (take len inp)) - HEADER_LEN)"
      by (rule buncrypt_success)
    with d show ?thesis by (simp add: len_defs)
  qed
  moreover have "buncrypt_string_base64 s (Some inp) False len key = (0, None)"
    if "take MAGIC_LEN (b64_decode (take len inp)) \<noteq> MAGIC \<or> length (b64_decode (take len inp)) < HEADER_LEN"
    using that by (simp add: buncrypt_string_base64_def Let_def disj_commute)
  ultimately show ?thesis by blast
qed

theorem buncrypt_refuses_witness:
  \<comment> \<open>\<open>plain\<close>: an old password that is not in the new format\<close>
  "buncrypt_string_base64 toy_sys (Some [112, 108, 97, 105, 110, 0]) False 5 None = (0, None)"
proof -
  have "take MAGIC_LEN (b64_decode (take 5 [112, 108, 97, 105, 110, 0])) \<noteq> MAGIC"
    by code_simp
  with buncrypt_refuses [of 5 "[112, 108, 97, 105, 110, 0]" toy_sys None] show ?thesis by blast
qed

subsection \<open>Files\<close>

lemma bcrypt_file_success:
  assumes "sys_laws s" "contents fs fin = Some inp" "bcrypt_file_base64 s fs fin fout key m = (n, fs')" "n \<noteq> 0"
  obtains salt nonce tag c dk out where "n = int (length out)"
    "fs' = fs\<lparr>contents := (contents fs)(fout := Some out)\<rparr>"
    "out = b64_encode (MAGIC @ salt @ nonce @ tag @ c) m" "length salt = SALT_LEN"
    "length nonce = NONCE_LEN"
    "derive_key s key salt = Some dk" "aes_gcm_encrypt s dk nonce inp = Some (c, tag)"
proof -
  have spew: "snd (spew fs f b) = fs\<lparr>contents := (contents fs)(f := Some b)\<rparr>" if "fst (spew fs f b)" for f b
    using that by (cases "length b \<le> room fs") (auto simp: spew_def split: if_splits)
  from assms(2-4) obtain salt nonce dk c tag where *: "gen_random s 0 SALT_LEN = Some salt"
    "gen_random s 1 NONCE_LEN = Some nonce" "derive_key s key salt = Some dk"
    "aes_gcm_encrypt s dk nonce inp = Some (c, tag)"
    "fst (spew fs fout (b64_encode (MAGIC @ salt @ nonce @ tag @ c) m))"
    "fs' = snd (spew fs fout (b64_encode (MAGIC @ salt @ nonce @ tag @ c) m))"
    "n = int (length (b64_encode (MAGIC @ salt @ nonce @ tag @ c) m))"
    by (auto simp: bcrypt_file_base64_def slurp_def Let_def split: if_splits option.splits)
  have "length salt = SALT_LEN" "length nonce = NONCE_LEN"
    using assms(1) *(1,2) by (simp_all add: sys_laws_def)
  with * spew that show thesis by blast
qed

text \<open>Encrypted files. If encrypting a file to another succeeds (returns nonzero), decrypting the
  result with the same key to any name that can be written restores the original contents and
  returns their length; a result of 0 from a failed write is not taken for success. (An empty file
  decrypts to nothing and returns 0, as for an error.)\<close>

theorem bcrypt_file_roundtrip:
  assumes "sys_laws s" and "\<And>k. malloc_ok s k" and "contents fs fin = Some inp" and "inp \<noteq> []"
    and "bcrypt_file_base64 s fs fin fout key m = (n, fs')" and "n \<noteq> 0"
    and "can_create fs fplain" and "length inp \<le> room fs"
  shows "\<exists>fs''. buncrypt_file_base64 s fs' fout fplain key = (int (length inp), fs'') \<and>
    contents fs'' fplain = Some inp"
proof -
  obtain salt nonce tag c dk out where *: "n = int (length out)"
    "fs' = fs\<lparr>contents := (contents fs)(fout := Some out)\<rparr>"
    "out = b64_encode (MAGIC @ salt @ nonce @ tag @ c) m" "length salt = SALT_LEN"
    "length nonce = NONCE_LEN"
    "derive_key s key salt = Some dk" "aes_gcm_encrypt s dk nonce inp = Some (c, tag)"
    by (rule bcrypt_file_success [OF assms(1,3,5,6)])
  from buncrypt_blob [OF assms(1) *(4,5,6,7,3) assms(2), of "[0]"] assms(2,4,7,8) *(2)
  show ?thesis
    by (simp add: buncrypt_file_base64_def slurp_def spew_def Let_def)
qed

theorem bcrypt_file_roundtrip_witness:
  "\<exists>n fs' fs''. bcrypt_file_base64 toy_sys
      \<lparr>contents = [[65] \<mapsto> [1, 2]], can_create = (\<lambda>_. True), room = 1000\<rparr> [65] [66] (Some [107]) 64 = (n, fs') \<and>
    buncrypt_file_base64 toy_sys fs' [66] [67] (Some [107]) = (2, fs'') \<and> contents fs'' [67] = Some [1, 2]"
proof -
  let ?fs = "\<lparr>contents = [[65] \<mapsto> [1, 2]], can_create = (\<lambda>_. True), room = 1000\<rparr> :: files"
  obtain n fs' where b: "bcrypt_file_base64 toy_sys ?fs [65] [66] (Some [107]) 64 = (n, fs')" by fastforce
  have n: "n \<noteq> 0"
    using b by (auto simp: bcrypt_file_base64_def slurp_def toy_sys_def derive_key_def aes_gcm_encrypt_def
        aes_gcm_ready_def b64_encode_length b64_encoded_len_def len_defs MAGIC_def spew_def Let_def split: if_splits)
  have "malloc_ok toy_sys k" for k by (simp add: toy_sys_def)
  from bcrypt_file_roundtrip [OF toy_sys_laws this _ _ b n, of "[1, 2]" "[67]"] b show ?thesis by auto
qed

subsection \<open>Passwords (\<open>kitty_crypt.c\<close>)\<close>

text \<open>A \<open>char *\<close> that is worked on in place is the string in it; the result is the return value and the
  new string. \<open>as_cstring\<close> reads the string that was written.\<close>

definition as_cstring :: "byte list \<Rightarrow> byte list" where
  "as_cstring w = takeWhile (\<lambda>c. c \<noteq> 0) w"

definition cryptstring :: "sys \<Rightarrow> int \<Rightarrow> byte list \<Rightarrow> byte list \<Rightarrow> int \<times> byte list" where
  "cryptstring s mode st key =
     (if mode > 1 then (int (length st), st)
      else if length st = 0 then (0, st)
      else case bcrypt_string_base64 s (Some (st @ [0])) False (length st) (Some key) 0 of
             (rc, None) \<Rightarrow> (rc, st)
           | (rc, Some w) \<Rightarrow> (rc, as_cstring w))"

definition decryptstring :: "sys \<Rightarrow> int \<Rightarrow> byte list \<Rightarrow> byte list \<Rightarrow> int \<times> byte list" where
  "decryptstring s mode st key =
     (if mode > 1 then (int (length st), st)
      else if length st = 0 then (0, st)
      else case buncrypt_string_base64 s (Some (st @ [0])) False (length st) (Some key) of
             (res, w) \<Rightarrow>
               let st1 = (case w of None \<Rightarrow> st | Some w \<Rightarrow> as_cstring w)
               in (res, if res = 0 then [] else st1))"

definition KITTY :: "byte list" where "KITTY = [75, 105, 84, 84, 89]"

definition dopasskey :: "int \<Rightarrow> byte list \<Rightarrow> byte list \<Rightarrow> byte list" where
  "dopasskey mode host termtype =
     (if mode > 0 then KITTY
      else if length host > 0
      then (if length host + length termtype < 1000 then host @ termtype @ KITTY else [])
      else (if length termtype < 1000 then termtype @ KITTY else []))"

definition cryptpassword :: "sys \<Rightarrow> int \<Rightarrow> byte list \<Rightarrow> byte list \<Rightarrow> byte list \<Rightarrow> int \<times> byte list" where
  "cryptpassword s mode password host termtype =
     (let PassKey = dopasskey mode host termtype in cryptstring s mode password PassKey)"

definition decryptpassword :: "sys \<Rightarrow> int \<Rightarrow> byte list \<Rightarrow> byte list \<Rightarrow> byte list \<Rightarrow> int \<times> byte list" where
  "decryptpassword s mode password host termtype =
     (let PassKey = dopasskey mode host termtype in decryptstring s mode password PassKey)"

lemma as_cstring_NUL: "cstring p \<Longrightarrow> as_cstring (p @ 0 # z) = p"
  unfolding as_cstring_def cstring_def by (rule takeWhile_neq_append_hit)

lemma bcrypt_then_buncrypt:
  assumes "sys_laws s" and "\<And>k. malloc_ok s k" and "len \<le> length inp"
    and "bcrypt_string_base64 s (Some inp) False len key m = (n, Some w)"
  obtains out where "n = int (length out)" "w = out @ [0]" "out \<noteq> []" "cstring out"
    "\<And>z. buncrypt_string_base64 s (Some (out @ z)) False (length out) key = (int len, Some (take len inp @ [0]))"
proof -
  obtain salt nonce tag c dk out where *: "n = int (length out)" "w = out @ [0]"
    "out = b64_encode (MAGIC @ salt @ nonce @ tag @ c) m" "length salt = SALT_LEN"
    "length nonce = NONCE_LEN" "length tag = TAG_LEN" "length c = length (take len inp)"
    "derive_key s key salt = Some dk" "aes_gcm_encrypt s dk nonce (take len inp) = Some (c, tag)"
    "b64_encoded_len (HEADER_LEN + len) m < BCRYPT_MAX_OUTPUT"
    by (rule bcrypt_success [OF assms(1,4)])
  have d: "b64_decode out = MAGIC @ salt @ nonce @ tag @ c" unfolding *(3) by (rule b64_decode_encode)
  have ne: "out \<noteq> []" using d b64_decode_def [of "[]"] by (auto simp: MAGIC_def)
  have cs: "cstring out" using b64_encode_no_NUL unfolding *(3) cstring_def .
  have bu: "buncrypt_string_base64 s (Some (out @ z)) False (length out) key = (int len, Some (take len inp @ [0]))" for z
    using buncrypt_blob [OF assms(1) *(4,5,8,9,3) assms(2), of z] assms(3) by simp
  show thesis by (rule that [OF *(1,2) ne cs bu])
qed

text \<open>C19: saved passwords. If \<open>cryptpassword\<close> returns nonzero, \<open>decryptpassword\<close> with the same mode, host
  and terminal type gives the password back, whatever it is; if it returns zero the buffer still
  holds what it held: an empty password, or one too long to encrypt, is left in clear.\<close>

theorem password_roundtrip:
  assumes "sys_laws s" and "\<And>k. malloc_ok s k" and "cstring password"
    and "cryptpassword s mode password host termtype = (n, stored)"
  shows "(n \<noteq> 0 \<longrightarrow> decryptpassword s mode stored host termtype = (int (length password), password)) \<and>
    (n = 0 \<longrightarrow> stored = password)"
proof (cases "mode > 1 \<or> password = []")
  case True
  with assms(4) show ?thesis
    by (auto simp: cryptpassword_def cryptstring_def decryptpassword_def decryptstring_def)
next
  case False
  let ?key = "dopasskey mode host termtype"
  obtain rc w where b: "bcrypt_string_base64 s (Some (password @ [0])) False (length password) (Some ?key) 0 = (rc, w)"
    by fastforce
  show ?thesis
  proof (cases w)
    case None
    have "rc = 0" using b None
      by (auto simp: bcrypt_string_base64_def Let_def split: if_splits option.splits)
    with b None False assms(4) show ?thesis by (simp add: cryptpassword_def cryptstring_def)
  next
    case (Some w')
    have "length password \<le> length (password @ [0])" by simp
    from bcrypt_then_buncrypt [OF assms(1,2) this b [unfolded Some]] obtain out where
      o: "rc = int (length out)" "w' = out @ [0]" "out \<noteq> []" "cstring out"
      "\<And>z. buncrypt_string_base64 s (Some (out @ z)) False (length out) (Some ?key) =
         (int (length password), Some (take (length password) (password @ [0]) @ [0]))"
      by blast
    with b Some False assms(3,4) show ?thesis
      by (auto simp: cryptpassword_def cryptstring_def decryptpassword_def decryptstring_def
          as_cstring_NUL)
  qed
qed

theorem password_roundtrip_witness:
  "\<exists>n stored. cryptpassword toy_sys 0 [115, 51] [104] [120] = (n, stored) \<and>
     decryptpassword toy_sys 0 stored [104] [120] = (2, [115, 51])"
proof -
  obtain n stored where b: "cryptpassword toy_sys 0 [115, 51] [104] [120] = (n, stored)" by fastforce
  have n: "n \<noteq> 0"
    using b by (auto simp: cryptpassword_def cryptstring_def dopasskey_def bcrypt_string_base64_def
        toy_sys_def derive_key_def aes_gcm_encrypt_def KITTY_def
        aes_gcm_ready_def b64_encoded_len_def len_defs BCRYPT_MAX_OUTPUT_def MAGIC_def
        b64_encode_length Let_def)
  have "malloc_ok toy_sys k" for k by (simp add: toy_sys_def)
  from password_roundtrip [OF toy_sys_laws this _ b] n b show ?thesis by auto
qed

subsection \<open>Password masking\<close>

text \<open>\<open>MASKPASS\<close> with the key \<open>MASKKEY\<close>: \<open>j\<close> runs over the key cyclically. \<open>None\<close> is the early return at
  a zero byte, which leaves the password as it was.\<close>

fun mask_loop :: "byte list \<Rightarrow> byte list \<Rightarrow> nat \<Rightarrow> byte list option" where
  "mask_loop maskkey [] j = Some []"
| "mask_loop maskkey (p # password) j =
     (let c = p XOR deref (drop j maskkey) in
      if c = 0 then None
      else let j1 = j + 1; j2 = (if deref (drop j1 maskkey) = 0 then 0 else j1)
           in map_option ((#) c) (mask_loop maskkey password j2))"

definition MASKPASS :: "byte list \<Rightarrow> int \<Rightarrow> byte list option \<Rightarrow> byte list option" where
  "MASKPASS maskkey mode password =
     (if mode > 0 then password
      else case password of
        None \<Rightarrow> None
      | Some p \<Rightarrow>
          if length p = 0 then Some p
          else if length maskkey > 0
          then (case mask_loop maskkey p 0 of None \<Rightarrow> Some p | Some buffer \<Rightarrow> Some buffer)
          else Some [])"

lemma mask_loop_some:
  "mask_loop k p j = Some q \<Longrightarrow> length q = length p \<and> cstring q"
  by (induction p arbitrary: j q) (auto simp: Let_def split: if_splits)

lemma mask_loop_inverse:
  "mask_loop k p j = Some q \<Longrightarrow> cstring p \<Longrightarrow> mask_loop k q j = Some p"
  by (induction p arbitrary: j q) (auto simp: Let_def xor.assoc split: if_splits)

text \<open>Masking is undone by masking again. For every key and every password, \<open>MASKPASS\<close> applied twice
  gives the original, and the masked password is a string of the same length, so it fits the same
  buffer.\<close>

theorem MASKPASS_involution:
  assumes "cstring p" and "maskkey \<noteq> []"
  shows "MASKPASS maskkey mode (MASKPASS maskkey mode (Some p)) = Some p \<and>
    (\<exists>q. MASKPASS maskkey mode (Some p) = Some q \<and> length q = length p \<and> cstring q)"
  using assms mask_loop_some [of maskkey p 0] mask_loop_inverse [of maskkey p 0]
  by (auto simp: MASKPASS_def split: option.splits)

theorem MASKPASS_involution_witness:
  "MASKPASS [164, 165] 0 (MASKPASS [164, 165] 0 (Some [112, 97, 115])) = Some [112, 97, 115]"
  using MASKPASS_involution [of "[112, 97, 115]" "[164, 165]" 0] by simp

subsection \<open>Latin-1 and UTF-8\<close>

text \<open>\<open>iso8859_1_to_utf8\<close> expands in place, backwards. \<open>content\<close> is the whole array; the pointers \<open>src\<close> and
  \<open>dst\<close> are indices into it, which step below 0 at the end; \<open>None\<close> is an access outside the array.\<close>

definition put_at :: "byte list \<Rightarrow> int \<Rightarrow> byte \<Rightarrow> byte list option" where
  "put_at content i c = (if 0 \<le> i \<and> nat i < length content then Some (content[nat i := c]) else None)"

definition get_at :: "byte list \<Rightarrow> int \<Rightarrow> byte option" where
  "get_at content i = (if 0 \<le> i \<and> nat i < length content then Some (content ! nat i) else None)"

fun utf8_space :: "byte list \<Rightarrow> nat" where
  "utf8_space [] = 0"
| "utf8_space (c # s) = (if c AND 0x80 \<noteq> 0 then 2 else 1) + utf8_space s"

function expand_loop :: "byte list \<Rightarrow> int \<Rightarrow> int \<Rightarrow> byte list option" where
  "expand_loop content src dst =
     (if dst > src then
        case get_at content src of
          None \<Rightarrow> None
        | Some c \<Rightarrow>
            if c AND 0x80 \<noteq> 0 then
              (case put_at content dst (0x80 OR (c AND 0x3f)) of
                 None \<Rightarrow> None
               | Some content1 \<Rightarrow>
                   (case get_at content1 src of
                      None \<Rightarrow> None
                    | Some c1 \<Rightarrow>
                        (case put_at content1 (dst - 1) (0xc0 OR drop_bit 6 c1) of
                           None \<Rightarrow> None
                         | Some content2 \<Rightarrow> expand_loop content2 (src - 1) (dst - 2))))
            else
              (case put_at content dst c of
                 None \<Rightarrow> None
               | Some content1 \<Rightarrow> expand_loop content1 (src - 1) (dst - 1))
      else Some content)"
  by pat_completeness auto
termination
  by (relation "measure (\<lambda>(content, src, dst). nat (src + 1))")
    (auto simp: get_at_def split: if_splits)

declare expand_loop.simps [simp del]

definition iso8859_1_to_utf8 :: "byte list \<Rightarrow> nat \<Rightarrow> (nat \<times> byte list) option" where
  "iso8859_1_to_utf8 content max_size =
     (let s = as_cstring content; src = int (length s); dst = int (utf8_space s)
      in if utf8_space s + 1 > max_size then Some (utf8_space s + 1, content)
         else (case put_at content (dst + 1) 0 of
                 None \<Rightarrow> None
               | Some content1 \<Rightarrow> map_option (\<lambda>c. (0, c)) (expand_loop content1 src dst)))"

definition to_latin9 :: "u32 \<Rightarrow> u32" where
  "to_latin9 code =
     (if code < 256 then code
      else if code = 0x0152 then 188
      else if code = 0x0153 then 189
      else if code = 0x0160 then 166
      else if code = 0x0161 then 168
      else if code = 0x0178 then 190
      else if code = 0x017D then 180
      else if code = 0x017E then 184
      else if code = 0x20AC then 164
      else 256)"

text \<open>The value assembled from a lead byte (its payload) and its continuation bytes, and whether they are
  continuation bytes.\<close>

fun assemble :: "u32 \<Rightarrow> byte list \<Rightarrow> u32" where
  "assemble v [] = v"
| "assemble v (c # cs) = assemble (push_bit 6 v OR ucast (c AND 0x3F)) cs"

definition conts_ok :: "byte list \<Rightarrow> bool" where
  "conts_ok cs = list_all (\<lambda>c. c AND 192 = 128) cs"

text \<open>The branch for a lead byte with \<open>n\<close> continuation bytes: \<open>None\<close> is the \<open>break\<close> at a truncated
  sequence, else the character stored, if any.\<close>

definition latin9_seq :: "byte list \<Rightarrow> nat \<Rightarrow> byte \<Rightarrow> byte list option" where
  "latin9_seq inp n lead_mask =
     (if n \<ge> length inp then None
      else if conts_ok (take n (tl inp)) then
        (let c = to_latin9 (assemble (ucast (hd inp AND lead_mask)) (take n (tl inp)))
         in Some (if c < 256 then [ucast c] else []))
      else Some [])"

function utf8_to_iso8859_15 :: "byte list \<Rightarrow> byte list" where
  "utf8_to_iso8859_15 inp =
     (case inp of
        [] \<Rightarrow> []
      | b # rest \<Rightarrow>
          if b < 128 then b # utf8_to_iso8859_15 rest
          else if b < 192 then utf8_to_iso8859_15 rest
          else if b < 224 then
            (case latin9_seq inp 1 0x1F of None \<Rightarrow> [] | Some out \<Rightarrow> out @ utf8_to_iso8859_15 (drop 2 inp))
          else if b < 240 then
            (case latin9_seq inp 2 0x0F of None \<Rightarrow> [] | Some out \<Rightarrow> out @ utf8_to_iso8859_15 (drop 3 inp))
          else if b < 248 then
            (case latin9_seq inp 3 0x07 of None \<Rightarrow> [] | Some out \<Rightarrow> out @ utf8_to_iso8859_15 (drop 4 inp))
          else if b < 252 then
            (case latin9_seq inp 4 0x03 of None \<Rightarrow> [] | Some out \<Rightarrow> out @ utf8_to_iso8859_15 (drop 5 inp))
          else if b < 254 then
            (case latin9_seq inp 5 0x01 of None \<Rightarrow> [] | Some out \<Rightarrow> out @ utf8_to_iso8859_15 (drop 6 inp))
          else utf8_to_iso8859_15 rest)"
  by pat_completeness auto
termination by (relation "measure length") auto

declare utf8_to_iso8859_15.simps [simp del]

text \<open>The encoding of one Latin-1 character, and of a string.\<close>

definition latin1_char :: "byte \<Rightarrow> byte list" where
  "latin1_char c = (if c AND 0x80 \<noteq> 0 then [0xc0 OR drop_bit 6 c, 0x80 OR (c AND 0x3f)] else [c])"

definition latin1_utf8 :: "byte list \<Rightarrow> byte list" where
  "latin1_utf8 s = concat (List.map latin1_char s)"

lemma latin1_utf8_snoc [simp]: "latin1_utf8 (s @ [c]) = latin1_utf8 s @ latin1_char c"
  "latin1_utf8 [] = []" "latin1_utf8 (c # s) = latin1_char c @ latin1_utf8 s"
  by (simp_all add: latin1_utf8_def)

lemma utf8_space_append [simp]: "utf8_space (s @ t) = utf8_space s + utf8_space t"
  by (induction s) simp_all

lemma utf8_space_length: "utf8_space s = length (latin1_utf8 s)"
  by (induction s) (simp_all add: latin1_char_def)

lemma utf8_space_ge: "length s \<le> utf8_space s"
  by (induction s) auto

lemma latin1_utf8_ascii: "utf8_space s = length s \<Longrightarrow> latin1_utf8 s = s"
proof (induction s)
  case (Cons c s)
  with utf8_space_ge [of s] show ?case by (auto simp: latin1_char_def split: if_splits)
qed simp

lemma expand_loop_correct:
  "take (length p) content = p \<Longrightarrow> utf8_space p \<le> length content \<Longrightarrow>
   \<exists>r. expand_loop content (int (length p) - 1) (int (utf8_space p) - 1) = Some r \<and>
     length r = length content \<and>
     take (utf8_space p) r = latin1_utf8 p \<and> drop (utf8_space p) r = drop (utf8_space p) content"
proof (induction p arbitrary: content rule: rev_induct)
  case Nil
  then show ?case by (simp add: expand_loop.simps)
next
  case (snoc c p)
  let ?n = "length p" and ?u = "utf8_space p" and ?N = "utf8_space (p @ [c])"
  have len: "?n < length content" using snoc.prems(1) by (metis length_append_singleton length_take min.absorb_iff2 Suc_le_eq min_def nle_le)
  have tp: "take ?n content = p"
    using arg_cong [OF snoc.prems(1), of "take ?n"] by (simp add: min_def)
  have cn: "content ! ?n = c"
    using arg_cong [OF snoc.prems(1), of "\<lambda>l. l ! ?n"] by simp
  have ge: "?n \<le> ?u" by (rule utf8_space_ge)
  show ?case
  proof (cases "?N = length (p @ [c])")
    case True
    with snoc.prems latin1_utf8_ascii [OF True] show ?thesis by (simp add: expand_loop.simps)
  next
    case False
    with utf8_space_ge [of "p @ [c]"] have gt: "int ?N - 1 > int (length (p @ [c])) - 1" by simp
    have src: "get_at content (int (length (p @ [c])) - 1) = Some c"
      using len cn by (simp add: get_at_def)
    show ?thesis
    proof (cases "c AND 0x80 \<noteq> 0")
      case True
      let ?l = "0xc0 OR drop_bit 6 c" and ?t = "0x80 OR (c AND 0x3f)"
      let ?c1 = "content[Suc ?u := ?t]"
      let ?c2 = "?c1[?u := ?l]"
      have N: "?N = ?u + 2" using True by simp
      have room: "Suc ?u < length content" using snoc.prems(2) True by simp
      have step: "expand_loop content (int (length (p @ [c])) - 1) (int ?N - 1) =
          expand_loop ?c2 (int ?n - 1) (int ?u - 1)"
        using gt src True room len cn ge N
        by (subst expand_loop.simps) (simp add: put_at_def get_at_def nat_add_distrib)
      have "take ?n ?c2 = p" using tp ge by simp
      from snoc.IH [OF this] room obtain r where r: "expand_loop ?c2 (int ?n - 1) (int ?u - 1) = Some r"
        "length r = length content" "take ?u r = latin1_utf8 p" "drop ?u r = drop ?u ?c2" by auto
      have "drop ?u ?c2 = ?l # ?t # drop (?u + 2) content"
        using room by (simp add: list_eq_iff_nth_eq nth_Cons split: nat.split)
      with r(4) have d: "drop ?u r = ?l # ?t # drop (?u + 2) content" by simp
      have "take (?u + 2) r = latin1_utf8 p @ [?l, ?t]" unfolding take_add d r(3) by simp
      moreover have "drop (?u + 2) r = drop 2 (drop ?u r)" by (simp add: add.commute)
      then have "drop (?u + 2) r = drop (?u + 2) content" unfolding d by simp
      ultimately show ?thesis using r(1,2) step True N
        by (intro exI [of _ r]) (simp add: latin1_char_def)
    next
      case low: False
      let ?c1 = "content[?u := c]"
      have N: "?N = ?u + 1" using low by simp
      have room: "?u < length content" using snoc.prems(2) low by simp
      have step: "expand_loop content (int (length (p @ [c])) - 1) (int ?N - 1) =
          expand_loop ?c1 (int ?n - 1) (int ?u - 1)"
        using gt src low room N
        by (subst expand_loop.simps) (simp add: put_at_def)
      have "take ?n ?c1 = p" using tp ge by simp
      from snoc.IH [OF this] room obtain r where r: "expand_loop ?c1 (int ?n - 1) (int ?u - 1) = Some r"
        "length r = length content" "take ?u r = latin1_utf8 p" "drop ?u r = drop ?u ?c1" by auto
      have "drop ?u ?c1 = c # drop (?u + 1) content"
        using room by (simp add: list_eq_iff_nth_eq nth_Cons split: nat.split)
      with r(4) have d: "drop ?u r = c # drop (?u + 1) content" by simp
      have "take (?u + 1) r = latin1_utf8 p @ [c]" unfolding take_add d r(3) by simp
      moreover have "drop (?u + 1) r = drop 1 (drop ?u r)" by (simp add: add.commute)
      then have "drop (?u + 1) r = drop (?u + 1) content" unfolding d by simp
      ultimately show ?thesis using r(1,2) step low N
        by (intro exI [of _ r]) (simp add: latin1_char_def)
    qed
  qed
qed

lemma latin1_decode_char:
  "utf8_to_iso8859_15 (latin1_char c @ r) = c # utf8_to_iso8859_15 r"
proof -
  define lead where "lead = 0xc0 OR drop_bit 6 c"
  define trail where "trail = 0x80 OR (c AND 0x3f)"
  define P where "P = (\<lambda>i :: nat. let c = word_of_nat i :: byte; l = 0xc0 OR drop_bit 6 c; t = 0x80 OR (c AND 0x3f);
        x = to_latin9 (push_bit 6 (ucast (l AND 0x1F)) OR ucast (t AND 0x3F))
      in if c AND 0x80 \<noteq> 0 then \<not> l < 128 \<and> \<not> l < 192 \<and> l < 224 \<and> t AND 192 = 128 \<and> x < 256 \<and> ucast x = c
         else c < 128)"
  have "list_all P [0..<256]" unfolding P_def by code_simp
  then have "P (unat c)" by (simp add: list_all_iff del: upt_rec_numeral)
  then have *: "if c AND 0x80 \<noteq> 0 then \<not> lead < 128 \<and> \<not> lead < 192 \<and> lead < 224 \<and> trail AND 192 = 128 \<and>
      to_latin9 (push_bit 6 (ucast (lead AND 0x1F)) OR ucast (trail AND 0x3F)) < 256 \<and>
      ucast (to_latin9 (push_bit 6 (ucast (lead AND 0x1F)) OR ucast (trail AND 0x3F))) = c
    else c < 128"
    by (simp only: P_def Let_def lead_def trail_def of_nat_unat ucast_id)
  show ?thesis
  proof (cases "c AND 0x80 \<noteq> 0")
    case True
    with * show ?thesis
      by (subst utf8_to_iso8859_15.simps)
        (simp add: latin1_char_def lead_def [symmetric] trail_def [symmetric] latin9_seq_def conts_ok_def Let_def)
  next
    case False
    with * show ?thesis
      by (subst utf8_to_iso8859_15.simps) (simp add: latin1_char_def)
  qed
qed

text \<open>The Latin-1 mapper. Given room for the result and one byte more, \<open>iso8859_1_to_utf8\<close> turns the
  string in the buffer into its UTF-8 form, in place and without losing a byte, and
  \<open>utf8_to_iso8859_15\<close> maps the result back to the original. When the buffer has exactly the size
  the function asks its caller for, it writes one byte past the end.\<close>

theorem latin1_roundtrip:
  assumes "cstring s"
  shows "(length (latin1_utf8 s) + 1 \<le> max_size \<and> length (latin1_utf8 s) + 2 \<le> length (s @ 0 # junk) \<longrightarrow>
      (\<exists>content. iso8859_1_to_utf8 (s @ 0 # junk) max_size = Some (0, content) \<and>
         as_cstring content = latin1_utf8 s \<and> length content = length (s @ 0 # junk))) \<and>
    utf8_to_iso8859_15 (latin1_utf8 s) = s \<and>
    (max_size < length (latin1_utf8 s) + 1 \<longrightarrow>
      iso8859_1_to_utf8 (s @ 0 # junk) max_size = Some (length (latin1_utf8 s) + 1, s @ 0 # junk)) \<and>
    (length (s @ 0 # junk) = length (latin1_utf8 s) + 1 \<longrightarrow>
      iso8859_1_to_utf8 (s @ 0 # junk) (length (latin1_utf8 s) + 1) = None)"
proof (intro conjI impI)
  let ?content = "s @ 0 # junk" and ?u = "utf8_space s"
  have c: "as_cstring ?content = s" by (rule as_cstring_NUL [OF assms])
  have nz: "0 \<notin> set (latin1_utf8 s)"
  proof -
    have "0 \<notin> set (latin1_char x)" if "x \<noteq> 0" for x
    proof -
      have "bit (0xc0 OR drop_bit 6 x) 7" "bit (0x80 OR (x AND 0x3f)) 7" by (simp_all add: bit_simps)
      then have "0xc0 OR drop_bit 6 x \<noteq> 0" "0x80 OR (x AND 0x3f) \<noteq> 0" by auto
      with that show ?thesis by (simp add: latin1_char_def)
    qed
    with assms show ?thesis by (induction s) auto
  qed
  {
    assume a: "length (latin1_utf8 s) + 1 \<le> max_size \<and> length (latin1_utf8 s) + 2 \<le> length ?content"
    let ?c1 = "?content[?u + 1 := 0]"
    have u: "?u + 1 < length ?content" "\<not> ?u + 1 > max_size" using a by (simp_all add: utf8_space_length)
    have t: "take (length (s @ [0])) ?c1 = s @ [0]" using utf8_space_ge [of s] by simp
    have u2: "utf8_space (s @ [0]) = ?u + 1" by simp
    from expand_loop_correct [OF t] u obtain r where
      r: "expand_loop ?c1 (int (length s)) (int ?u) = Some r" "length r = length ?c1"
      "take (?u + 1) r = latin1_utf8 (s @ [0])" by auto
    have "iso8859_1_to_utf8 ?content max_size = Some (0, r)"
      using u r(1) by (simp add: iso8859_1_to_utf8_def c put_at_def Let_def nat_add_distrib)
    moreover have "as_cstring r = latin1_utf8 s"
    proof -
      have "r = latin1_utf8 s @ 0 # drop (?u + 1) r"
        using r(3) append_take_drop_id [of "?u + 1" r] by (simp add: latin1_char_def)
      then show ?thesis using nz as_cstring_NUL [of "latin1_utf8 s"] by (metis cstring_def)
    qed
    ultimately show "\<exists>content. iso8859_1_to_utf8 ?content max_size = Some (0, content) \<and>
         as_cstring content = latin1_utf8 s \<and> length content = length ?content"
      using r(2) by simp
  }
  show "utf8_to_iso8859_15 (latin1_utf8 s) = s"
    by (induction s) (simp_all add: latin1_decode_char utf8_to_iso8859_15.simps [of "[]"])
  show "iso8859_1_to_utf8 ?content max_size = Some (length (latin1_utf8 s) + 1, ?content)"
    if "max_size < length (latin1_utf8 s) + 1"
    using that by (simp add: iso8859_1_to_utf8_def c utf8_space_length)
  show "iso8859_1_to_utf8 ?content (length (latin1_utf8 s) + 1) = None"
    if "length ?content = length (latin1_utf8 s) + 1"
    using that by (simp add: iso8859_1_to_utf8_def c utf8_space_length put_at_def Let_def nat_add_distrib)
qed

theorem latin1_roundtrip_witness:
  \<comment> \<open>\<open>e\<close> with an acute accent\<close>
  "\<exists>content. iso8859_1_to_utf8 ([97, 233] @ 0 # [0, 0, 0]) 6 = Some (0, content) \<and> as_cstring content = [97, 195, 169]"
proof -
  have l: "latin1_utf8 [97, 233] = [97, 195, 169]" by (simp add: latin1_char_def)
  have "cstring [97, 233]" by simp
  from conjunct1 [OF latin1_roundtrip [OF this, of 6 "[0, 0, 0]"], unfolded l]
  have "\<exists>content. iso8859_1_to_utf8 ([97, 233] @ 0 # [0, 0, 0]) 6 = Some (0, content) \<and>
      as_cstring content = [97, 195, 169] \<and> length content = length ([97, 233] @ 0 # [0, 0, 0 :: byte])" by simp
  then show ?thesis by blast
qed

text \<open>\<open>utf8_to_iso8859_15\<close> may work in place: for any input, valid or not, the output is never longer
  than the input, and plain ASCII comes out unchanged.\<close>

theorem utf8_to_latin_shrinks:
  "length (utf8_to_iso8859_15 inp) \<le> length inp \<and>
   (list_all (\<lambda>c. c < 128) inp \<longrightarrow> utf8_to_iso8859_15 inp = inp)"
proof (intro conjI impI)
  have seq: "length out \<le> 1 \<and> n < length i" if "latin9_seq i n m = Some out" for i n m out
    using that by (auto simp: latin9_seq_def Let_def split: if_splits)
  show "length (utf8_to_iso8859_15 inp) \<le> length inp"
  proof (induction inp rule: utf8_to_iso8859_15.induct)
    case (1 inp)
    show ?case
    proof (cases inp)
      case (Cons b rest)
      have k: "length (case latin9_seq inp n m of None \<Rightarrow> [] | Some out \<Rightarrow> out @ utf8_to_iso8859_15 (drop d inp)) \<le> length inp"
        if "\<And>out. latin9_seq inp n m = Some out \<Longrightarrow> length (utf8_to_iso8859_15 (drop d inp)) \<le> length (drop d inp)"
          "0 < d" for n m d
      proof (cases "latin9_seq inp n m")
        case (Some out)
        with seq [OF Some] that(1) [OF Some] that(2) show ?thesis by (simp add: Cons) linarith
      qed simp
      have r: "utf8_to_iso8859_15 inp =
        (if b < 128 then b # utf8_to_iso8859_15 rest
          else if b < 192 then utf8_to_iso8859_15 rest
          else if b < 224 then
            (case latin9_seq inp 1 0x1F of None \<Rightarrow> [] | Some out \<Rightarrow> out @ utf8_to_iso8859_15 (drop 2 inp))
          else if b < 240 then
            (case latin9_seq inp 2 0x0F of None \<Rightarrow> [] | Some out \<Rightarrow> out @ utf8_to_iso8859_15 (drop 3 inp))
          else if b < 248 then
            (case latin9_seq inp 3 0x07 of None \<Rightarrow> [] | Some out \<Rightarrow> out @ utf8_to_iso8859_15 (drop 4 inp))
          else if b < 252 then
            (case latin9_seq inp 4 0x03 of None \<Rightarrow> [] | Some out \<Rightarrow> out @ utf8_to_iso8859_15 (drop 5 inp))
          else if b < 254 then
            (case latin9_seq inp 5 0x01 of None \<Rightarrow> [] | Some out \<Rightarrow> out @ utf8_to_iso8859_15 (drop 6 inp))
          else utf8_to_iso8859_15 rest)"
        unfolding Cons by (subst utf8_to_iso8859_15.simps) (simp only: list.case)
      consider "b < 128" | "\<not> b < 128" "b < 192" | "\<not> b < 128" "\<not> b < 192" "b < 224"
        | "\<not> b < 128" "\<not> b < 192" "\<not> b < 224" "b < 240"
        | "\<not> b < 128" "\<not> b < 192" "\<not> b < 224" "\<not> b < 240" "b < 248"
        | "\<not> b < 128" "\<not> b < 192" "\<not> b < 224" "\<not> b < 240" "\<not> b < 248" "b < 252"
        | "\<not> b < 128" "\<not> b < 192" "\<not> b < 224" "\<not> b < 240" "\<not> b < 248" "\<not> b < 252" "b < 254"
        | "\<not> b < 128" "\<not> b < 192" "\<not> b < 224" "\<not> b < 240" "\<not> b < 248" "\<not> b < 252" "\<not> b < 254"
        by blast
      then show ?thesis
      proof cases
        case c: 1
        have "length (utf8_to_iso8859_15 inp) = length (b # utf8_to_iso8859_15 rest)"
          using c by (simp only: r if_True)
        with "1.IH"(1) [OF Cons c] show ?thesis by (simp add: Cons)
      next
        case c: 2
        have "length (utf8_to_iso8859_15 inp) = length (utf8_to_iso8859_15 rest)"
          using c by (simp only: r if_True if_False)
        with "1.IH"(2) [OF Cons c] show ?thesis by (simp add: Cons)
      next
        case c: 3
        have "length (utf8_to_iso8859_15 inp) =
          length (case latin9_seq inp 1 0x1F of None \<Rightarrow> [] | Some out \<Rightarrow> out @ utf8_to_iso8859_15 (drop 2 inp))"
          using c by (simp only: r if_True if_False)
        with k [of 1 "0x1F" 2] "1.IH"(3) [OF Cons c] show ?thesis by simp
      next
        case c: 4
        have "length (utf8_to_iso8859_15 inp) =
          length (case latin9_seq inp 2 0x0F of None \<Rightarrow> [] | Some out \<Rightarrow> out @ utf8_to_iso8859_15 (drop 3 inp))"
          using c by (simp only: r if_True if_False)
        with k [of 2 "0x0F" 3] "1.IH"(4) [OF Cons c] show ?thesis by simp
      next
        case c: 5
        have "length (utf8_to_iso8859_15 inp) =
          length (case latin9_seq inp 3 0x07 of None \<Rightarrow> [] | Some out \<Rightarrow> out @ utf8_to_iso8859_15 (drop 4 inp))"
          using c by (simp only: r if_True if_False)
        with k [of 3 "0x07" 4] "1.IH"(5) [OF Cons c] show ?thesis by simp
      next
        case c: 6
        have "length (utf8_to_iso8859_15 inp) =
          length (case latin9_seq inp 4 0x03 of None \<Rightarrow> [] | Some out \<Rightarrow> out @ utf8_to_iso8859_15 (drop 5 inp))"
          using c by (simp only: r if_True if_False)
        with k [of 4 "0x03" 5] "1.IH"(6) [OF Cons c] show ?thesis by simp
      next
        case c: 7
        have "length (utf8_to_iso8859_15 inp) =
          length (case latin9_seq inp 5 0x01 of None \<Rightarrow> [] | Some out \<Rightarrow> out @ utf8_to_iso8859_15 (drop 6 inp))"
          using c by (simp only: r if_True if_False)
        with k [of 5 "0x01" 6] "1.IH"(7) [OF Cons c] show ?thesis by simp
      next
        case c: 8
        have "length (utf8_to_iso8859_15 inp) = length (utf8_to_iso8859_15 rest)"
          using c by (simp only: r if_True if_False)
        with "1.IH"(8) [OF Cons c] show ?thesis by (simp add: Cons)
      qed
    qed (simp add: utf8_to_iso8859_15.simps)
  qed
  show "utf8_to_iso8859_15 inp = inp" if "list_all (\<lambda>c. c < 128) inp"
    using that by (induction inp) (simp_all add: utf8_to_iso8859_15.simps [of "_ # _"] utf8_to_iso8859_15.simps [of "[]"])
qed

theorem utf8_to_latin_shrinks_witness:
  "utf8_to_iso8859_15 [107, 105] = [107, 105]"
  using utf8_to_latin_shrinks [of "[107, 105]"] by simp

end
