(* ===== verification/Tree234.thy ===== *)
theory Tree234
  imports Prelude
begin

text \<open>
  \<open>utils/tree234.c\<close>: the counted 2-3-4 trees behind the configuration store, the SSH channel
  and port-forwarding tables and the agent's key list.

  A \<open>node234\<close> holds the arrays \<open>kids[4]\<close>, \<open>counts[4]\<close> and \<open>elems[3]\<close>, padded with \<open>NULL\<close> and 0; here
  they are the lists of the positions in use, one child and one count more than elements (the
  children of a leaf are \<open>NULL\<close> too), and \<open>kid\<close> and \<open>cnt\<close> read them with the padding. The \<open>parent\<close>
  pointers are a path: from the node the code looks at up to the root, each parent with the position
  of the child the code came from. Reading through \<open>NULL\<close> or past an array is \<open>None\<close>.
\<close>

subsection \<open>Nodes\<close>

datatype 'e node234 = Null | Node (kids: "'e node234 list") (counts: "int list") (elems: "'e list")

type_synonym 'e path234 = "('e node234 \<times> nat) list"

record 'e tree234 =
  root :: "'e node234"
  cmp :: "('e \<Rightarrow> 'e \<Rightarrow> int) option"

definition kid :: "'e node234 list \<Rightarrow> nat \<Rightarrow> 'e node234" where
  "kid ks i = (if i < length ks then ks ! i else Null)"

definition cnt :: "int list \<Rightarrow> nat \<Rightarrow> int" where
  "cnt cs i = (if i < length cs then cs ! i else 0)"

definition newtree234 :: "('e \<Rightarrow> 'e \<Rightarrow> int) option \<Rightarrow> 'e tree234" where
  "newtree234 cm = \<lparr>root = Null, cmp = cm\<rparr>"

fun countnode234 :: "'e node234 \<Rightarrow> int" where
  "countnode234 Null = 0"
| "countnode234 (Node ks cs es) = sum_list cs + int (length es)"

fun elements234 :: "'e node234 \<Rightarrow> nat" where
  "elements234 Null = 0"
| "elements234 (Node ks cs es) = length es"

definition count234 :: "'e tree234 \<Rightarrow> int" where
  "count234 t = (if root t = Null then 0 else countnode234 (root t))"

lemma kid_simps [simp]:
  "kid (k # ks) 0 = k" "kid (k # ks) (Suc i) = kid ks i" "kid [] i = Null"
  "kid (k # ks) (numeral v) = kid ks (pred_numeral v)"
  by (simp_all add: kid_def numeral_eq_Suc)

lemma cnt_simps [simp]:
  "cnt (c # cs) 0 = c" "cnt (c # cs) (Suc i) = cnt cs i" "cnt [] i = 0"
  "cnt (c # cs) (numeral v) = cnt cs (pred_numeral v)"
  by (simp_all add: cnt_def numeral_eq_Suc)

lemma size_kid [termination_simp]:
  "kid ks i \<noteq> Null \<Longrightarrow> size (kid ks i) < Suc (size_list size ks + n)"
  by (auto simp: kid_def split: if_splits intro!: less_SucI le_imp_less_Suc trans_le_add1 size_list_estimation' [OF nth_mem])

subsection \<open>The list a tree stands for\<close>

fun interleave :: "'e list list \<Rightarrow> 'e list \<Rightarrow> 'e list" where
  "interleave (k # ks) (e # es) = k @ e # interleave ks es"
| "interleave (k # ks) [] = k"
| "interleave [] es = es"

fun inorder :: "'e node234 \<Rightarrow> 'e list" where
  "inorder Null = []"
| "inorder (Node ks cs es) = interleave (List.map inorder ks) es"

definition size234 :: "'e node234 \<Rightarrow> int" where
  "size234 n = int (length (inorder n))"

lemma size234_Null [simp]: "size234 Null = 0"
  by (simp add: size234_def)

lemma size234_nonneg [simp]: "0 \<le> size234 n"
  by (simp add: size234_def)

text \<open>The invariant the test code's \<open>verify\<close> lists: one to three elements in every node, one child
  more than elements, all leaves at the same depth, and every count the size of its subtree.\<close>

fun valid :: "nat \<Rightarrow> 'e node234 \<Rightarrow> bool" where
  "valid 0 n \<longleftrightarrow> n = Null"
| "valid (Suc h) Null \<longleftrightarrow> False"
| "valid (Suc h) (Node ks cs es) \<longleftrightarrow>
     1 \<le> length es \<and> length es \<le> 3 \<and> length ks = Suc (length es) \<and> cs = List.map size234 ks \<and>
     list_all (valid h) ks"

lemma valid_cases [consumes 1, case_names N2 N3 N4]:
  assumes "valid (Suc h) n"
  obtains k0 k1 a where "n = Node [k0, k1] [size234 k0, size234 k1] [a]" "valid h k0" "valid h k1"
  | k0 k1 k2 a b where "n = Node [k0, k1, k2] [size234 k0, size234 k1, size234 k2] [a, b]"
      "valid h k0" "valid h k1" "valid h k2"
  | k0 k1 k2 k3 a b c where
      "n = Node [k0, k1, k2, k3] [size234 k0, size234 k1, size234 k2, size234 k3] [a, b, c]"
      "valid h k0" "valid h k1" "valid h k2" "valid h k3"
proof -
  obtain ks cs es where n: "n = Node ks cs es" using assms by (cases n) auto
  have v: "1 \<le> length es" "length es \<le> 3" "length ks = Suc (length es)" "cs = List.map size234 ks" "list_all (valid h) ks"
    using assms by (simp_all add: n)
  from v(1,2) consider "length es = Suc 0" | "length es = Suc (Suc 0)" | "length es = Suc (Suc (Suc 0))" by linarith
  then show thesis
  proof cases
    case 1
    with v show thesis by (auto simp: n length_Suc_conv intro!: that(1))
  next
    case 2
    with v show thesis by (auto simp: n length_Suc_conv intro!: that(2))
  next
    case 3
    with v show thesis by (auto simp: n length_Suc_conv intro!: that(3))
  qed
qed

lemma countnode234_valid: "valid h n \<Longrightarrow> countnode234 n = size234 n"
  by (cases h) (auto elim!: valid_cases simp: size234_def)

lemma valid_Null [simp]: "valid h Null \<longleftrightarrow> h = 0"
  by (cases h) simp_all

lemma inorder_eq_Nil: "valid h n \<Longrightarrow> inorder n = [] \<longleftrightarrow> h = 0"
  by (cases h) (auto elim!: valid_cases)

subsection \<open>Lookup by index\<close>

text \<open>The chain of comparisons with the counts that \<open>index234\<close> and the deletion share: descend into child
  \<open>i\<close> with the remaining index, or stop at element \<open>i\<close>.\<close>

datatype place = InKid nat int | AtElem nat

definition locate :: "int list \<Rightarrow> int \<Rightarrow> place" where
  "locate cs index =
     (if index < cnt cs 0 then InKid 0 index
      else let index = index - (cnt cs 0 + 1) in if index < 0 then AtElem 0
      else if index < cnt cs 1 then InKid 1 index
      else let index = index - (cnt cs 1 + 1) in if index < 0 then AtElem 1
      else if index < cnt cs 2 then InKid 2 index
      else let index = index - (cnt cs 2 + 1) in if index < 0 then AtElem 2
      else InKid 3 index)"

function index234_loop :: "'e node234 \<Rightarrow> int \<Rightarrow> 'e option" where
  "index234_loop Null index = None"
| "index234_loop (Node ks cs es) index =
     (case locate cs index of
        InKid i index \<Rightarrow> index234_loop (kid ks i) index
      | AtElem i \<Rightarrow> (if i < length es then Some (es ! i) else None))"
  by pat_completeness auto
termination
proof (relation "measure (\<lambda>(n, index). size n)", goal_cases)
  case (2 ks cs es index i index')
  show ?case by (cases "kid ks i = Null") (simp_all add: size_kid)
qed simp

definition index234 :: "'e tree234 \<Rightarrow> int \<Rightarrow> 'e option" where
  "index234 t index =
     (if root t = Null then None
      else if index < 0 \<or> index \<ge> countnode234 (root t) then None
      else index234_loop (root t) index)"

text \<open>What lies to the left and to the right of child \<open>i\<close> within a node.\<close>

definition lpart :: "'e node234 list \<Rightarrow> 'e list \<Rightarrow> nat \<Rightarrow> 'e list" where
  "lpart ks es i = concat (map2 (\<lambda>k e. inorder k @ [e]) (take i ks) (take i es))"

definition rpart :: "'e node234 list \<Rightarrow> 'e list \<Rightarrow> nat \<Rightarrow> 'e list" where
  "rpart ks es i = concat (map2 (\<lambda>e k. e # inorder k) (drop i es) (drop (Suc i) ks))"

lemma part_simps [simp]:
  "lpart ks es 0 = []"
  "lpart (k # ks) (e # es) (Suc i) = inorder k @ e # lpart ks es i"
  "rpart (k # ks) (e # es) (Suc i) = rpart ks es i"
  "rpart [k] [] i = []"
  "rpart (k # k' # ks) (e # es) 0 = e # inorder k' @ rpart (k' # ks) es 0"
  by (simp_all add: lpart_def rpart_def)

lemma locate_valid:
  assumes "valid (Suc h) n" and "0 \<le> index" and "index < size234 n"
  obtains (kid) i j where "locate (counts n) (index) = InKid i j" "i < length (kids n)" "0 \<le> j"
      "j < size234 (kids n ! i)" "valid h (kids n ! i)" "index = int (length (lpart (kids n) (elems n) i)) + j"
  | (elem) i where "locate (counts n) index = AtElem i" "i < length (elems n)"
      "index = int (length (lpart (kids n) (elems n) i)) + size234 (kids n ! i)"
proof -
  define good where "good = (\<lambda>place. case place of
      InKid i j \<Rightarrow> i < length (kids n) \<and> 0 \<le> j \<and> j < size234 (kids n ! i) \<and> valid h (kids n ! i) \<and>
        index = int (length (lpart (kids n) (elems n) i)) + j
    | AtElem i \<Rightarrow> i < length (elems n) \<and>
        index = int (length (lpart (kids n) (elems n) i)) + size234 (kids n ! i))"
  note nums = numeral_2_eq_2 numeral_3_eq_3
  have "good (locate (counts n) index)"
    using assms(1)
  proof (cases rule: valid_cases)
    case (N2 k0 k1 a)
    with assms(2,3) show ?thesis
      by (auto simp: good_def locate_def Let_def nums size234_def)
  next
    case (N3 k0 k1 k2 a b)
    with assms(2,3) show ?thesis
      by (auto simp: good_def locate_def Let_def nums size234_def)
  next
    case (N4 k0 k1 k2 k3 a b c)
    with assms(2,3) show ?thesis
      by (auto simp: good_def locate_def Let_def nums size234_def)
  qed
  then show thesis
    by (cases "locate (counts n) index") (auto simp: good_def intro: that)
qed

text \<open>A node's list is what lies left of a child, the child, and what lies right of it.\<close>

lemma inorder_split:
  assumes "length ks = Suc (length es)" and "i < length ks"
  shows "inorder (Node ks cs es) = lpart ks es i @ inorder (ks ! i) @ rpart ks es i"
  using assms
proof (induction es arbitrary: ks i)
  case Nil
  then show ?case by (auto simp: length_Suc_conv)
next
  case (Cons e es)
  then obtain k k' ks' where ks: "ks = k # k' # ks'" "length ks' = length es"
    by (auto simp: length_Suc_conv)
  show ?case
  proof (cases i)
    case 0
    with Cons.IH [of "k' # ks'" 0] show ?thesis by (simp add: ks)
  next
    case (Suc j)
    with Cons.IH [of "k' # ks'" j] Cons.prems(2) show ?thesis by (simp add: ks)
  qed
qed

lemma rpart_unfold:
  "length ks = Suc (length es) \<Longrightarrow> i < length es \<Longrightarrow>
    rpart ks es i = es ! i # inorder (ks ! Suc i) @ rpart ks es (Suc i)"
  by (simp add: rpart_def Cons_nth_drop_Suc [symmetric])

lemma lpart_Suc:
  "length ks = Suc (length es) \<Longrightarrow> i < length es \<Longrightarrow>
    lpart ks es (Suc i) = lpart ks es i @ inorder (ks ! i) @ [es ! i]"
  by (simp add: lpart_def take_Suc_conv_app_nth)

lemma part_update [simp]:
  "lpart (ks[i := x]) es i = lpart ks es i" "rpart (ks[i := x]) es i = rpart ks es i"
  by (simp_all add: lpart_def rpart_def)

lemma index234_loop_inorder:
  "valid h n \<Longrightarrow> 0 \<le> index \<Longrightarrow> index < size234 n \<Longrightarrow> index234_loop n index = Some (inorder n ! nat index)"
proof (induction h arbitrary: n index)
  case (Suc h)
  obtain ks cs es where n: "n = Node ks cs es" using Suc.prems(1) by (cases n) auto
  have len: "length ks = Suc (length es)" using Suc.prems(1) by (simp add: n)
  from Suc.prems show ?case
  proof (cases rule: locate_valid)
    case (kid i j)
    then have i: "i < length ks" and k: "kid ks i = ks ! i" by (simp_all add: n kid_def)
    have "index234_loop n index = index234_loop (ks ! i) j"
      using kid by (simp add: n k)
    also have "\<dots> = Some (inorder (ks ! i) ! nat j)"
      by (rule Suc.IH) (use kid n in auto)
    also have "inorder (ks ! i) ! nat j = inorder n ! nat index"
      using kid i unfolding n inorder_split [OF len i]
      by (simp add: nth_append size234_def nat_add_distrib nat_less_iff)
    finally show ?thesis .
  next
    case (elem i)
    then have i: "i < length ks" by (simp add: n len)
    have "inorder n ! nat index = es ! i"
      using elem unfolding n inorder_split [OF len i]
      by (simp add: nth_append size234_def nat_add_distrib rpart_unfold [OF len])
    with elem show ?thesis by (simp add: n)
  qed
qed simp

subsection \<open>Insertion\<close>

text \<open>The way down. In the indexed mode a leaf takes the index as the position without looking at the
  number of its elements; position 4 and up is past the array.\<close>

datatype 'e descent = Child nat int | Present 'e | OutOfRange

definition childnum_indexed :: "'e node234 list \<Rightarrow> int list \<Rightarrow> int \<Rightarrow> 'e descent" where
  "childnum_indexed ks cs index =
     (if kid ks 0 = Null then Child (nat index) index
      else if index \<le> cnt cs 0 then Child 0 index
      else let index = index - (cnt cs 0 + 1) in if index \<le> cnt cs 1 then Child 1 index
      else let index = index - (cnt cs 1 + 1) in if index \<le> cnt cs 2 then Child 2 index
      else let index = index - (cnt cs 2 + 1) in if index \<le> cnt cs 3 then Child 3 index
      else OutOfRange)"

definition childnum_sorted :: "('e \<Rightarrow> int) \<Rightarrow> 'e list \<Rightarrow> 'e descent" where
  "childnum_sorted c es =
     (if c (es ! 0) < 0 then Child 0 (-1)
      else if c (es ! 0) = 0 then Present (es ! 0)
      else if length es \<le> 1 \<or> c (es ! 1) < 0 then Child 1 (-1)
      else if c (es ! 1) = 0 then Present (es ! 1)
      else if length es \<le> 2 \<or> c (es ! 2) < 0 then Child 2 (-1)
      else if c (es ! 2) = 0 then Present (es ! 2)
      else Child 3 (-1))"

datatype 'e add_position = At "'e path234" | Already 'e | Fail | Undefined

function add_descend :: "('e \<Rightarrow> int) \<Rightarrow> int \<Rightarrow> 'e path234 \<Rightarrow> 'e node234 \<Rightarrow> 'e add_position" where
  "add_descend c index path Null = At path"
| "add_descend c index path (Node ks cs es) =
     (case (if index \<ge> 0 then childnum_indexed ks cs index else childnum_sorted c es) of
        Child i index \<Rightarrow>
          if i < 4 then add_descend c index ((Node ks cs es, i) # path) (kid ks i) else Undefined
      | Present e \<Rightarrow> Already e
      | OutOfRange \<Rightarrow> Fail)"
  by pat_completeness auto
termination
proof (relation "measure (\<lambda>(c, index, path, n). size n)", goal_cases)
  case (2 c index path ks cs es i index')
  show ?case by (cases "kid ks i = Null") (simp_all add: size_kid)
qed simp

text \<open>The new element goes between the subtrees \<open>left\<close> and \<open>right\<close>, in place of the child at position
  \<open>i\<close> of a node of one or two elements.\<close>

fun insert_at :: "'e node234 \<Rightarrow> nat \<Rightarrow> 'e node234 \<Rightarrow> int \<Rightarrow> 'e \<Rightarrow> 'e node234 \<Rightarrow> int \<Rightarrow> 'e node234" where
  "insert_at (Node ks cs es) i left lcount e right rcount =
     (if length es \<le> 1 then
        (if i = 0 then Node [left, right, kid ks 1] [lcount, rcount, cnt cs 1] [e, es ! 0]
         else Node [kid ks 0, left, right] [cnt cs 0, lcount, rcount] [es ! 0, e])
      else
        (if i = 0 then Node [left, right, kid ks 1, kid ks 2] [lcount, rcount, cnt cs 1, cnt cs 2] [e, es ! 0, es ! 1]
         else if i = 1 then Node [kid ks 0, left, right, kid ks 2] [cnt cs 0, lcount, rcount, cnt cs 2] [es ! 0, e, es ! 1]
         else Node [kid ks 0, kid ks 1, left, right] [cnt cs 0, cnt cs 1, lcount, rcount] [es ! 0, es ! 1, e]))"
| "insert_at Null i left lcount e right rcount = Null"

text \<open>A node of three elements is split into a node \<open>m\<close> of two, the element to move up, and one of one.\<close>

fun split_4node :: "'e node234 \<Rightarrow> nat \<Rightarrow> 'e node234 \<Rightarrow> int \<Rightarrow> 'e \<Rightarrow> 'e node234 \<Rightarrow> int \<Rightarrow> 'e node234 \<times> 'e \<times> 'e node234" where
  "split_4node (Node ks cs es) i left lcount e right rcount =
     (if i = 0 then
        (Node [left, right, kid ks 1] [lcount, rcount, cnt cs 1] [e, es ! 0], es ! 1,
         Node [kid ks 2, kid ks 3] [cnt cs 2, cnt cs 3] [es ! 2])
      else if i = 1 then
        (Node [kid ks 0, left, right] [cnt cs 0, lcount, rcount] [es ! 0, e], es ! 1,
         Node [kid ks 2, kid ks 3] [cnt cs 2, cnt cs 3] [es ! 2])
      else if i = 2 then
        (Node [kid ks 0, kid ks 1, left] [cnt cs 0, cnt cs 1, lcount] [es ! 0, es ! 1], e,
         Node [right, kid ks 3] [rcount, cnt cs 3] [es ! 2])
      else
        (Node [kid ks 0, kid ks 1, kid ks 2] [cnt cs 0, cnt cs 1, cnt cs 2] [es ! 0, es ! 1], es ! 2,
         Node [left, right] [lcount, rcount] [e]))"
| "split_4node Null i left lcount e right rcount = (Null, e, Null)"

text \<open>Going back up: the counts of the ancestors are recomputed from the children.\<close>

fun set_kid :: "'e node234 \<Rightarrow> nat \<Rightarrow> 'e node234 \<Rightarrow> int \<Rightarrow> 'e node234" where
  "set_kid (Node ks cs es) i k c = Node (ks[i := k]) (cs[i := c]) es"
| "set_kid Null i k c = Null"

fun fix_counts :: "'e path234 \<Rightarrow> 'e node234 \<Rightarrow> 'e node234" where
  "fix_counts [] n = n"
| "fix_counts ((p, i) # path) n = fix_counts path (set_kid p i n (countnode234 n))"

fun insert_up :: "'e path234 \<Rightarrow> 'e node234 \<Rightarrow> int \<Rightarrow> 'e \<Rightarrow> 'e node234 \<Rightarrow> int \<Rightarrow> 'e node234" where
  "insert_up [] left lcount e right rcount = Node [left, right] [lcount, rcount] [e]"
| "insert_up ((n, i) # path) left lcount e right rcount =
     (if elements234 n \<le> 2 then fix_counts path (insert_at n i left lcount e right rcount)
      else (case split_4node n i left lcount e right rcount of
              (m, e, n) \<Rightarrow> insert_up path m (countnode234 m) e n (countnode234 n)))"

definition add234_internal :: "'e tree234 \<Rightarrow> 'e \<Rightarrow> int \<Rightarrow> ('e option \<times> 'e tree234) option" where
  "add234_internal t e index =
     (if root t = Null then Some (Some e, t\<lparr>root := Node [Null, Null] [0, 0] [e]\<rparr>)
      else
        case (case cmp t of
                Some c \<Rightarrow> add_descend (c e) index [] (root t)
              | None \<Rightarrow> if index \<ge> 0 then add_descend (\<lambda>_. 0) index [] (root t) else Undefined) of
          At path \<Rightarrow> Some (Some e, t\<lparr>root := insert_up path Null 0 e Null 0\<rparr>)
        | Already x \<Rightarrow> Some (Some x, t)
        | Fail \<Rightarrow> Some (None, t)
        | Undefined \<Rightarrow> None)"

definition add234 :: "'e tree234 \<Rightarrow> 'e \<Rightarrow> ('e option \<times> 'e tree234) option" where
  "add234 t e = (if cmp t = None then Some (None, t) else add234_internal t e (-1))"

definition addpos234 :: "'e tree234 \<Rightarrow> 'e \<Rightarrow> int \<Rightarrow> ('e option \<times> 'e tree234) option" where
  "addpos234 t e index =
     (if index < 0 \<or> cmp t \<noteq> None then Some (None, t) else add234_internal t e index)"

text \<open>A path that leads from a hole for a tree of height \<open>h\<close> to the root; \<open>sz\<close> is the number of elements
  recorded for the hole.\<close>

fun wfpath :: "nat \<Rightarrow> int \<Rightarrow> 'e path234 \<Rightarrow> bool" where
  "wfpath h sz [] \<longleftrightarrow> True"
| "wfpath h sz ((Node ks cs es, i) # path) \<longleftrightarrow>
     i < length ks \<and> (\<exists>x. valid h x \<and> size234 x = sz \<and> valid (Suc h) (Node (ks[i := x]) cs es)) \<and>
     wfpath (Suc h) (countnode234 (Node ks cs es)) path"
| "wfpath h sz ((Null, i) # path) \<longleftrightarrow> False"

fun lctx :: "'e path234 \<Rightarrow> 'e list" where
  "lctx [] = []"
| "lctx ((n, i) # path) = lctx path @ lpart (kids n) (elems n) i"

fun rctx :: "'e path234 \<Rightarrow> 'e list" where
  "rctx [] = []"
| "rctx ((n, i) # path) = rpart (kids n) (elems n) i @ rctx path"

lemma wfpath_Cons:
  assumes "wfpath h sz ((n, i) # path)"
  obtains ks cs es x where "n = Node ks cs es" "i < length ks" "valid h x" "size234 x = sz"
    "valid (Suc h) (Node (ks[i := x]) cs es)" "wfpath (Suc h) (countnode234 n) path"
  using assms by (cases n) auto

lemma valid_wfpath:
  assumes "valid (Suc h) (Node ks cs es)" and "i < length ks" and "wfpath (Suc h) (countnode234 (Node ks cs es)) path"
  shows "wfpath h (size234 (ks ! i)) ((Node ks cs es, i) # path)"
  using assms by (auto simp: list_all_length intro!: exI [of _ "ks ! i"])

text \<open>Filling the hole with a tree of the same height and updating the count gives a valid node.\<close>

lemma valid_set_kid:
  assumes "valid (Suc h) (Node (ks[i := x]) cs es)" and "i < length ks" and "valid h y"
  shows "valid (Suc h) (Node (ks[i := y]) (cs[i := size234 y]) es)"
proof -
  have "cs = (List.map size234 ks)[i := size234 x]" using assms(1) by (simp add: map_update)
  moreover have "\<forall>k\<in>set (ks[i := y]). valid h k"
  proof
    fix k assume "k \<in> set (ks[i := y])"
    then obtain j where "j < length ks" "k = ks[i := y] ! j" by (auto simp: in_set_conv_nth)
    with assms show "valid h k" by (cases "j = i") (auto simp: list_all_length)
  qed
  ultimately show ?thesis using assms by (simp add: map_update list_all_iff)
qed

lemma inorder_set_kid:
  assumes "length ks = Suc (length es)" and "i < length ks"
  shows "inorder (Node (ks[i := y]) cs es) = lpart ks es i @ inorder y @ rpart ks es i"
  using inorder_split [of "ks[i := y]" es i cs] assms by simp

lemma fix_counts_valid:
  "wfpath h sz path \<Longrightarrow> valid h n \<Longrightarrow>
    (\<exists>H. valid H (fix_counts path n)) \<and> inorder (fix_counts path n) = lctx path @ inorder n @ rctx path"
proof (induction path arbitrary: h sz n)
  case (Cons entry path)
  obtain p i where entry: "entry = (p, i)" by fastforce
  from Cons.prems(1) [unfolded entry] show ?case
  proof (cases rule: wfpath_Cons)
    case (1 ks cs es x)
    let ?n = "Node (ks[i := n]) (cs[i := size234 n]) es"
    have v: "valid (Suc h) ?n" by (rule valid_set_kid [OF 1(5,2) Cons.prems(2)])
    have "fix_counts (entry # path) n = fix_counts path ?n"
      by (simp add: entry 1(1) countnode234_valid [OF Cons.prems(2)])
    moreover have "inorder ?n = lpart ks es i @ inorder n @ rpart ks es i"
      by (rule inorder_set_kid) (use 1 in auto)
    ultimately show ?thesis using Cons.IH [OF 1(6) v] by (simp add: entry 1(1))
  qed
qed auto

lemma insert_at_valid:
  assumes "valid (Suc h) (Node (ks[i := x]) cs es)" and "i < length ks" and "valid h l" and "valid h r"
    and "length es \<le> 2"
  shows "valid (Suc h) (insert_at (Node ks cs es) i l (size234 l) e r (size234 r)) \<and>
    inorder (insert_at (Node ks cs es) i l (size234 l) e r (size234 r)) =
      lpart ks es i @ inorder l @ e # inorder r @ rpart ks es i"
proof -
  from assms(1,5) have "length es = Suc 0 \<or> length es = Suc (Suc 0)" by auto
  moreover have "length ks = Suc (length es)" using assms(1) by simp
  ultimately consider (two) k0 k1 a where "ks = [k0, k1]" "es = [a]"
    | (three) k0 k1 k2 a b where "ks = [k0, k1, k2]" "es = [a, b]"
    by (auto simp: length_Suc_conv)
  then show ?thesis
  proof cases
    case two
    then consider "i = 0" | "i = Suc 0" using assms(2) by fastforce
    then show ?thesis using assms two by cases auto
  next
    case three
    then consider "i = 0" | "i = Suc 0" | "i = Suc (Suc 0)" using assms(2) by fastforce
    then show ?thesis using assms three by cases auto
  qed
qed

lemma split_4node_valid:
  assumes "valid (Suc h) (Node (ks[i := x]) cs es)" and "i < length ks" and "valid h l" and "valid h r"
    and "\<not> length es \<le> 2" and "split_4node (Node ks cs es) i l (size234 l) e r (size234 r) = (m, e', n)"
  shows "valid (Suc h) m \<and> valid (Suc h) n \<and>
    inorder m @ e' # inorder n = lpart ks es i @ inorder l @ e # inorder r @ rpart ks es i"
proof -
  from assms(1,5) have "length es = Suc (Suc (Suc 0))" by auto
  moreover have "length ks = Suc (length es)" using assms(1) by simp
  ultimately obtain k0 k1 k2 k3 a b c where four: "ks = [k0, k1, k2, k3]" "es = [a, b, c]"
    by (auto simp: length_Suc_conv)
  note nums = numeral_2_eq_2 numeral_3_eq_3
  from four assms(2) consider "i = 0" | "i = Suc 0" | "i = Suc (Suc 0)" | "i = Suc (Suc (Suc 0))" by fastforce
  then show ?thesis using assms four by cases (auto simp: nums)
qed

lemma insert_up_valid:
  "wfpath h sz path \<Longrightarrow> valid h l \<Longrightarrow> valid h r \<Longrightarrow>
    (\<exists>H. valid H (insert_up path l (size234 l) e r (size234 r))) \<and>
    inorder (insert_up path l (size234 l) e r (size234 r)) = lctx path @ inorder l @ e # inorder r @ rctx path"
proof (induction path arbitrary: h sz l e r)
  case Nil
  then have "valid (Suc h) (insert_up [] l (size234 l) e r (size234 r))" by simp
  then have "\<exists>H. valid H (insert_up [] l (size234 l) e r (size234 r))" by blast
  then show ?case by simp
next
  case (Cons entry path)
  obtain p i where entry: "entry = (p, i)" by fastforce
  from Cons.prems(1) [unfolded entry] show ?case
  proof (cases rule: wfpath_Cons)
    case (1 ks cs es x)
    show ?thesis
    proof (cases "length es \<le> 2")
      case True
      from insert_at_valid [OF 1(5,2) Cons.prems(2,3) True, of e] fix_counts_valid [OF 1(6)]
      show ?thesis using True by (fastforce simp: entry 1(1) simp del: insert_at.simps)
    next
      case False
      obtain m e' n where s: "split_4node (Node ks cs es) i l (size234 l) e r (size234 r) = (m, e', n)"
        by (metis prod_cases3)
      from split_4node_valid [OF 1(5,2) Cons.prems(2,3) False s]
      have v: "valid (Suc h) m" "valid (Suc h) n"
        and i: "inorder m @ e' # inorder n = lpart ks es i @ inorder l @ e # inorder r @ rpart ks es i" by auto
      have "insert_up (entry # path) l (size234 l) e r (size234 r) = insert_up path m (size234 m) e' n (size234 n)"
        using False s v by (simp add: entry 1(1) countnode234_valid del: split_4node.simps)
      moreover have "lctx path @ inorder m @ e' # inorder n @ rctx path =
          lctx (entry # path) @ inorder l @ e # inorder r @ rctx (entry # path)"
        using i by (metis (no_types, lifting) append.assoc append_Cons entry lctx.simps(2) node234.sel rctx.simps(2) 1(1))
      ultimately show ?thesis using Cons.IH [OF 1(6) v] by simp
    qed
  qed
qed

lemma childnum_indexed_valid:
  fixes ks :: "'e node234 list"
  assumes "valid (Suc h) (Node ks cs es)" and "0 \<le> index" and "index \<le> size234 (Node ks cs es)"
  obtains i j where "childnum_indexed ks cs index = Child i j" "i < length ks" "0 \<le> j" "i < 4"
    "h = 0 \<or> j \<le> size234 (ks ! i)"
    "index = int (length (lpart ks es i)) + (if h = 0 then 0 else j)"
proof -
  define good where "good = (\<lambda>d :: 'e descent. case d of
      Child i j \<Rightarrow> i < length ks \<and> 0 \<le> j \<and> i < 4 \<and> (h = 0 \<or> j \<le> size234 (ks ! i)) \<and>
        index = int (length (lpart ks es i)) + (if h = 0 then 0 else j)
    | _ \<Rightarrow> False)"
  have l: "\<And>k. valid h k \<Longrightarrow> k = Null \<longleftrightarrow> h = 0" by (cases h) auto
  note nums = numeral_2_eq_2 numeral_3_eq_3
  have "good (childnum_indexed ks cs index)"
  proof (cases "h = 0")
    case False
    from assms(1) show ?thesis
    proof (cases rule: valid_cases)
      case (N2 k0 k1 a)
      with assms(2,3) False show ?thesis
        by (auto simp: good_def childnum_indexed_def Let_def nums size234_def)
    next
      case (N3 k0 k1 k2 a b)
      with assms(2,3) False show ?thesis
        by (auto simp: good_def childnum_indexed_def Let_def nums size234_def)
    next
      case (N4 k0 k1 k2 k3 a b c)
      with assms(2,3) False show ?thesis
        by (auto simp: good_def childnum_indexed_def Let_def nums size234_def)
    qed
  next
    case True
    have small: "\<exists>i. index = int i \<and> i \<le> n" if "index \<le> int n" for n
      using that assms(2) by (intro exI [of _ "nat index"]) linarith
    from assms(1) show ?thesis
    proof (cases rule: valid_cases)
      case (N2 k0 k1 a)
      with small [of 1] assms(3) True show ?thesis
        by (auto simp: good_def childnum_indexed_def nums size234_def le_Suc_eq)
    next
      case (N3 k0 k1 k2 a b)
      with small [of 2] assms(3) True show ?thesis
        by (auto simp: good_def childnum_indexed_def nums size234_def le_Suc_eq)
    next
      case (N4 k0 k1 k2 k3 a b c)
      with small [of 3] assms(3) True show ?thesis
        by (auto simp: good_def childnum_indexed_def nums size234_def le_Suc_eq)
    qed
  qed
  then show thesis
    by (cases "childnum_indexed ks cs index") (auto simp: good_def intro: that)
qed

lemma add_descend_indexed:
  assumes "valid h n" and "wfpath h (size234 n) path" and "0 \<le> index" and "h = 0 \<or> index \<le> size234 n"
  shows "\<exists>path'. add_descend c index path n = At path' \<and> wfpath 0 0 path' \<and>
    lctx path' = lctx path @ take (nat index) (inorder n) \<and> rctx path' = drop (nat index) (inorder n) @ rctx path"
  using assms
proof (induction h arbitrary: n path index)
  case 0
  then show ?case by auto
next
  case (Suc h)
  obtain ks cs es where n: "n = Node ks cs es" using Suc.prems(1) by (cases n) auto
  note v = Suc.prems(1) [unfolded n]
  have len: "length ks = Suc (length es)" using v by simp
  have "index \<le> size234 (Node ks cs es)" using Suc.prems(4) n by simp
  from childnum_indexed_valid [OF v Suc.prems(3) this] obtain i j where ij:
    "childnum_indexed ks cs index = Child i j" "i < length ks" "0 \<le> j" "i < 4"
    "h = 0 \<or> j \<le> size234 (ks ! i)"
    "index = int (length (lpart ks es i)) + (if h = 0 then 0 else j)" .
  have k: "valid h (ks ! i)" using v ij(2) by (simp add: list_all_length)
  have "wfpath h (size234 (ks ! i)) ((Node ks cs es, i) # path)"
    using Suc.prems(2) countnode234_valid [OF Suc.prems(1)] by (intro valid_wfpath [OF v ij(2)]) (simp add: n)
  from Suc.IH [OF k this ij(3,5)] obtain path' where p:
    "add_descend c j ((Node ks cs es, i) # path) (ks ! i) = At path'" "wfpath 0 0 path'"
    "lctx path' = lctx path @ lpart ks es i @ take (nat j) (inorder (ks ! i))"
    "rctx path' = drop (nat j) (inorder (ks ! i)) @ rpart ks es i @ rctx path" by auto
  have d: "nat index = length (lpart ks es i) + nat (if h = 0 then 0 else j)" using ij(3,6) by auto
  have "take (nat index) (inorder n) = lpart ks es i @ take (nat j) (inorder (ks ! i))"
    "drop (nat index) (inorder n) = drop (nat j) (inorder (ks ! i)) @ rpart ks es i"
    using k ij(3,5) unfolding n inorder_split [OF len ij(2)] d by (auto simp: size234_def)
  with p show ?case
    using ij(1,2,4) Suc.prems(3) by (auto simp: n kid_def)
qed

text \<open>The order seen from a query: \<open>c x\<close> is the comparison of the query with \<open>x\<close>, positive on the
  elements below it, negative on those above.\<close>

definition cmp_sorted :: "('e \<Rightarrow> int) \<Rightarrow> 'e list \<Rightarrow> bool" where
  "cmp_sorted c xs \<longleftrightarrow> sorted_wrt (\<lambda>a b. sgn (c b) \<le> sgn (c a)) xs"

lemma cmp_sorted_pivot:
  assumes "cmp_sorted c (xs @ a # ys)"
  shows "c a > 0 \<Longrightarrow> x \<in> set xs \<Longrightarrow> c x > 0"
    and "c a < 0 \<Longrightarrow> y \<in> set ys \<Longrightarrow> c y < 0"
  using assms by (fastforce simp: cmp_sorted_def sorted_wrt_append sgn_if split: if_splits)+

lemma cmp_sorted_append:
  "cmp_sorted c (xs @ ys) \<Longrightarrow> cmp_sorted c xs \<and> cmp_sorted c ys"
  by (simp add: cmp_sorted_def sorted_wrt_append)

lemma childnum_sorted_cases:
  assumes "1 \<le> length es" "length es \<le> 3"
  obtains (child) i where "childnum_sorted c es = Child i (-1)" "i \<le> length es" "i < 4"
      "i = 0 \<or> c (es ! (i - 1)) > 0" "i = length es \<or> c (es ! i) < 0"
  | (present) x where "childnum_sorted c es = Present x" "x \<in> set es" "c x = 0"
proof -
  define good where "good = (\<lambda>d. case d of
      Child i j \<Rightarrow> j = -1 \<and> i \<le> length es \<and> i < 4 \<and> (i = 0 \<or> c (es ! (i - 1)) > 0) \<and> (i = length es \<or> c (es ! i) < 0)
    | Present x \<Rightarrow> x \<in> set es \<and> c x = 0
    | OutOfRange \<Rightarrow> False)"
  from assms consider "length es = Suc 0" | "length es = Suc (Suc 0)" | "length es = Suc (Suc (Suc 0))" by linarith
  then have "good (childnum_sorted c es)"
    by cases (auto simp: good_def childnum_sorted_def length_Suc_conv numeral_2_eq_2 numeral_3_eq_3)
  then show thesis
    by (cases "childnum_sorted c es") (auto simp: good_def intro: that)
qed

lemma lpart_in: "i \<le> length es \<Longrightarrow> length ks = Suc (length es) \<Longrightarrow> 0 < i \<Longrightarrow>
    lpart ks es i = lpart ks es (i - 1) @ inorder (ks ! (i - 1)) @ [es ! (i - 1)]"
  using lpart_Suc [of ks es "i - 1"] by simp

text \<open>Descending past the last element below the query and before the first one above it.\<close>

lemma cmp_sorted_child:
  assumes "length ks = Suc (length es)" and "i < length ks" and "cmp_sorted c (inorder (Node ks cs es))"
    and "i = 0 \<or> c (es ! (i - 1)) > 0" and "i = length es \<or> c (es ! i) < 0"
  shows "(\<forall>x\<in>set (lpart ks es i). c x > 0) \<and> (\<forall>x\<in>set (rpart ks es i). c x < 0) \<and>
    cmp_sorted c (inorder (ks ! i))"
proof (intro conjI)
  note sp = inorder_split [OF assms(1,2), of cs]
  show "cmp_sorted c (inorder (ks ! i))"
    using assms(3) unfolding sp by (blast dest: cmp_sorted_append)
  show "\<forall>x\<in>set (lpart ks es i). c x > 0"
  proof (cases "i = 0")
    case False
    with assms have l: "lpart ks es i = (lpart ks es (i - 1) @ inorder (ks ! (i - 1))) @ [es ! (i - 1)]"
      by (simp add: lpart_in)
    with assms(3) False have "cmp_sorted c ((lpart ks es (i - 1) @ inorder (ks ! (i - 1))) @
        es ! (i - 1) # inorder (ks ! i) @ rpart ks es i)"
      unfolding sp by simp
    from cmp_sorted_pivot(1) [OF this] assms(4) False show ?thesis unfolding l by auto
  qed simp
  show "\<forall>x\<in>set (rpart ks es i). c x < 0"
  proof (cases "i = length es")
    case True
    then show ?thesis by (simp add: rpart_def)
  next
    case False
    with assms have r: "rpart ks es i = es ! i # inorder (ks ! Suc i) @ rpart ks es (Suc i)"
      by (simp add: rpart_unfold)
    with assms(3) have "cmp_sorted c ((lpart ks es i @ inorder (ks ! i)) @
        es ! i # inorder (ks ! Suc i) @ rpart ks es (Suc i))"
      unfolding sp by simp
    from cmp_sorted_pivot(2) [OF this] assms(5) False show ?thesis unfolding r by auto
  qed
qed

lemma nth_in_inorder:
  assumes "length ks = Suc (length es)" and "x \<in> set es" shows "x \<in> set (inorder (Node ks cs es))"
proof -
  obtain i where i: "i < length es" "x = es ! i" using assms(2) by (auto simp: in_set_conv_nth)
  then have "i < length ks" by (simp add: assms(1))
  from inorder_split [OF assms(1) this, of cs] i show ?thesis
    by (simp add: rpart_unfold [OF assms(1)])
qed

lemma add_descend_sorted:
  assumes "valid h n" and "wfpath h (size234 n) path" and "cmp_sorted c (inorder n)"
  shows "(\<exists>path' l r. add_descend c (-1) path n = At path' \<and> wfpath 0 0 path' \<and> l @ r = inorder n \<and>
      (\<forall>x\<in>set l. c x > 0) \<and> (\<forall>x\<in>set r. c x < 0) \<and> lctx path' = lctx path @ l \<and> rctx path' = r @ rctx path) \<or>
    (\<exists>x\<in>set (inorder n). add_descend c (-1) path n = Already x \<and> c x = 0)"
  using assms
proof (induction h arbitrary: n path)
  case 0
  then show ?case by auto
next
  case (Suc h)
  obtain ks cs es where n: "n = Node ks cs es" using Suc.prems(1) by (cases n) auto
  note v = Suc.prems(1) [unfolded n]
  have len: "length ks = Suc (length es)" "1 \<le> length es" "length es \<le> 3" using v by simp_all
  from len(2,3) show ?case
  proof (cases rule: childnum_sorted_cases [where c = c])
    case (present x)
    then have "add_descend c (-1) path n = Already x" by (simp add: n)
    moreover have "x \<in> set (inorder n)" unfolding n by (rule nth_in_inorder [OF len(1) present(2)])
    ultimately show ?thesis using present(3) by blast
  next
    case (child i)
    then have i: "i < length ks" by (simp add: len(1))
    have k: "valid h (ks ! i)" using v i by (simp add: list_all_length)
    have wf: "wfpath h (size234 (ks ! i)) ((Node ks cs es, i) # path)"
      using Suc.prems(2) countnode234_valid [OF Suc.prems(1)] by (intro valid_wfpath [OF v i]) (simp add: n)
    from cmp_sorted_child [OF len(1) i Suc.prems(3) [unfolded n] child(4,5)]
    have c: "\<forall>x\<in>set (lpart ks es i). c x > 0" "\<forall>x\<in>set (rpart ks es i). c x < 0" "cmp_sorted c (inorder (ks ! i))"
      by auto
    have d: "add_descend c (-1) path n = add_descend c (-1) ((Node ks cs es, i) # path) (ks ! i)"
      using child(1,3) i by (simp add: n kid_def)
    have sp: "inorder n = lpart ks es i @ inorder (ks ! i) @ rpart ks es i"
      unfolding n by (rule inorder_split [OF len(1) i])
    from Suc.IH [OF k wf c(3)] show ?thesis
    proof (elim disjE exE conjE bexE, goal_cases)
      case (1 path' l r)
      then have "add_descend c (-1) path n = At path' \<and> wfpath 0 0 path' \<and>
        (lpart ks es i @ l) @ (r @ rpart ks es i) = inorder n \<and>
        (\<forall>x\<in>set (lpart ks es i @ l). c x > 0) \<and> (\<forall>x\<in>set (r @ rpart ks es i). c x < 0) \<and>
        lctx path' = lctx path @ (lpart ks es i @ l) \<and> rctx path' = (r @ rpart ks es i) @ rctx path"
        unfolding d sp using c(1,2) by auto
      then show ?case by blast
    next
      case (2 x)
      then show ?case using d sp by auto
    qed
  qed
qed

subsection \<open>The tree as a list\<close>

fun height234 :: "'e node234 \<Rightarrow> nat" where
  "height234 Null = 0"
| "height234 (Node [] cs es) = 1"
| "height234 (Node (k # ks) cs es) = Suc (height234 k)"

definition wf234 :: "'e tree234 \<Rightarrow> bool" where
  "wf234 t \<longleftrightarrow> valid (height234 (root t)) (root t)"

definition list234 :: "'e tree234 \<Rightarrow> 'e list" where
  "list234 t = inorder (root t)"

lemma height234_valid: "valid h n \<Longrightarrow> height234 n = h"
  by (induction h arbitrary: n) (auto elim!: valid_cases)

lemma wf234_iff: "wf234 t \<longleftrightarrow> (\<exists>h. valid h (root t))"
  using height234_valid by (auto simp: wf234_def)

lemma count234_list: "wf234 t \<Longrightarrow> count234 t = int (length (list234 t))"
  by (auto simp: wf234_def count234_def countnode234_valid size234_def list234_def)

lemma add_at:
  assumes "wfpath 0 0 path"
  shows "wf234 (t\<lparr>root := insert_up path Null 0 e Null 0\<rparr>) \<and>
    list234 (t\<lparr>root := insert_up path Null 0 e Null 0\<rparr>) = lctx path @ e # rctx path"
  using insert_up_valid [OF assms, of Null Null e] by (auto simp: wf234_iff list234_def)

lemma add_empty: "wf234 (t\<lparr>root := Node [Null, Null] [0, 0] [e]\<rparr>) \<and>
    list234 (t\<lparr>root := Node [Null, Null] [0, 0] [e]\<rparr>) = [e]"
  by (simp add: wf234_def list234_def)

lemma addpos234_list:
  assumes "wf234 t" and "cmp t = None" and "0 \<le> index" and "index \<le> count234 t"
  shows "\<exists>t'. addpos234 t e index = Some (Some e, t') \<and> wf234 t' \<and> cmp t' = None \<and>
    list234 t' = take (nat index) (list234 t) @ e # drop (nat index) (list234 t)"
proof (cases "root t = Null")
  case True
  then show ?thesis using assms(2-4) add_empty [where t = t and e = e]
    by (auto simp: addpos234_def add234_internal_def list234_def count234_def)
next
  case False
  obtain h where h: "valid h (root t)" using assms(1) by (auto simp: wf234_iff)
  have "index \<le> size234 (root t)"
    using assms(4) False countnode234_valid [OF h] by (simp add: count234_def)
  with add_descend_indexed [OF h _ assms(3), of "[]" "\<lambda>_. 0"] obtain path where p:
    "add_descend (\<lambda>_. 0) index [] (root t) = At path" "wfpath 0 0 path"
    "lctx path = take (nat index) (inorder (root t))" "rctx path = drop (nat index) (inorder (root t))" by auto
  then show ?thesis using add_at [OF p(2), where t = t and e = e] assms(2,3) False
    by (auto simp: addpos234_def add234_internal_def list234_def)
qed

lemma add234_list:
  assumes "wf234 t" and "cmp t = Some c" and "cmp_sorted (c e) (list234 t)"
  shows "(\<exists>l r t'. list234 t = l @ r \<and> (\<forall>x\<in>set l. c e x > 0) \<and> (\<forall>x\<in>set r. c e x < 0) \<and>
      add234 t e = Some (Some e, t') \<and> wf234 t' \<and> cmp t' = Some c \<and> list234 t' = l @ e # r) \<or>
    (\<exists>x\<in>set (list234 t). c e x = 0 \<and> add234 t e = Some (Some x, t))"
proof (cases "root t = Null")
  case True
  then have "list234 t = [] @ [] \<and> add234 t e = Some (Some e, t\<lparr>root := Node [Null, Null] [0, 0] [e]\<rparr>)"
    using assms(2) by (simp add: add234_def add234_internal_def list234_def)
  with add_empty [where t = t and e = e] assms(2) show ?thesis by fastforce
next
  case False
  obtain h where h: "valid h (root t)" using assms(1) by (auto simp: wf234_iff)
  have "wfpath h (size234 (root t)) []" by simp
  from add_descend_sorted [OF h this assms(3) [unfolded list234_def]] show ?thesis
  proof (elim disjE exE conjE bexE, goal_cases)
    case (1 path l r)
    have "add234 t e = Some (Some e, t\<lparr>root := insert_up path Null 0 e Null 0\<rparr>)"
      using 1 assms(2) False by (simp add: add234_def add234_internal_def)
    moreover have "list234 t = l @ r" "lctx path = l" "rctx path = r" using 1 by (auto simp: list234_def)
    ultimately show ?case
      using 1(4,5) add_at [OF 1(2), where t = t and e = e] assms(2) by fastforce
  next
    case (2 x)
    then show ?case using assms(2) False by (auto simp: add234_def add234_internal_def list234_def)
  qed
qed

subsection \<open>Search\<close>

record 'e search234_state =
  s_element :: "'e option"
  s_index :: int
  s_node :: "'e node234"
  s_lo :: int
  s_hi :: int
  s_last :: int
  s_base :: int

text \<open>The three parts of \<open>search234_step\<close>: narrowing to one side of the current element and descending
  when nothing is left in the node, entering a node, and pointing at the middle candidate.\<close>

definition search_narrow :: "'e search234_state \<Rightarrow> int \<Rightarrow> 'e search234_state" where
  "search_narrow st direction =
     (let st = (if direction > 0 then st\<lparr>s_lo := s_last st + 1\<rparr> else st\<lparr>s_hi := s_last st - 1\<rparr>)
      in if s_lo st > s_hi st
         then st\<lparr>s_base := s_base st + sum_list (List.map (\<lambda>i. 1 + cnt (counts (s_node st)) i) [0..<nat (s_lo st)]),
                 s_node := kid (kids (s_node st)) (nat (s_lo st)), s_last := -1\<rparr>
         else st)"

definition search_enter :: "'e search234_state \<Rightarrow> 'e search234_state" where
  "search_enter st =
     st\<lparr>s_lo := 0, s_hi := (if s_node st \<noteq> Null then int (elements234 (s_node st)) - 1 else 0)\<rparr>"

definition search_point :: "'e search234_state \<Rightarrow> 'e search234_state" where
  "search_point st =
     (if s_node st = Null then st\<lparr>s_element := None, s_index := s_base st\<rparr>
      else let last = (s_lo st + s_hi st) div 2
           in st\<lparr>s_last := last,
                 s_element := (if nat last < elements234 (s_node st) then Some (elems (s_node st) ! nat last) else None),
                 s_index := s_base st + last +
                   sum_list (List.map (cnt (counts (s_node st))) [0..<nat last + 1])\<rparr>)"

definition search234_step :: "'e search234_state \<Rightarrow> int \<Rightarrow> 'e search234_state option" where
  "search234_step st direction =
     (if s_node st = Null then Some (st\<lparr>s_element := None, s_index := 0\<rparr>)
      else if s_last st \<noteq> -1 \<and> direction = 0 then None
      else
        let st = (if s_last st \<noteq> -1 then search_narrow st direction else st);
            st = (if s_last st = -1 then search_enter st else st)
        in Some (search_point st))"

definition search234_start :: "'e search234_state \<Rightarrow> 'e tree234 \<Rightarrow> 'e search234_state option" where
  "search234_start st t = search234_step (st\<lparr>s_node := root t, s_base := 0, s_last := -1\<rparr>) 0"

datatype relation234 = REL234_EQ | REL234_LT | REL234_LE | REL234_GT | REL234_GE

definition reldir :: "relation234 \<Rightarrow> int" where
  "reldir r = (if r = REL234_LT \<or> r = REL234_LE then -1 else if r = REL234_GT \<or> r = REL234_GE then 1 else 0)"

definition equal_permitted :: "relation234 \<Rightarrow> bool" where
  "equal_permitted r \<longleftrightarrow> r \<noteq> REL234_LT \<and> r \<noteq> REL234_GT"

text \<open>The comparison of the query with an element, a fixed result when the query is \<open>NULL\<close>.\<close>

definition query_cmp :: "('q \<Rightarrow> 'e \<Rightarrow> int) \<Rightarrow> 'q option \<Rightarrow> relation234 \<Rightarrow> 'e \<Rightarrow> int" where
  "query_cmp c e rel x = (case e of Some q \<Rightarrow> c q x | None \<Rightarrow> - reldir rel)"

text \<open>The search loop, which gives the element found, or the index where it would be.\<close>

partial_function (option) find_loop ::
    "('e \<Rightarrow> int) \<Rightarrow> relation234 \<Rightarrow> 'e search234_state \<Rightarrow> ('e \<times> int + int) option" where
  "find_loop c rel st =
     (case s_element st of
        None \<Rightarrow> Some (Inr (s_index st))
      | Some x \<Rightarrow>
          let cmpret = c x
          in if cmpret = 0 \<and> equal_permitted rel then Some (Inl (x, s_index st))
             else
               let cmpret = (if cmpret = 0 then reldir rel else cmpret)
               in (case search234_step st cmpret of
                     None \<Rightarrow> None
                   | Some st' \<Rightarrow> find_loop c rel st'))"

definition fresh_search :: "'e search234_state" where
  "fresh_search = \<lparr>s_element = None, s_index = 0, s_node = Null, s_lo = 0, s_hi = 0, s_last = 0, s_base = 0\<rparr>"

text \<open>\<open>c\<close> is the comparison function passed, or the one of the tree where the caller passes \<open>NULL\<close>; the
  result is the element and the index stored through \<open>index\<close>, or \<open>NULL\<close>.\<close>

definition findrelpos234 ::
    "'e tree234 \<Rightarrow> 'q option \<Rightarrow> ('q \<Rightarrow> 'e \<Rightarrow> int) \<Rightarrow> relation234 \<Rightarrow> ('e \<times> int) option option" where
  "findrelpos234 t e c rel =
     (case search234_start fresh_search t of
        None \<Rightarrow> None
      | Some ss \<Rightarrow>
          (case find_loop (query_cmp c e rel) rel ss of
             None \<Rightarrow> None
           | Some (Inl (x, i)) \<Rightarrow> Some (Some (x, i))
           | Some (Inr i) \<Rightarrow>
               if rel = REL234_EQ then Some None
               else
                 let i = (if rel = REL234_LT \<or> rel = REL234_LE then i - 1 else i)
                 in Some (map_option (\<lambda>x. (x, i)) (index234 t i))))"

definition find234 :: "'e tree234 \<Rightarrow> 'q \<Rightarrow> ('q \<Rightarrow> 'e \<Rightarrow> int) \<Rightarrow> 'e option option" where
  "find234 t e c = map_option (map_option fst) (findrelpos234 t (Some e) c REL234_EQ)"

definition findrel234 :: "'e tree234 \<Rightarrow> 'q option \<Rightarrow> ('q \<Rightarrow> 'e \<Rightarrow> int) \<Rightarrow> relation234 \<Rightarrow> 'e option option" where
  "findrel234 t e c rel = map_option (map_option fst) (findrelpos234 t e c rel)"

definition findpos234 :: "'e tree234 \<Rightarrow> 'q \<Rightarrow> ('q \<Rightarrow> 'e \<Rightarrow> int) \<Rightarrow> ('e \<times> int) option option" where
  "findpos234 t e c = findrelpos234 t (Some e) c REL234_EQ"

text \<open>The invariant of the search: everything before the subtree compares above, everything after it
  below, and so do the elements outside the window \<open>lo .. hi\<close> of the node.\<close>

definition pointing :: "nat \<Rightarrow> 'e list \<Rightarrow> 'e search234_state \<Rightarrow> bool" where
  "pointing h l st \<longleftrightarrow>
     (if h = 0 then s_node st = Null \<and> s_element st = None \<and> s_index st = int (length l)
      else case s_node st of Null \<Rightarrow> False | Node ks cs es \<Rightarrow>
        0 \<le> s_lo st \<and> s_lo st \<le> s_last st \<and> s_last st \<le> s_hi st \<and> s_hi st < int (length es) \<and>
        s_base st = int (length l) \<and>
        s_element st = Some (es ! nat (s_last st)) \<and>
        s_index st = int (length (l @ lpart ks es (nat (s_last st)) @ inorder (ks ! nat (s_last st)))))"

definition window :: "('e \<Rightarrow> int) \<Rightarrow> 'e search234_state \<Rightarrow> bool" where
  "window c st \<longleftrightarrow>
     (case s_node st of Null \<Rightarrow> True | Node ks cs es \<Rightarrow>
        (s_lo st = 0 \<or> c (es ! nat (s_lo st - 1)) > 0) \<and>
        (s_hi st = int (length es) - 1 \<or> c (es ! nat (s_hi st + 1)) < 0))"

lemma sum_counts_lpart:
  assumes "length ks = Suc (length es)" and "i \<le> length es"
  shows "sum_list (List.map (\<lambda>j. 1 + cnt (List.map size234 ks) j) [0..<i]) = int (length (lpart ks es i))"
  using assms(2)
proof (induction i)
  case (Suc i)
  then have "length (lpart ks es (Suc i)) = length (lpart ks es i) + length (inorder (ks ! i)) + 1"
    using lpart_Suc [OF assms(1), of i] by simp
  with Suc assms(1) show ?case by (simp add: cnt_def size234_def)
qed simp

lemma sum_counts_index:
  assumes "length ks = Suc (length es)" and "i \<le> length es"
  shows "int i + sum_list (List.map (cnt (List.map size234 ks)) [0..<Suc i]) =
    int (length (lpart ks es i @ inorder (ks ! i)))"
proof -
  have "sum_list (List.map (\<lambda>j. 1 + cnt cs j) [0..<i]) = int i + sum_list (List.map (cnt cs) [0..<i])" for cs
    by (induction i) simp_all
  then have "sum_list (List.map (cnt (List.map size234 ks)) [0..<i]) = int (length (lpart ks es i)) - int i"
    using sum_counts_lpart [OF assms] by simp
  moreover have "cnt (List.map size234 ks) i = int (length (inorder (ks ! i)))"
    using assms by (simp add: cnt_def size234_def)
  ultimately show ?thesis by simp
qed

lemma search_point_ok:
  assumes "valid (Suc h) (Node ks cs es)" and "s_node st = Node ks cs es" and "s_base st = int (length l)"
    and "0 \<le> s_lo st" and "s_lo st \<le> s_hi st" and "s_hi st < int (length es)" and "window c st"
  shows "pointing (Suc h) l (search_point st) \<and> window c (search_point st) \<and> s_node (search_point st) = Node ks cs es \<and>
    s_lo (search_point st) = s_lo st \<and> s_hi (search_point st) = s_hi st"
proof -
  define m where "m = (s_lo st + s_hi st) div 2"
  have m: "s_lo st \<le> m" "m \<le> s_hi st" "0 \<le> m" "nat m < length es"
    using assms(4-6) unfolding m_def by linarith+
  have cs: "cs = List.map size234 ks" "length ks = Suc (length es)" using assms(1) by simp_all
  have "int (nat m) + sum_list (List.map (cnt cs) [0..<Suc (nat m)]) =
      int (length (lpart ks es (nat m) @ inorder (ks ! nat m)))"
    unfolding cs(1) by (rule sum_counts_index [OF cs(2)]) (use m in simp)
  then have "s_base st + m + sum_list (List.map (cnt cs) [0..<nat m + 1]) =
      int (length (l @ lpart ks es (nat m) @ inorder (ks ! nat m)))" using assms(3) m(3) by simp
  then have p: "search_point st = st\<lparr>s_last := m, s_element := Some (es ! nat m),
      s_index := int (length (l @ lpart ks es (nat m) @ inorder (ks ! nat m)))\<rparr>"
    using assms(2) m(4) by (simp add: search_point_def Let_def flip: m_def)
  show ?thesis unfolding p using m assms(2-7) by (simp add: pointing_def window_def)
qed

text \<open>Entering a subtree.\<close>

lemma search_enter_ok:
  assumes "valid h (s_node st)" and "s_base st = int (length l)"
  shows "pointing h l (search_point (search_enter st)) \<and> window c (search_point (search_enter st)) \<and>
    s_node (search_point (search_enter st)) = s_node st"
proof (cases h)
  case 0
  then show ?thesis using assms by (simp add: pointing_def window_def search_point_def search_enter_def)
next
  case (Suc k)
  obtain ks cs es where n: "s_node st = Node ks cs es" using assms(1) Suc by (cases "s_node st") auto
  have v: "valid (Suc k) (Node ks cs es)" using assms(1) Suc n by simp
  have "es \<noteq> []" using v by auto
  then have e: "s_node (search_enter st) = Node ks cs es" "s_base (search_enter st) = int (length l)"
    "0 \<le> s_lo (search_enter st)" "s_lo (search_enter st) \<le> s_hi (search_enter st)"
    "s_hi (search_enter st) < int (length es)" "window c (search_enter st)"
    using assms(2) n by (simp_all add: search_enter_def window_def Suc_le_eq)
  from search_point_ok [OF v e] have "pointing (Suc k) l (search_point (search_enter st)) \<and>
    window c (search_point (search_enter st)) \<and> s_node (search_point (search_enter st)) = Node ks cs es" by simp
  then show ?thesis by (simp add: n Suc)
qed

text \<open>One step, to the side the comparison tells: a smaller window in the same node, or the child
  between the elements below and those above.\<close>

lemma search234_step_ok:
  assumes "valid (Suc h) (Node ks cs es)" and "s_node st = Node ks cs es" and "pointing (Suc h) l st"
    and "window c st" and "d \<noteq> 0" and "sgn d = sgn (c (es ! nat (s_last st)))"
  obtains (narrow) st' where "search234_step st d = Some st'" "pointing (Suc h) l st'" "window c st'"
      "s_node st' = Node ks cs es" "s_hi st' - s_lo st' < s_hi st - s_lo st"
  | (down) st' i where "search234_step st d = Some st'" "i < length ks" "pointing h (l @ lpart ks es i) st'"
      "window c st'" "s_node st' = ks ! i" "i = 0 \<or> c (es ! (i - 1)) > 0" "i = length es \<or> c (es ! i) < 0"
proof -
  note p = assms(3) [unfolded pointing_def]
  have r: "0 \<le> s_lo st" "s_lo st \<le> s_last st" "s_last st \<le> s_hi st" "s_hi st < int (length es)"
    "s_base st = int (length l)" using p assms(2) by simp_all
  have len: "length ks = Suc (length es)" and cs: "cs = List.map size234 ks" using assms(1) by simp_all
  define st1 where "st1 = (if d > 0 then st\<lparr>s_lo := s_last st + 1\<rparr> else st\<lparr>s_hi := s_last st - 1\<rparr>)"
  have w: "window c st1"
    using assms(2,4-6) r unfolding window_def st1_def by (auto simp: sgn_if split: if_splits)
  have b: "0 \<le> s_lo st1" "s_hi st1 < int (length es)" "s_lo st1 \<le> s_hi st1 + 1" "s_node st1 = Node ks cs es"
    "s_base st1 = int (length l)" "s_hi st1 - s_lo st1 < s_hi st - s_lo st" "s_last st1 \<noteq> -1"
    using r assms(2) unfolding st1_def by auto
  have step: "search234_step st d = Some (search_point (if s_last (search_narrow st d) = -1
      then search_enter (search_narrow st d) else search_narrow st d))"
    using assms(2,5) r unfolding search234_step_def by (simp add: Let_def)
  show thesis
  proof (cases "s_lo st1 > s_hi st1")
    case False
    then have "search_narrow st d = st1" unfolding search_narrow_def st1_def [symmetric] Let_def by simp
    then have "search234_step st d = Some (search_point st1)" using step b(7) by simp
    with search_point_ok [OF assms(1) b(4,5,1) _ b(2) w] False b(6) narrow show thesis by simp
  next
    case True
    define i where "i = nat (s_lo st1)"
    have i: "i \<le> length es" "s_lo st1 = int i" "s_hi st1 = int i - 1" using b True unfolding i_def by auto
    define st2 where "st2 = st1\<lparr>s_base := int (length (l @ lpart ks es i)), s_node := ks ! i, s_last := -1\<rparr>"
    have "s_base st1 + sum_list (List.map (\<lambda>j. 1 + cnt cs j) [0..<i]) = int (length (l @ lpart ks es i))"
      using sum_counts_lpart [OF len i(1)] b(5) by (simp add: cs)
    then have "search_narrow st d = st2"
      using True b(4) i len unfolding search_narrow_def st1_def [symmetric] Let_def st2_def
      by (simp add: kid_def)
    then have s: "search234_step st d = Some (search_point (search_enter st2))" using step by (simp add: st2_def)
    have il: "i < length ks" using i(1) len by simp
    have k: "valid h (ks ! i)" using assms(1) il by (simp add: list_all_length)
    have "nat (int i - 1) = i - 1" by linarith
    then have "i = 0 \<or> c (es ! (i - 1)) > 0" "i = length es \<or> c (es ! i) < 0"
      using w b(4) i \<open>nat (int i - 1) = i - 1\<close> by (auto simp: window_def)
    with search_enter_ok [of h st2 "l @ lpart ks es i" c] s il k down show thesis by (simp add: st2_def)
  qed
qed

text \<open>Where the search ends: at an element that compares equal, when equality is permitted; otherwise at
  the index that separates the elements below the query from those above it.\<close>

definition effective :: "('e \<Rightarrow> int) \<Rightarrow> relation234 \<Rightarrow> 'e \<Rightarrow> int" where
  "effective c rel x = (if c x = 0 \<and> \<not> equal_permitted rel then reldir rel else c x)"

definition search_result :: "('e \<Rightarrow> int) \<Rightarrow> relation234 \<Rightarrow> 'e list \<Rightarrow> ('e \<times> int + int) \<Rightarrow> bool" where
  "search_result c rel xs res \<longleftrightarrow>
     (case res of
        Inl (x, i) \<Rightarrow> equal_permitted rel \<and> c x = 0 \<and> 0 \<le> i \<and> i < int (length xs) \<and> xs ! nat i = x
      | Inr i \<Rightarrow> 0 \<le> i \<and> i \<le> int (length xs) \<and> (\<forall>x\<in>set (take (nat i) xs). effective c rel x > 0) \<and>
          (\<forall>x\<in>set (drop (nat i) xs). effective c rel x < 0))"

lemma find_loop_ok:
  assumes "valid h (s_node st)" and "cmp_sorted (effective c rel) (inorder (s_node st))"
    and "\<forall>x\<in>set l. effective c rel x > 0" and "\<forall>x\<in>set r. effective c rel x < 0"
    and "pointing h l st" and "window (effective c rel) st"
  shows "\<exists>res. find_loop c rel st = Some res \<and> search_result c rel (l @ inorder (s_node st) @ r) res"
  using assms
proof (induction h arbitrary: st l r)
  case 0
  then show ?case
    by (subst find_loop.simps) (auto simp: pointing_def search_result_def)
next
  case (Suc h)
  note outer = Suc.IH
  show ?case using Suc.prems
  proof (induction "nat (s_hi st - s_lo st)" arbitrary: st rule: less_induct)
    case less
    let ?c = "effective c rel"
    obtain ks cs es where n: "s_node st = Node ks cs es" using less.prems(1) by (cases "s_node st") auto
    note v = less.prems(1) [unfolded n]
    have len: "length ks = Suc (length es)" using v by simp
    define m where "m = nat (s_last st)"
    from less.prems(5) have m: "m < length es" "s_element st = Some (es ! m)" "s_lo st \<le> s_hi st"
      "s_index st = int (length (l @ lpart ks es m @ inorder (ks ! m)))"
      unfolding pointing_def m_def by (auto simp: n)
    show ?case
    proof (cases "c (es ! m) = 0 \<and> equal_permitted rel")
      case True
      then have f: "find_loop c rel st = Some (Inl (es ! m, s_index st))"
        by (subst find_loop.simps) (simp add: m(2))
      have "inorder (Node ks cs es) = (lpart ks es m @ inorder (ks ! m)) @ es ! m # inorder (ks ! Suc m) @ rpart ks es (Suc m)"
        using inorder_split [OF len, of m cs] rpart_unfold [OF len m(1)] m(1) len by simp
      then have "search_result c rel (l @ inorder (s_node st) @ r) (Inl (es ! m, s_index st))"
        using True m(4) by (simp add: search_result_def n nth_append nat_add_distrib)
      with f show ?thesis by blast
    next
      case False
      have nz: "?c (es ! m) \<noteq> 0"
        using False by (auto simp: effective_def reldir_def equal_permitted_def)
      have loop: "find_loop c rel st =
          (case search234_step st (?c (es ! m)) of None \<Rightarrow> None | Some st' \<Rightarrow> find_loop c rel st')"
        using False by (subst find_loop.simps) (auto simp: m(2) effective_def Let_def)
      have "sgn (?c (es ! m)) = sgn (?c (es ! nat (s_last st)))" by (simp add: m_def)
      from v n less.prems(5,6) nz this show ?thesis
      proof (cases rule: search234_step_ok)
        case (narrow st')
        have "s_lo st' \<le> s_hi st'" using narrow(2,4) by (auto simp: pointing_def)
        then have "nat (s_hi st' - s_lo st') < nat (s_hi st - s_lo st)" using narrow(5) by linarith
        from less.hyps [OF this] less.prems(1-4) narrow show ?thesis by (simp add: loop n)
      next
        case (down st' i)
        have sp: "inorder (Node ks cs es) = lpart ks es i @ inorder (ks ! i) @ rpart ks es i"
          by (rule inorder_split [OF len down(2)])
        from cmp_sorted_child [OF len down(2) less.prems(2) [unfolded n] down(6,7)]
        have "\<forall>x\<in>set (l @ lpart ks es i). ?c x > 0" "\<forall>x\<in>set (rpart ks es i @ r). ?c x < 0"
          "cmp_sorted ?c (inorder (s_node st'))" using less.prems(3,4) down(5) by auto
        moreover have "valid h (s_node st')" using v down(2,5) by (simp add: list_all_length)
        ultimately have "\<exists>res. find_loop c rel st' = Some res \<and>
            search_result c rel ((l @ lpart ks es i) @ inorder (s_node st') @ rpart ks es i @ r) res"
          using outer [of st' "l @ lpart ks es i" "rpart ks es i @ r"] down(3,4) by blast
        then show ?thesis by (simp add: loop n sp down(1,5) del: inorder.simps)
      qed
    qed
  qed
qed

subsection \<open>Deletion\<close>

definition remove_nth :: "nat \<Rightarrow> 'a list \<Rightarrow> 'a list" where
  "remove_nth i xs = take i xs @ drop (Suc i) xs"

text \<open>Case 3: before descending into a child with one element, an element is moved into it from a
  sibling (3a), or it is merged with a sibling (3b). The result is the node, the position of the
  child, the child and the index within it.\<close>

fun case_3a_left :: "'e node234 list \<Rightarrow> int list \<Rightarrow> 'e list \<Rightarrow> nat \<Rightarrow> int \<Rightarrow> 'e node234 \<Rightarrow> 'e node234 \<Rightarrow>
    'e node234 \<times> nat \<times> 'e node234 \<times> int" where
  "case_3a_left ks cs es ki index (Node sk sc se) (Node bk bc be) =
     (let lastelem = length se - 1;
          sub = Node (kid sk (lastelem + 1) # bk) (cnt sc (lastelem + 1) # bc) (es ! (ki - 1) # be);
          sib = Node (butlast sk) (butlast sc) (butlast se)
      in (Node (ks[ki := sub, ki - 1 := sib]) (cs[ki := countnode234 sub, ki - 1 := countnode234 sib])
            (es[ki - 1 := se ! lastelem]), ki, sub, index + cnt cs (ki - 1) - countnode234 sib))"
| "case_3a_left ks cs es ki index Null sub = (Null, 0, Null, 0)"
| "case_3a_left ks cs es ki index sib Null = (Null, 0, Null, 0)"

fun case_3a_right :: "'e node234 list \<Rightarrow> int list \<Rightarrow> 'e list \<Rightarrow> nat \<Rightarrow> int \<Rightarrow> 'e node234 \<Rightarrow> 'e node234 \<Rightarrow>
    'e node234 \<times> nat \<times> 'e node234 \<times> int" where
  "case_3a_right ks cs es ki index (Node sk sc se) (Node bk bc be) =
     (let sub = Node (bk @ [kid sk 0]) (bc @ [cnt sc 0]) (be @ [es ! ki]);
          sib = Node (tl sk) (tl sc) (tl se)
      in (Node (ks[ki := sub, ki + 1 := sib]) (cs[ki := countnode234 sub, ki + 1 := countnode234 sib])
            (es[ki := se ! 0]), ki, sub, index))"
| "case_3a_right ks cs es ki index Null sub = (Null, 0, Null, 0)"
| "case_3a_right ks cs es ki index sib Null = (Null, 0, Null, 0)"

fun merge_kids :: "'e node234 \<Rightarrow> 'e \<Rightarrow> 'e node234 \<Rightarrow> 'e node234" where
  "merge_kids (Node ak ac ae) e (Node bk bc be) = Node (ak @ bk) (ac @ bc) (ae @ e # be)"
| "merge_kids Null e b = Null"
| "merge_kids a e Null = Null"

definition case_3b :: "'e node234 list \<Rightarrow> int list \<Rightarrow> 'e list \<Rightarrow> nat \<Rightarrow> int \<Rightarrow>
    ('e node234 \<times> nat \<times> 'e node234 \<times> int) option" where
  "case_3b ks cs es ki index =
     (let index = (if ki > 0 then index + cnt cs (ki - 1) + 1 else index);
          ki = (if ki > 0 then ki - 1 else ki)
      in if kid ks ki = Null \<or> kid ks (ki + 1) = Null then None
         else
           let sub = merge_kids (kid ks ki) (es ! ki) (kid ks (ki + 1))
           in Some (Node (remove_nth ki (ks[ki + 1 := sub])) (remove_nth ki (cs[ki + 1 := countnode234 sub]))
                 (remove_nth ki es), ki, sub, index))"

definition del_enter :: "'e node234 list \<Rightarrow> int list \<Rightarrow> 'e list \<Rightarrow> nat \<Rightarrow> int \<Rightarrow>
    ('e node234 \<times> nat \<times> 'e node234 \<times> int) option" where
  "del_enter ks cs es ki index =
     (let sub = kid ks ki
      in if sub = Null then None
         else if elements234 sub \<ge> 2 then Some (Node ks cs es, ki, sub, index)
         else if ki > 0 \<and> kid ks (ki - 1) = Null then None
         else if ki > 0 \<and> elements234 (kid ks (ki - 1)) \<ge> 2
              then Some (case_3a_left ks cs es ki index (kid ks (ki - 1)) sub)
         else if ki < 3 \<and> kid ks (ki + 1) \<noteq> Null \<and> elements234 (kid ks (ki + 1)) \<ge> 2
              then Some (case_3a_right ks cs es ki index (kid ks (ki + 1)) sub)
         else case_3b ks cs es ki index)"

text \<open>Case 2a and 2b: the last element of the subtree to the left, the first of the one to the right.\<close>

function last_elem :: "'e node234 \<Rightarrow> 'e option" where
  "last_elem Null = None"
| "last_elem (Node ks cs es) =
     (if kid ks 0 = Null then (if es = [] then None else Some (last es)) else last_elem (kid ks (length ks - 1)))"
  by pat_completeness auto
termination
proof (relation "measure size", goal_cases)
  case (2 ks cs es)
  then show ?case by (cases "kid ks (length ks - 1) = Null") (simp_all add: size_kid)
qed simp

function first_elem :: "'e node234 \<Rightarrow> 'e option" where
  "first_elem Null = None"
| "first_elem (Node ks cs es) =
     (if kid ks 0 = Null then (if es = [] then None else Some (es ! 0)) else first_elem (kid ks 0))"
  by pat_completeness auto
termination by (relation "measure size") (auto intro: size_kid)

text \<open>Case 2c: both neighbouring subtrees have one element and are merged around \<open>e\<close>.\<close>

definition case_2c :: "'e node234 list \<Rightarrow> int list \<Rightarrow> 'e list \<Rightarrow> nat \<Rightarrow> 'e node234 \<times> 'e node234 \<times> int" where
  "case_2c ks cs es ei =
     (let a = merge_kids (kid ks ei) (es ! ei) (kid ks (ei + 1))
      in (Node (remove_nth (ei + 1) (ks[ei := a])) (remove_nth (ei + 1) (cs[ei := countnode234 a])) (remove_nth ei es),
          a, cnt (counts a) 0 + cnt (counts a) 1 + 1))"

fun dec_counts :: "'e path234 \<Rightarrow> 'e node234 \<Rightarrow> 'e node234" where
  "dec_counts [] n = n"
| "dec_counts ((p, i) # path) n = dec_counts path (set_kid p i n (cnt (counts p) i - 1))"

text \<open>An emptied root is dropped: the node below it has no parent.\<close>

definition step_path :: "'e node234 \<Rightarrow> nat \<Rightarrow> 'e path234 \<Rightarrow> 'e path234" where
  "step_path n i path = (if elems n = [] then [] else (n, i) # path)"

fun depth :: "'e node234 \<Rightarrow> nat" where
  "depth Null = 0"
| "depth (Node ks cs es) = Suc (fold max (List.map depth ks) 0)"

lemma fold_max_le: "fold max (xs :: nat list) m \<le> d \<longleftrightarrow> m \<le> d \<and> (\<forall>x\<in>set xs. x \<le> d)"
  by (induction xs arbitrary: m) auto

lemma depth_le: "depth (Node ks cs es) \<le> Suc d \<longleftrightarrow> (\<forall>k\<in>set ks. depth k \<le> d)"
  by (simp add: fold_max_le)

lemma depth_kid: "depth (Node ks cs es) = Suc d \<Longrightarrow> depth (kid ks i) \<le> d"
  using depth_le [of ks cs es d] by (auto simp: kid_def simp del: depth.simps(2))

lemma depth_pos: "n \<noteq> Null \<Longrightarrow> \<exists>d. depth n = Suc d"
  by (cases n) auto

lemma depth_case_3a_left:
  assumes "case_3a_left ks cs es ki index a b = (n', ki', sub, index')" and "depth a \<le> d" and "depth b \<le> d" and "0 < d"
  shows "depth sub \<le> d"
proof -
  obtain d' where d: "d = Suc d'" using assms(4) by (cases d) auto
  show ?thesis
    using assms(1-3) unfolding d
    by (cases a; cases b) (auto simp: Let_def fold_max_le kid_def)
qed

lemma depth_case_3a_right:
  assumes "case_3a_right ks cs es ki index a b = (n', ki', sub, index')" and "depth a \<le> d" and "depth b \<le> d" and "0 < d"
  shows "depth sub \<le> d"
proof -
  obtain d' where d: "d = Suc d'" using assms(4) by (cases d) auto
  show ?thesis
    using assms(1-3) unfolding d
    by (cases a; cases b) (auto simp: Let_def fold_max_le kid_def)
qed

lemma depth_merge_kids: "depth a \<le> d \<Longrightarrow> depth b \<le> d \<Longrightarrow> depth (merge_kids a e b) \<le> d"
  by (cases a; cases b; cases d) (auto simp: fold_max_le)

lemma depth_del_enter:
  assumes "del_enter ks cs es ki index = Some (n', ki', sub, index')"
  shows "depth sub < depth (Node ks cs es)"
proof -
  obtain d where d: "depth (Node ks cs es) = Suc d" by simp
  note k = depth_kid [OF d]
  have "0 < d" using assms k [of ki] depth_pos [of "kid ks ki"]
    by (auto simp: del_enter_def Let_def split: if_splits)
  then have "depth sub \<le> d"
    using assms depth_case_3a_left [OF _ k k] depth_case_3a_right [OF _ k k] depth_merge_kids [OF k k] k [of ki]
    by (auto simp: del_enter_def case_3b_def Let_def split: if_splits)
  then show ?thesis using d by simp
qed

lemma depth_case_2c:
  assumes "case_2c ks cs es ei = (n', a, index)" and "kid ks ei \<noteq> Null"
  shows "depth a < depth (Node ks cs es)"
proof -
  obtain d where d: "depth (Node ks cs es) = Suc d" by simp
  from assms(1) have "a = merge_kids (kid ks ei) (es ! ei) (kid ks (ei + 1))"
    by (auto simp: case_2c_def Let_def)
  then show ?thesis using depth_merge_kids [OF depth_kid [OF d] depth_kid [OF d]] d
    by (simp add: less_Suc_eq_le)
qed

text \<open>The deletion loop. \<open>retval\<close> is set at the first element found; in case 2 the loop goes on with
  the element that replaced it as the target.\<close>

function del_loop :: "'e path234 \<Rightarrow> 'e node234 \<Rightarrow> int \<Rightarrow> 'e option \<Rightarrow> ('e \<times> 'e node234) option" where
  "del_loop path Null index retval = None"
| "del_loop path (Node ks cs es) index retval =
     (case locate cs index of
        InKid ki index \<Rightarrow>
          (case del_enter ks cs es ki index of
             None \<Rightarrow> None
           | Some (n, ki, sub, index) \<Rightarrow> del_loop (step_path n ki path) sub index retval)
      | AtElem ei \<Rightarrow>
          if ei \<ge> length es then None
          else
            let ret = (case retval of None \<Rightarrow> es ! ei | Some r \<Rightarrow> r)
            in if path = [] \<and> length es \<le> 1 \<and> kid ks 0 = Null then Some (ret, Null)
               else if kid ks 0 = Null \<and> length es \<ge> 2
                    then Some (ret, dec_counts path (Node (butlast ks) (butlast cs) (remove_nth ei es)))
               else if kid ks ei = Null \<or> kid ks (ei + 1) = Null then None
               else if elements234 (kid ks ei) \<ge> 2
                    then (case last_elem (kid ks ei) of
                            None \<Rightarrow> None
                          | Some target \<Rightarrow>
                              del_loop ((Node ks cs (es[ei := target]), ei) # path) (kid ks ei) (cnt cs ei - 1) (Some ret))
               else if elements234 (kid ks (ei + 1)) \<ge> 2
                    then (case first_elem (kid ks (ei + 1)) of
                            None \<Rightarrow> None
                          | Some target \<Rightarrow>
                              del_loop ((Node ks cs (es[ei := target]), ei + 1) # path) (kid ks (ei + 1)) 0 (Some ret))
               else (case case_2c ks cs es ei of
                       (n, a, index) \<Rightarrow> del_loop (step_path n ei path) a index (Some ret)))"
  by pat_completeness auto
termination
proof (relation "measure (\<lambda>(path, n, index, retval). depth n)", goal_cases)
  case (2 path ks cs es index retval ki index' y n z ki' w sub index'')
  then have "del_enter ks cs es ki index' = Some (n, ki', sub, index'')" by simp
  then show ?case using depth_del_enter by simp
next
  case (3 path ks cs es index retval ei ret target)
  then show ?case using depth_kid [of ks cs es _ ei] by (simp add: less_Suc_eq_le)
next
  case (4 path ks cs es index retval ei ret target)
  then show ?case using depth_kid [of ks cs es _ "ei + 1"] by (simp add: less_Suc_eq_le)
next
  case (5 path ks cs es index retval ei ret n y a index')
  then have "case_2c ks cs es ei = (n, a, index')" "kid ks ei \<noteq> Null" by simp_all
  then show ?case using depth_case_2c by simp
qed simp

definition delpos234_internal :: "'e tree234 \<Rightarrow> int \<Rightarrow> ('e option \<times> 'e tree234) option" where
  "delpos234_internal t index =
     (case del_loop [] (root t) index None of
        None \<Rightarrow> None
      | Some (ret, n) \<Rightarrow> Some (Some ret, t\<lparr>root := n\<rparr>))"

definition delpos234 :: "'e tree234 \<Rightarrow> int \<Rightarrow> ('e option \<times> 'e tree234) option" where
  "delpos234 t index =
     (if index < 0 \<or> index \<ge> countnode234 (root t) then Some (None, t) else delpos234_internal t index)"

definition del234 :: "'e tree234 \<Rightarrow> 'q \<Rightarrow> ('q \<Rightarrow> 'e \<Rightarrow> int) \<Rightarrow> ('e option \<times> 'e tree234) option" where
  "del234 t e c =
     (case findrelpos234 t (Some e) c REL234_EQ of
        None \<Rightarrow> None
      | Some None \<Rightarrow> Some (None, t)
      | Some (Some (x, index)) \<Rightarrow> delpos234_internal t index)"

text \<open>What entering a child must establish: the same list, the same position in it, a child with two
  elements at least, and a valid node around it unless the root has just been emptied.\<close>

definition entered :: "nat \<Rightarrow> 'e list \<Rightarrow> int \<Rightarrow> 'e node234 \<times> nat \<times> 'e node234 \<times> int \<Rightarrow> bool" where
  "entered h xs pos res \<longleftrightarrow>
     (case res of (n, i, sub, j) \<Rightarrow>
        i < length (kids n) \<and> kids n ! i = sub \<and> valid h sub \<and> 2 \<le> elements234 sub \<and> 0 \<le> j \<and> j < size234 sub \<and>
        inorder n = xs \<and> n \<noteq> Null \<and> pos = int (length (lpart (kids n) (elems n) i)) + j \<and>
        (valid (Suc h) n \<or> elems n = [] \<and> kids n = [sub]))"

lemma valid_two: "valid (Suc h) n \<Longrightarrow> \<not> 2 \<le> elements234 n \<Longrightarrow>
    \<exists>k0 k1 a. n = Node [k0, k1] [size234 k0, size234 k1] [a] \<and> valid h k0 \<and> valid h k1"
  by (auto elim!: valid_cases)

lemma valid_more: "valid (Suc h) n \<Longrightarrow> 2 \<le> elements234 n \<Longrightarrow>
    (\<exists>k0 k1 k2 a b. n = Node [k0, k1, k2] [size234 k0, size234 k1, size234 k2] [a, b] \<and>
       valid h k0 \<and> valid h k1 \<and> valid h k2) \<or>
    (\<exists>k0 k1 k2 k3 a b c. n = Node [k0, k1, k2, k3] [size234 k0, size234 k1, size234 k2, size234 k3] [a, b, c] \<and>
       valid h k0 \<and> valid h k1 \<and> valid h k2 \<and> valid h k3)"
  by (auto elim!: valid_cases)

text \<open>A node seen from two neighbouring children \<open>s\<close> and \<open>b\<close> and the element \<open>e\<close> between them.\<close>

definition rest_of :: "'e node234 list \<Rightarrow> 'e list \<Rightarrow> 'e list" where
  "rest_of post qe = concat (map2 (\<lambda>e k. e # inorder k) qe post)"

lemma interleave_left:
  "length pre = length pe \<Longrightarrow> interleave (List.map inorder pre @ ks) (pe @ es) =
    lpart pre pe (length pre) @ interleave ks es"
  by (induction pre pe rule: list_induct2) simp_all

lemma interleave_right:
  "length post = length qe \<Longrightarrow> interleave (k # List.map inorder post) qe = k @ rest_of post qe"
  by (induction post qe arbitrary: k rule: list_induct2) (simp_all add: rest_of_def)

lemma pair_list:
  assumes "length pe = length pre" and "length post = length qe"
  shows "inorder (Node (pre @ s # b # post) cs (pe @ e # qe)) =
      lpart pre pe (length pre) @ inorder s @ e # inorder b @ rest_of post qe"
    and "inorder (Node (pre @ m # post) cs' (pe @ qe)) = lpart pre pe (length pre) @ inorder m @ rest_of post qe"
    and "lpart (pre @ x) (pe @ y) (length pre) = lpart pre pe (length pre)"
    and "lpart (pre @ s # x) (pe @ e # y) (Suc (length pre)) = lpart pre pe (length pre) @ inorder s @ [e]"
  using assms interleave_left [of pre pe] interleave_right [OF assms(2)]
  by (simp_all add: lpart_def)

lemma valid_pair:
  assumes "valid (Suc h) (Node ks cs es)" and "Suc k < length ks"
  obtains pre s b post pe e qe where "ks = pre @ s # b # post" "es = pe @ e # qe" "length pre = k" "length pe = k"
    "length post = length qe" "cs = List.map size234 ks" "valid h s" "valid h b"
    "list_all (valid h) pre" "list_all (valid h) post" "length pe + length qe \<le> 2"
proof -
  have l: "length ks = Suc (length es)" "cs = List.map size234 ks" "list_all (valid h) ks" "length es \<le> 3"
    using assms(1) by simp_all
  have ks: "ks = take k ks @ ks ! k # ks ! Suc k # drop (Suc (Suc k)) ks"
    using assms(2) by (simp add: Cons_nth_drop_Suc)
  have es: "es = take k es @ es ! k # drop (Suc k) es"
    using assms(2) l(1) by (simp add: Cons_nth_drop_Suc)
  show thesis
    by (rule that [OF ks es]) (use assms(2) l in \<open>auto simp: list_all_length list_all_iff dest: in_set_takeD in_set_dropD\<close>)
qed

lemma remove_nth_append [simp]: "remove_nth (length xs) (xs @ y # ys) = xs @ ys"
  "remove_nth (Suc (length xs)) (xs @ x # y # ys) = xs @ x # ys"
  by (simp_all add: remove_nth_def)

text \<open>Replacing the two children and the element between them by others that hold the same list.\<close>

lemma entered_pair:
  assumes "length pe = length pre" and "length post = length qe" and "length pe + length qe \<le> 2"
    and "list_all (valid h) pre" and "list_all (valid h) post" and "valid h s'" and "valid h b'"
    and "inorder s @ e # inorder b = inorder s' @ e' # inorder b'"
    and "cs' = List.map size234 (pre @ s' # b' # post)"
  shows "2 \<le> elements234 s' \<Longrightarrow> 0 \<le> j \<Longrightarrow> j < size234 s' \<Longrightarrow> pos = int (length (lpart pre pe (length pre))) + j \<Longrightarrow>
      entered h (inorder (Node (pre @ s # b # post) cs (pe @ e # qe))) pos
        (Node (pre @ s' # b' # post) cs' (pe @ e' # qe), length pre, s', j)"
    and "2 \<le> elements234 b' \<Longrightarrow> 0 \<le> j \<Longrightarrow> j < size234 b' \<Longrightarrow>
      pos = int (length (lpart pre pe (length pre) @ inorder s' @ [e'])) + j \<Longrightarrow>
      entered h (inorder (Node (pre @ s # b # post) cs (pe @ e # qe))) pos
        (Node (pre @ s' # b' # post) cs' (pe @ e' # qe), Suc (length pre), b', j)"
proof -
  have v: "valid (Suc h) (Node (pre @ s' # b' # post) cs' (pe @ e' # qe))" using assms by simp
  have i: "inorder (Node (pre @ s' # b' # post) cs' (pe @ e' # qe)) = inorder (Node (pre @ s # b # post) cs (pe @ e # qe))"
    unfolding pair_list(1) [OF assms(1,2)] by (metis append.assoc append_Cons assms(8))
  note l = pair_list(3,4) [OF assms(1,2)]
  show "2 \<le> elements234 s' \<Longrightarrow> 0 \<le> j \<Longrightarrow> j < size234 s' \<Longrightarrow> pos = int (length (lpart pre pe (length pre))) + j \<Longrightarrow>
      entered h (inorder (Node (pre @ s # b # post) cs (pe @ e # qe))) pos
        (Node (pre @ s' # b' # post) cs' (pe @ e' # qe), length pre, s', j)"
    unfolding entered_def prod.case i [symmetric] using v assms(6)
    by (simp add: l nth_append del: inorder.simps valid.simps)
  show "2 \<le> elements234 b' \<Longrightarrow> 0 \<le> j \<Longrightarrow> j < size234 b' \<Longrightarrow>
      pos = int (length (lpart pre pe (length pre) @ inorder s' @ [e'])) + j \<Longrightarrow>
      entered h (inorder (Node (pre @ s # b # post) cs (pe @ e # qe))) pos
        (Node (pre @ s' # b' # post) cs' (pe @ e' # qe), Suc (length pre), b', j)"
    unfolding entered_def prod.case i [symmetric] using v assms(7)
    by (simp add: l nth_append del: inorder.simps valid.simps)
qed

lemma case_3a_left_ok:
  assumes "valid (Suc (Suc h)) (Node ks cs es)" and "Suc k < length ks" and "\<not> 2 \<le> elements234 (ks ! Suc k)"
    and "2 \<le> elements234 (ks ! k)" and "0 \<le> j" and "j < size234 (ks ! Suc k)"
  shows "entered (Suc h) (inorder (Node ks cs es)) (int (length (lpart ks es (Suc k))) + j)
    (case_3a_left ks cs es (Suc k) j (ks ! k) (ks ! Suc k))"
proof -
  from valid_pair [OF assms(1,2)] obtain pre s b post pe e qe where n: "ks = pre @ s # b # post" "es = pe @ e # qe"
    "length pre = k" "length pe = k" "length post = length qe" "cs = List.map size234 ks" "valid (Suc h) s"
    "valid (Suc h) b" "list_all (valid (Suc h)) pre" "list_all (valid (Suc h)) post" "length pe + length qe \<le> 2" .
  have sb: "ks ! Suc k = b" "ks ! k = s" using n(1,3) by (auto simp: nth_append)
  have pl: "length pe = length pre" "k = length pre" using n(3,4) by simp_all
  from valid_two [OF n(8) assms(3) [unfolded sb]] obtain b0 b1 x where
    b: "b = Node [b0, b1] [size234 b0, size234 b1] [x]" "valid h b0" "valid h b1" by auto
  obtain s' k2 e' where s': "valid (Suc h) s'" "valid h k2" "inorder s = inorder s' @ e' # inorder k2"
    "case_3a_left ks cs es (Suc k) j s b =
       (Node (pre @ s' # Node [k2, b0, b1] [size234 k2, size234 b0, size234 b1] [e, x] # post)
          (List.map size234 (pre @ s' # Node [k2, b0, b1] [size234 k2, size234 b0, size234 b1] [e, x] # post))
          (pe @ e' # qe), Suc k, Node [k2, b0, b1] [size234 k2, size234 b0, size234 b1] [e, x],
        j + size234 s - size234 s')"
  proof -
    from valid_more [OF n(7) assms(4) [unfolded sb]] consider
      (3) k0 k1 k2 a c where "s = Node [k0, k1, k2] [size234 k0, size234 k1, size234 k2] [a, c]"
        "valid h k0" "valid h k1" "valid h k2"
      | (4) k0 k1 k2 k3 a c d where "s = Node [k0, k1, k2, k3] [size234 k0, size234 k1, size234 k2, size234 k3] [a, c, d]"
        "valid h k0" "valid h k1" "valid h k2" "valid h k3" by blast
    then show thesis
    proof cases
      case (3 k0 k1 k2 a c)
      show thesis
        by (rule that [of "Node [k0, k1] [size234 k0, size234 k1] [a]" k2 c])
          (use 3 in \<open>auto simp: b n(1,2,6) pl Let_def nth_append list_update_append cnt_def size234_def\<close>)
    next
      case (4 k0 k1 k2 k3 a c d)
      show thesis
        by (rule that [of "Node [k0, k1, k2] [size234 k0, size234 k1, size234 k2] [a, c]" k3 d])
          (use 4 in \<open>auto simp: b n(1,2,6) pl Let_def nth_append list_update_append cnt_def size234_def\<close>)
    qed
  qed
  have j: "j < size234 b" using assms(6) by (simp add: sb)
  show ?thesis
    unfolding sb s'(4) unfolding n(1,2) pl(2)
    by (rule entered_pair(2) [OF pl(1) n(5,11,9,10) s'(1)])
      (use s'(1,2) b assms(5) j in \<open>auto simp: pair_list(4) [OF pl(1) n(5)] s'(3) size234_def\<close>)
qed

lemma case_3a_right_ok:
  assumes "valid (Suc (Suc h)) (Node ks cs es)" and "Suc k < length ks" and "\<not> 2 \<le> elements234 (ks ! k)"
    and "2 \<le> elements234 (ks ! Suc k)" and "0 \<le> j" and "j < size234 (ks ! k)"
  shows "entered (Suc h) (inorder (Node ks cs es)) (int (length (lpart ks es k)) + j)
    (case_3a_right ks cs es k j (ks ! Suc k) (ks ! k))"
proof -
  from valid_pair [OF assms(1,2)] obtain pre s b post pe e qe where n: "ks = pre @ s # b # post" "es = pe @ e # qe"
    "length pre = k" "length pe = k" "length post = length qe" "cs = List.map size234 ks" "valid (Suc h) s"
    "valid (Suc h) b" "list_all (valid (Suc h)) pre" "list_all (valid (Suc h)) post" "length pe + length qe \<le> 2" .
  have sb: "ks ! Suc k = b" "ks ! k = s" using n(1,3) by (auto simp: nth_append)
  have pl: "length pe = length pre" "k = length pre" using n(3,4) by simp_all
  from valid_two [OF n(7) assms(3) [unfolded sb]] obtain s0 s1 x where
    s: "s = Node [s0, s1] [size234 s0, size234 s1] [x]" "valid h s0" "valid h s1" by auto
  obtain b' k0 e' where b': "valid (Suc h) b'" "valid h k0" "inorder b = inorder k0 @ e' # inorder b'"
    "case_3a_right ks cs es k j b s =
       (Node (pre @ Node [s0, s1, k0] [size234 s0, size234 s1, size234 k0] [x, e] # b' # post)
          (List.map size234 (pre @ Node [s0, s1, k0] [size234 s0, size234 s1, size234 k0] [x, e] # b' # post))
          (pe @ e' # qe), k, Node [s0, s1, k0] [size234 s0, size234 s1, size234 k0] [x, e], j)"
  proof -
    from valid_more [OF n(8) assms(4) [unfolded sb]] consider
      (3) k0 k1 k2 a c where "b = Node [k0, k1, k2] [size234 k0, size234 k1, size234 k2] [a, c]"
        "valid h k0" "valid h k1" "valid h k2"
      | (4) k0 k1 k2 k3 a c d where "b = Node [k0, k1, k2, k3] [size234 k0, size234 k1, size234 k2, size234 k3] [a, c, d]"
        "valid h k0" "valid h k1" "valid h k2" "valid h k3" by blast
    then show thesis
    proof cases
      case (3 k0 k1 k2 a c)
      show thesis
        by (rule that [of "Node [k1, k2] [size234 k1, size234 k2] [c]" k0 a])
          (use 3 in \<open>auto simp: s n(1,2,6) pl Let_def nth_append list_update_append size234_def\<close>)
    next
      case (4 k0 k1 k2 k3 a c d)
      show thesis
        by (rule that [of "Node [k1, k2, k3] [size234 k1, size234 k2, size234 k3] [c, d]" k0 a])
          (use 4 in \<open>auto simp: s n(1,2,6) pl Let_def nth_append list_update_append size234_def\<close>)
    qed
  qed
  have j: "j < size234 s" using assms(6) by (simp add: sb)
  show ?thesis
    unfolding sb b'(4) unfolding n(1,2) pl(2)
    by (rule entered_pair(1) [OF pl(1) n(5,11,9,10) _ b'(1)])
      (use b'(1,2) s assms(5) j in \<open>auto simp: pair_list(3) [OF pl(1) n(5)] b'(3) size234_def\<close>)
qed

text \<open>Two children of one element each merged around the element between them.\<close>

lemma entered_merge:
  assumes "valid (Suc (Suc h)) (Node ks cs es)" and "Suc k < length ks"
    and "\<not> 2 \<le> elements234 (ks ! k)" and "\<not> 2 \<le> elements234 (ks ! Suc k)"
    and "a = merge_kids (ks ! k) (es ! k) (ks ! Suc k)"
    and "ks' = take k ks @ a # drop (Suc (Suc k)) ks" and "cs' = List.map size234 ks'"
  shows "countnode234 a = size234 a \<and>
    (0 \<le> j \<longrightarrow> j < size234 a \<longrightarrow> pos = int (length (lpart ks es k)) + j \<longrightarrow>
      entered (Suc h) (inorder (Node ks cs es)) pos (Node ks' cs' (remove_nth k es), k, a, j)) \<and>
    size234 a = size234 (ks ! k) + size234 (ks ! Suc k) + 1 \<and>
    cnt (counts a) 0 + cnt (counts a) 1 + 1 = size234 (ks ! k)"
proof -
  from valid_pair [OF assms(1,2)] obtain pre s b post pe e qe where n: "ks = pre @ s # b # post" "es = pe @ e # qe"
    "length pre = k" "length pe = k" "length post = length qe" "cs = List.map size234 ks" "valid (Suc h) s"
    "valid (Suc h) b" "list_all (valid (Suc h)) pre" "list_all (valid (Suc h)) post" "length pe + length qe \<le> 2" .
  have sb: "ks ! Suc k = b" "ks ! k = s" "es ! k = e" using n(1-4) by (auto simp: nth_append)
  have pl: "length pe = length pre" "k = length pre" using n(3,4) by simp_all
  from valid_two [OF n(7) assms(3) [unfolded sb]] valid_two [OF n(8) assms(4) [unfolded sb]]
  obtain s0 s1 x b0 b1 y where
    s: "s = Node [s0, s1] [size234 s0, size234 s1] [x]" "valid h s0" "valid h s1" and
    b: "b = Node [b0, b1] [size234 b0, size234 b1] [y]" "valid h b0" "valid h b1" by auto
  have a: "a = Node [s0, s1, b0, b1] [size234 s0, size234 s1, size234 b0, size234 b1] [x, e, y]"
    using assms(5) by (simp add: sb s(1) b(1))
  have va: "valid (Suc h) a" using s b by (simp add: a)
  have ia: "inorder a = inorder s @ e # inorder b" by (simp add: a s(1) b(1))
  have ks': "ks' = pre @ a # post" using assms(6) by (simp add: n(1) pl(2))
  have es': "remove_nth k es = pe @ qe" unfolding n(2) n(4) [symmetric] by simp
  have i: "inorder (Node ks' cs' (pe @ qe)) = inorder (Node ks cs es)"
    unfolding ks' n(1,2) pair_list(1,2) [OF pl(1) n(5)] ia by simp
  have l: "lpart ks' (pe @ qe) k = lpart ks es k"
    unfolding ks' n(1,2) pl(2) pair_list(3) [OF pl(1) n(5)] by simp
  have v: "valid (Suc (Suc h)) (Node ks' cs' (pe @ qe)) \<or> pe @ qe = [] \<and> ks' = [a]"
  proof (cases "pe @ qe = []")
    case True
    then show ?thesis using n(5) pl(1) by (simp add: ks')
  next
    case False
    then have "1 \<le> length pre + length qe" using pl(1) by (cases pre; cases qe) auto
    then show ?thesis using n(5,9-11) pl(1) va assms(7) by (simp add: ks')
  qed
  have "entered (Suc h) (inorder (Node ks cs es)) pos (Node ks' cs' (pe @ qe), k, a, j)"
    if "0 \<le> j" "j < size234 a" "pos = int (length (lpart ks es k)) + j"
    unfolding entered_def prod.case i [symmetric] using that v va l
    by (auto simp: a ks' pl(2) simp del: inorder.simps(2) valid.simps)
  moreover have "size234 a = size234 s + size234 b + 1" "countnode234 a = size234 a"
    using countnode234_valid [OF va] by (simp_all add: size234_def ia)
  moreover have "cnt (counts a) 0 + cnt (counts a) 1 + 1 = size234 s" by (simp add: a s(1) size234_def)
  ultimately show ?thesis by (simp add: sb es')
qed

lemma remove_nth_update:
  assumes "Suc k < length xs"
  shows "remove_nth k (xs[Suc k := x]) = take k xs @ x # drop (Suc (Suc k)) xs"
    and "remove_nth (Suc k) (xs[k := x]) = take k xs @ x # drop (Suc (Suc k)) xs"
  using assms by (simp_all add: remove_nth_def upd_conv_take_nth_drop drop_Cons' take_Suc_conv_app_nth)

lemma map_merge: "Suc k < length ks \<Longrightarrow>
    take k (List.map f ks) @ f a # drop (Suc (Suc k)) (List.map f ks) = List.map f (take k ks @ a # drop (Suc (Suc k)) ks)"
  by (simp add: take_map drop_map)

lemma case_3b_ok:
  assumes "valid (Suc (Suc h)) (Node ks cs es)" and "ki < length ks" and "\<not> 2 \<le> elements234 (ks ! ki)"
    and "ki > 0 \<Longrightarrow> \<not> 2 \<le> elements234 (ks ! (ki - 1))" and "ki = 0 \<Longrightarrow> \<not> 2 \<le> elements234 (ks ! 1)"
    and "0 \<le> j" and "j < size234 (ks ! ki)"
  shows "\<exists>res. case_3b ks cs es ki j = Some res \<and>
    entered (Suc h) (inorder (Node ks cs es)) (int (length (lpart ks es ki)) + j) res"
proof -
  define k where "k = (if ki > 0 then ki - 1 else ki)"
  define index where "index = (if ki > 0 then j + cnt cs (ki - 1) + 1 else j)"
  have len: "length ks = Suc (length es)" "1 \<le> length es" and cs: "cs = List.map size234 ks" using assms(1) by simp_all
  have k: "Suc k < length ks" using assms(2) len by (auto simp: k_def)
  have two: "\<not> 2 \<le> elements234 (ks ! k)" "\<not> 2 \<le> elements234 (ks ! Suc k)"
    using assms(3-5) by (auto simp: k_def)
  have nn: "ks ! i \<noteq> Null" if "i < length ks" for i
    using that assms(1) by (auto simp: list_all_length simp del: valid.simps(1))
  have kk: "kid ks k = ks ! k" "kid ks (k + 1) = ks ! Suc k" using k by (simp_all add: kid_def)
  define a where "a = merge_kids (ks ! k) (es ! k) (ks ! Suc k)"
  define ks' where "ks' = take k ks @ a # drop (Suc (Suc k)) ks"
  note m = entered_merge [OF assms(1) k two a_def ks'_def refl]
  have "case_3b ks cs es ki j = Some (Node ks' (List.map size234 ks') (remove_nth k es), k, a, index)"
    unfolding case_3b_def Let_def k_def [symmetric] index_def [symmetric] kk a_def [symmetric]
    using nn k m [of j] remove_nth_update(1) [of k ks a] remove_nth_update(1) [of k cs "size234 a"]
      map_merge [OF k, of size234 a]
    by (simp add: cs ks'_def)
  moreover have "int (length (lpart ks es ki)) + j = int (length (lpart ks es k)) + index"
  proof (cases "ki = 0")
    case False
    then have "lpart ks es ki = lpart ks es k @ inorder (ks ! k) @ [es ! k]"
      using lpart_in [of ki es ks] assms(2) len by (simp add: k_def)
    moreover have "cnt cs k = size234 (ks ! k)" using k by (simp add: cs cnt_def)
    ultimately show ?thesis using False by (simp add: index_def k_def size234_def)
  qed (simp add: k_def index_def)
  moreover have "0 \<le> index \<and> index < size234 a"
  proof -
    have sz: "size234 a = size234 (ks ! k) + size234 (ks ! Suc k) + 1" using m [of j] by blast
    note nonneg = size234_nonneg [of "ks ! Suc k"] size234_nonneg [of "ks ! k"]
    show ?thesis
    proof (cases "ki = 0")
      case True
      then show ?thesis using sz nonneg assms(6,7)
        by (simp only: index_def k_def less_irrefl if_False simp_thms)
    next
      case False
      then have ki: "ki = Suc k" by (simp add: k_def)
      moreover have "index = j + size234 (ks ! k) + 1" using k by (simp add: index_def ki cs cnt_def)
      ultimately show ?thesis using sz nonneg assms(6,7) by simp
    qed
  qed
  ultimately show ?thesis using m [of index] by auto
qed

lemma del_enter_ok:
  assumes "valid (Suc h) (Node ks cs es)" and "ki < length ks" and "0 \<le> j" and "j < size234 (ks ! ki)"
  shows "\<exists>res. del_enter ks cs es ki j = Some res \<and>
    entered h (inorder (Node ks cs es)) (int (length (lpart ks es ki)) + j) res"
proof -
  have v: "valid h (ks ! i)" if "i < length ks" for i using assms(1) that by (simp add: list_all_length)
  have "h \<noteq> 0"
  proof
    assume "h = 0"
    with v [OF assms(2)] have "ks ! ki = Null" by simp
    with assms(3,4) show False by simp
  qed
  then obtain h' where h: "h = Suc h'" by (cases h) auto
  have nn: "kid ks i = ks ! i" "ks ! i \<noteq> Null" if "i < length ks" for i
    using v [OF that] that by (auto simp: h kid_def)
  note va = assms(1) [unfolded h]
  have k4: "length ks \<le> 4" "1 < length ks" using assms(1) by auto
  show ?thesis
  proof (cases "2 \<le> elements234 (ks ! ki)")
    case True
    then have "entered h (inorder (Node ks cs es)) (int (length (lpart ks es ki)) + j) (Node ks cs es, ki, ks ! ki, j)"
      using assms v [OF assms(2)] by (simp add: entered_def del: inorder.simps valid.simps)
    with True show ?thesis using nn [OF assms(2)] by (simp add: del_enter_def)
  next
    case False
    show ?thesis
    proof (cases "0 < ki \<and> 2 \<le> elements234 (ks ! (ki - 1))")
      case left: True
      then obtain k where k: "ki = Suc k" by (cases ki) auto
      have "del_enter ks cs es ki j = Some (case_3a_left ks cs es ki j (ks ! k) (ks ! ki))"
        using left False nn [OF assms(2)] nn [of k] assms(2) by (simp add: del_enter_def k)
      then show ?thesis
        using case_3a_left_ok [OF va, of k j] left False assms(2-4) by (auto simp: k h)
    next
      case nl: False
      show ?thesis
      proof (cases "Suc ki < length ks \<and> 2 \<le> elements234 (ks ! Suc ki)")
        case right: True
        have "ki < 3" using right k4 by simp
        then have "del_enter ks cs es ki j = Some (case_3a_right ks cs es ki j (ks ! Suc ki) (ks ! ki))"
          using right nl False nn [OF assms(2)] nn [of "ki - 1"] nn [of "Suc ki"] assms(2)
          by (auto simp: del_enter_def)
        then show ?thesis
          using case_3a_right_ok [OF va, of ki j] right False assms(2-4) by (auto simp: h)
      next
        case nr: False
        have "del_enter ks cs es ki j = case_3b ks cs es ki j"
          using nr nl False nn [OF assms(2)] nn [of "ki - 1"] nn [of "Suc ki"] assms(2)
          by (auto simp: del_enter_def kid_def)
        then show ?thesis
          using case_3b_ok [OF va assms(2) False _ _ assms(3,4)] nl nr k4 unfolding h by fastforce
      qed
    qed
  qed
qed

lemma sum_list_upd_int: "i < length xs \<Longrightarrow> sum_list (xs[i := x]) = sum_list xs + x - (xs ! i :: int)"
  by (induction xs arbitrary: i) (auto split: nat.splits simp: nth_Cons')

lemma dec_counts_valid:
  "wfpath h (size234 n + 1) path \<Longrightarrow> valid h n \<Longrightarrow>
    (\<exists>H. valid H (dec_counts path n)) \<and> inorder (dec_counts path n) = lctx path @ inorder n @ rctx path"
proof (induction path arbitrary: h n)
  case (Cons entry path)
  obtain p i where entry: "entry = (p, i)" by fastforce
  from Cons.prems(1) [unfolded entry] show ?case
  proof (cases rule: wfpath_Cons)
    case (1 ks cs es x)
    let ?n = "Node (ks[i := n]) (cs[i := size234 n]) es"
    have v: "valid (Suc h) ?n" by (rule valid_set_kid [OF 1(5,2) Cons.prems(2)])
    have cs: "cs = (List.map size234 ks)[i := size234 n + 1]" using 1(4,5) by (simp add: map_update)
    have "cnt cs i - 1 = size234 n" using 1(2) by (simp add: cs cnt_def)
    then have "dec_counts (entry # path) n = dec_counts path ?n" by (simp add: entry 1(1))
    moreover have i: "inorder ?n = lpart ks es i @ inorder n @ rpart ks es i"
      by (rule inorder_set_kid) (use 1 in auto)
    moreover have "wfpath (Suc h) (size234 ?n + 1) path"
    proof -
      have "countnode234 (Node ks cs es) = countnode234 ?n + 1"
      proof -
        have "cs[i := size234 n] = cs[i := cs ! i - 1]" using 1(2) by (simp add: cs)
        moreover have "i < length cs" using 1(2) by (simp add: cs)
        ultimately show ?thesis by (simp add: sum_list_upd_int)
      qed
      then have "countnode234 (Node ks cs es) = size234 ?n + 1" unfolding countnode234_valid [OF v] .
      then show ?thesis using 1(6) unfolding 1(1) by (simp only:)
    qed
    ultimately show ?thesis using Cons.IH [OF _ v] by (simp add: entry 1(1))
  qed
qed auto

lemma valid_kid0: "valid (Suc h) (Node ks cs es) \<Longrightarrow> kid ks 0 = Null \<longleftrightarrow> h = 0"
  by (cases ks; cases h) auto

lemma inorder_leaf: "valid (Suc 0) (Node ks cs es) \<Longrightarrow> inorder (Node ks cs es) = es \<and> lpart ks es i = take i es"
proof -
  assume v: "valid (Suc 0) (Node ks cs es)"
  then have "\<forall>k\<in>set ks. k = Null" "length ks = Suc (length es)" by (simp_all add: list_all_iff)
  then have ks: "ks = replicate (Suc (length es)) Null" by (metis replicate_eqI)
  have "interleave (List.map inorder (replicate (Suc (length es)) Null)) es = es" by (induction es) simp_all
  moreover have "lpart (replicate (Suc (length es)) Null) es i = take i es"
    by (induction es arbitrary: i) (case_tac i; simp add: lpart_def)+
  ultimately show ?thesis by (simp add: ks)
qed

lemma last_elem_ok: "valid (Suc h) n \<Longrightarrow> last_elem n = Some (last (inorder n))"
proof (induction h arbitrary: n)
  case 0
  obtain ks cs es where n: "n = Node ks cs es" using 0 by (cases n) auto
  from 0 inorder_leaf [of ks cs es] valid_kid0 [of 0 ks cs es] show ?case by (auto simp: n)
next
  case (Suc h)
  have ne: "inorder k \<noteq> []" if "valid (Suc h) k" for k using inorder_eq_Nil [OF that] by simp
  obtain ks cs es where n: "n = Node ks cs es" using Suc.prems by (cases n) auto
  have len: "length ks = Suc (length es)" using Suc.prems n by simp
  then have v: "valid (Suc h) (ks ! length es)" using Suc.prems n by (simp add: list_all_length)
  have "last_elem n = last_elem (ks ! length es)"
    using valid_kid0 [OF Suc.prems [unfolded n]] len by (simp add: n kid_def)
  also have "\<dots> = Some (last (inorder (ks ! length es)))" by (rule Suc.IH [OF v])
  also have "last (inorder (ks ! length es)) = last (inorder n)"
    using inorder_split [OF len, of "length es" cs] ne [OF v] len by (simp add: n rpart_def)
  finally show ?case .
qed

lemma first_elem_ok: "valid (Suc h) n \<Longrightarrow> first_elem n = Some (hd (inorder n))"
proof (induction h arbitrary: n)
  case 0
  obtain ks cs es where n: "n = Node ks cs es" using 0 by (cases n) auto
  from 0 inorder_leaf [of ks cs es] valid_kid0 [of 0 ks cs es] show ?case by (auto simp: n hd_conv_nth)
next
  case (Suc h)
  have ne: "inorder k \<noteq> []" if "valid (Suc h) k" for k using inorder_eq_Nil [OF that] by simp
  obtain ks cs es where n: "n = Node ks cs es" using Suc.prems by (cases n) auto
  have len: "length ks = Suc (length es)" using Suc.prems n by simp
  then have v: "valid (Suc h) (ks ! 0)" using Suc.prems n by (simp add: list_all_length)
  have "first_elem n = first_elem (ks ! 0)"
    using valid_kid0 [OF Suc.prems [unfolded n]] len by (simp add: n kid_def)
  also have "\<dots> = Some (hd (inorder (ks ! 0)))" by (rule Suc.IH [OF v])
  also have "hd (inorder (ks ! 0)) = hd (inorder n)"
    using inorder_split [OF len, of 0 cs] ne [OF v] len by (simp add: n)
  finally show ?case .
qed

lemma remove_nth_mid: "length l \<le> i \<Longrightarrow> i < length l + length m \<Longrightarrow>
    remove_nth i (l @ m @ r) = l @ remove_nth (i - length l) m @ r"
  by (simp add: remove_nth_def Suc_diff_le)

text \<open>After entering a child, the rest of the deletion happens in it.\<close>

lemma entered_step:
  assumes "entered h xs pos (n, i, sub, j)" and "wfpath (Suc h) (int (length xs)) path"
  shows "wfpath h (size234 sub) (step_path n i path) \<and> nat pos < length xs \<and> 0 \<le> pos \<and>
    xs ! nat pos = inorder sub ! nat j \<and>
    (path = [] \<or> valid (Suc h) n \<longrightarrow>
      lctx (step_path n i path) @ remove_nth (nat j) (inorder sub) @ rctx (step_path n i path) =
        lctx path @ remove_nth (nat pos) xs @ rctx path \<and>
      lctx (step_path n i path) @ inorder sub @ rctx (step_path n i path) = lctx path @ xs @ rctx path)"
proof -
  obtain ks cs es where n: "n = Node ks cs es" using assms(1) by (cases n) (auto simp: entered_def)
  from assms(1) have e: "i < length ks" "ks ! i = sub" "0 \<le> j" "j < size234 sub" "inorder (Node ks cs es) = xs"
    "pos = int (length (lpart ks es i)) + j" "valid (Suc h) n \<or> es = [] \<and> ks = [sub]"
    by (auto simp: entered_def n simp del: inorder.simps valid.simps)
  from e(7) have len: "length ks = Suc (length es)" by (elim disjE) (simp_all add: n)
  have xs: "xs = lpart ks es i @ inorder sub @ rpart ks es i"
    using inorder_split [OF len e(1), of cs] e(2,5) by simp
  have pos: "nat pos = length (lpart ks es i) + nat j" using e(3,6) by simp
  have ij: "nat j < length (inorder sub)" using e(3,4) by (simp add: size234_def nat_less_iff)
  have wf: "wfpath h (size234 sub) (step_path n i path)"
  proof (cases "es = []")
    case False
    then have v: "valid (Suc h) (Node ks cs es)" using e(7) n by simp
    have "countnode234 (Node ks cs es) = int (length xs)"
      using countnode234_valid [OF v] e(5) by (simp add: size234_def)
    then show ?thesis using valid_wfpath [OF v e(1)] assms(2) False e(2) by (simp add: step_path_def n)
  qed (simp add: step_path_def n)
  have lists: "lctx (step_path n i path) = lctx path @ lpart ks es i \<and> rctx (step_path n i path) = rpart ks es i @ rctx path"
    if "path = [] \<or> valid (Suc h) n"
  proof (cases "es = []")
    case True
    then have "path = []" "lpart ks es i = []" "rpart ks es i = []" using that n by (auto simp: lpart_def rpart_def)
    with True show ?thesis by (simp add: step_path_def n)
  qed (simp add: step_path_def n)
  show ?thesis
    using wf lists ij e(3,6) unfolding xs pos
    by (auto simp: remove_nth_mid nth_append)
qed

lemma elems_del_enter:
  assumes "del_enter ks cs es ki j = Some (n, i, sub, j')" and "ki < length ks" and "length ks = Suc (length es)"
  shows "length es \<le> Suc (length (elems n)) "
proof -
  have "length es \<le> Suc (length (elems (fst (case_3a_left ks cs es ki j a b))))" if "a \<noteq> Null" "b \<noteq> Null" for a b
    using that by (cases a; cases b) (simp_all add: Let_def)
  moreover have "length es \<le> Suc (length (elems (fst (case_3a_right ks cs es ki j a b))))" if "a \<noteq> Null" "b \<noteq> Null" for a b
    using that by (cases a; cases b) (simp_all add: Let_def)
  ultimately show ?thesis using assms(1)
    by (fastforce simp: del_enter_def case_3b_def Let_def remove_nth_def split: if_splits)
qed

lemma del_loop_ok:
  assumes "valid h n" and "wfpath h (size234 n) path" and "path = [] \<or> 2 \<le> elements234 n"
    and "0 \<le> index" and "index < size234 n"
  shows "\<exists>n'. del_loop path n index retval =
      Some (case retval of None \<Rightarrow> inorder n ! nat index | Some r \<Rightarrow> r, n') \<and>
    (\<exists>H. valid H n') \<and> inorder n' = lctx path @ remove_nth (nat index) (inorder n) @ rctx path"
  using assms
proof (induction h arbitrary: n path index retval)
  case 0
  then show ?case by simp
next
  case (Suc h)
  obtain ks cs es where n: "n = Node ks cs es" using Suc.prems(1) by (cases n) auto
  note v = Suc.prems(1) [unfolded n]
  have len: "length ks = Suc (length es)" "1 \<le> length es" and cs: "cs = List.map size234 ks" using v by simp_all
  have cn: "countnode234 n = size234 n" by (rule countnode234_valid [OF Suc.prems(1)])
  have wfp: "wfpath (Suc h) (int (length (inorder n))) path" using Suc.prems(2) by (simp add: size234_def)
  show ?case using Suc.prems(1,4,5)
  proof (cases rule: locate_valid)
    case (kid i j)
    then have k: "i < length ks" "j < size234 (ks ! i)" by (simp_all add: n)
    from del_enter_ok [OF v k(1) kid(3) k(2)] obtain n' i' sub j' where
      d: "del_enter ks cs es i j = Some (n', i', sub, j')" "entered h (inorder n) index (n', i', sub, j')"
      using kid(6) by (auto simp: n simp del: inorder.simps)
    have pv: "path = [] \<or> valid (Suc h) n'"
      using d(2) elems_del_enter [OF d(1) k(1) len(1)] Suc.prems(3) by (auto simp: entered_def n)
    from entered_step [OF d(2) wfp] have e: "wfpath h (size234 sub) (step_path n' i' path)"
      "inorder n ! nat index = inorder sub ! nat j'"
      "lctx (step_path n' i' path) @ remove_nth (nat j') (inorder sub) @ rctx (step_path n' i' path) =
        lctx path @ remove_nth (nat index) (inorder n) @ rctx path" using pv by auto
    have "valid h sub" "2 \<le> elements234 sub" "0 \<le> j'" "j' < size234 sub" using d(2) by (simp_all add: entered_def)
    from Suc.IH [OF this(1) e(1) disjI2 [OF this(2)] this(3,4), of retval] show ?thesis
      unfolding e(2,3) using kid(1) d(1) by (simp add: n del: inorder.simps)
  next
    case (elem i)
    define ret where "ret = (case retval of None \<Rightarrow> inorder n ! nat index | Some r \<Rightarrow> r)"
    have i: "locate cs index = AtElem i" "i < length es" "index = int (length (lpart ks es i)) + size234 (ks ! i)"
      using elem by (simp_all add: n)
    have il: "i < length ks" "Suc i < length ks" using i(2) len by simp_all
    have sp: "inorder n = lpart ks es i @ inorder (ks ! i) @ es ! i # inorder (ks ! Suc i) @ rpart ks es (Suc i)"
      using inorder_split [OF len(1) il(1), of cs] rpart_unfold [OF len(1) i(2)] by (simp add: n)
    have nat: "nat index = length (lpart ks es i @ inorder (ks ! i))" using i(3) by (simp add: size234_def nat_add_distrib)
    have at: "inorder n ! nat index = es ! i" unfolding sp nat by (simp add: nth_append)
    have rem: "remove_nth (nat index) (inorder n) =
        lpart ks es i @ inorder (ks ! i) @ inorder (ks ! Suc i) @ rpart ks es (Suc i)"
      unfolding sp nat by (simp add: remove_nth_def)
    have ret: "(case retval of None \<Rightarrow> es ! i | Some r \<Rightarrow> r) = ret" unfolding ret_def at ..
    have vk: "valid h (ks ! i)" "valid h (ks ! Suc i)" using v il by (simp_all add: list_all_length)
    note k0 = valid_kid0 [OF v]
    have kk: "kid ks i = ks ! i" "kid ks (i + 1) = ks ! Suc i" using il by (simp_all add: kid_def)
    show ?thesis unfolding ret_def [symmetric]
    proof (cases "h = 0")
      case True
      note leaf = inorder_leaf [OF v [unfolded True]]
      have idx: "nat index = i" using nat vk(1) i(2) conjunct2 [OF leaf, of i] by (simp add: True)
      show "\<exists>n'. del_loop path n index retval = Some (ret, n') \<and> (\<exists>H. valid H n') \<and>
          inorder n' = lctx path @ remove_nth (nat index) (inorder n) @ rctx path"
      proof (cases "length es \<le> 1")
        case one: True
        then have "path = []" using Suc.prems(3) by (simp add: n)
        moreover have "remove_nth (nat index) (inorder n) = []"
          using one i(2) leaf idx by (simp add: n remove_nth_def)
        moreover have "valid 0 Null" by simp
        ultimately show ?thesis using one i(1,2) k0 True ret by (fastforce simp: n)
      next
        case False
        define m where "m = Node (butlast ks) (butlast cs) (remove_nth i es)"
        have ks: "\<forall>k\<in>set ks. k = Null" using v True by (simp add: list_all_iff)
        have "valid (Suc 0) m"
          using v False i(2) ks True len(1) unfolding m_def cs
          by (auto simp: remove_nth_def list_all_iff map_butlast dest: in_set_butlastD)
        moreover from this have "inorder m = remove_nth (nat index) (inorder n)" "size234 n = size234 m + 1"
          using inorder_leaf [of "butlast ks"] leaf i(2) idx
          by (auto simp: m_def n size234_def remove_nth_def simp del: inorder.simps)
        moreover have "del_loop path n index retval = Some (ret, dec_counts path m)"
          using False i(1,2) k0 True ret by (simp add: n m_def)
        ultimately show ?thesis using dec_counts_valid [of "Suc 0" m path] Suc.prems(2) True by fastforce
      qed
    next
      case False
      show "\<exists>n'. del_loop path n index retval = Some (ret, n') \<and> (\<exists>H. valid H n') \<and>
          inorder n' = lctx path @ remove_nth (nat index) (inorder n) @ rctx path"
      proof -
        from False obtain h' where h: "h = Suc h'" by (cases h) auto
        have nn: "ks ! i \<noteq> Null" "ks ! Suc i \<noteq> Null" using vk by (auto simp: h)
        have ne: "inorder (ks ! i) \<noteq> []" "inorder (ks ! Suc i) \<noteq> []"
          using inorder_eq_Nil [OF vk(1)] inorder_eq_Nil [OF vk(2)] False by simp_all
        have vt: "valid (Suc h) (Node ks cs (es[i := e]))" for e using v by simp
        have wft: "wfpath (Suc h) (countnode234 (Node ks cs (es[i := e]))) path" for e
          using Suc.prems(2) cn by (simp add: n)
        note del = i(1,2) k0 False ret kk nn
        have up: "lpart ks (es[i := e]) i = lpart ks es i" "rpart ks (es[i := e]) (Suc i) = rpart ks es (Suc i)"
          "rpart ks (es[i := e]) i = e # inorder (ks ! Suc i) @ rpart ks es (Suc i)"
          "lpart ks (es[i := e]) (Suc i) = lpart ks es i @ inorder (ks ! i) @ [e]" for e
          using i(2) len(1) rpart_unfold [of ks "es[i := e]" i] lpart_Suc [of ks "es[i := e]" i]
          by (simp_all add: lpart_def rpart_def)
        show ?thesis
        proof (cases "2 \<le> elements234 (ks ! i)")
          case a: True
          define t where "t = last (inorder (ks ! i))"
          have "last_elem (ks ! i) = Some t" using last_elem_ok vk(1) by (simp add: h t_def)
          then have d: "del_loop path n index retval =
              del_loop ((Node ks cs (es[i := t]), i) # path) (ks ! i) (size234 (ks ! i) - 1) (Some ret)"
            using del a il by (simp add: n cs cnt_def)
          have pos: "0 < size234 (ks ! i)" using ne(1) by (simp add: size234_def)
          have "remove_nth (nat (size234 (ks ! i) - 1)) (inorder (ks ! i)) @ [t] = inorder (ks ! i)"
          proof -
            have "nat (size234 (ks ! i) - 1) = length (inorder (ks ! i)) - 1" by (simp add: size234_def nat_diff_distrib)
            with ne(1) append_butlast_last_id [OF ne(1), unfolded butlast_conv_take] show ?thesis
              by (simp add: remove_nth_def t_def)
          qed
          then have eq: "lctx ((Node ks cs (es[i := t]), i) # path) @
                remove_nth (nat (size234 (ks ! i) - 1)) (inorder (ks ! i)) @ rctx ((Node ks cs (es[i := t]), i) # path) =
              lctx path @ remove_nth (nat index) (inorder n) @ rctx path"
            unfolding rem by (simp add: up)
          from Suc.IH [OF vk(1) valid_wfpath [OF vt il(1) wft] disjI2 [OF a], of "size234 (ks ! i) - 1" t "Some ret"] pos
          show ?thesis unfolding d eq by simp
        next
          case na: False
          show ?thesis
          proof (cases "2 \<le> elements234 (ks ! Suc i)")
            case b: True
            define t where "t = hd (inorder (ks ! Suc i))"
            have "first_elem (ks ! Suc i) = Some t" using first_elem_ok vk(2) by (simp add: h t_def)
            then have d: "del_loop path n index retval =
                del_loop ((Node ks cs (es[i := t]), Suc i) # path) (ks ! Suc i) 0 (Some ret)"
              using del na b by (simp add: n)
            have "t # remove_nth 0 (inorder (ks ! Suc i)) = inorder (ks ! Suc i)"
              using ne(2) by (simp add: remove_nth_def t_def drop_Suc)
            then have eq: "lctx ((Node ks cs (es[i := t]), Suc i) # path) @
                  remove_nth 0 (inorder (ks ! Suc i)) @ rctx ((Node ks cs (es[i := t]), Suc i) # path) =
                lctx path @ remove_nth (nat index) (inorder n) @ rctx path"
              unfolding rem by (simp add: up)
            have "0 < size234 (ks ! Suc i)" using ne(2) by (simp add: size234_def)
            with Suc.IH [OF vk(2) valid_wfpath [OF vt il(2) wft] disjI2 [OF b], of 0 t "Some ret"]
            show ?thesis unfolding d nat_0 eq by simp
          next
            case nb: False
            define a where "a = merge_kids (ks ! i) (es ! i) (ks ! Suc i)"
            define ks' where "ks' = take i ks @ a # drop (Suc (Suc i)) ks"
            define n' where "n' = Node ks' (List.map size234 ks') (remove_nth i es)"
            define j where "j = size234 (ks ! i)"
            note m = entered_merge [OF v [unfolded h] il(2) na nb a_def ks'_def refl, folded n'_def h]
            have c: "case_2c ks cs es i = (n', a, j)"
            proof -
              have x: "countnode234 a = size234 a" "cnt (counts a) 0 + cnt (counts a) 1 + 1 = j"
                using m [of 0 0] by (simp_all add: j_def)
              have y: "remove_nth (i + 1) (ks[i := a]) = ks'"
                using remove_nth_update(2) [OF il(2), of a] by (simp add: ks'_def)
              have z: "remove_nth (i + 1) (cs[i := size234 a]) = List.map size234 ks'"
                using remove_nth_update(2) [of i cs "size234 a"] map_merge [OF il(2), of size234 a] il(2)
                by (simp add: ks'_def cs)
              show ?thesis unfolding case_2c_def Let_def kk a_def [symmetric] x y z n'_def ..
            qed
            then have d: "del_loop path n index retval = del_loop (step_path n' i path) a j (Some ret)"
              using del na nb by (simp add: n)
            have "size234 a = j + size234 (ks ! Suc i) + 1" "0 \<le> j" using m [of 0 0] by (simp_all add: j_def)
            then have "j < size234 a" using size234_nonneg [of "ks ! Suc i"] by linarith
            with \<open>0 \<le> j\<close> have e: "entered h (inorder n) index (n', i, a, j)"
              using m [of j index] i(3) by (simp add: n j_def del: inorder.simps)
            have "path = [] \<or> valid (Suc h) n'"
              using e Suc.prems(3) i(2) by (auto simp: entered_def n n'_def remove_nth_def)
            with entered_step [OF e wfp] have s: "wfpath h (size234 a) (step_path n' i path)"
              "lctx (step_path n' i path) @ remove_nth (nat j) (inorder a) @ rctx (step_path n' i path) =
                lctx path @ remove_nth (nat index) (inorder n) @ rctx path" by auto
            have "valid h a" "2 \<le> elements234 a" "0 \<le> j" "j < size234 a" using e by (simp_all add: entered_def)
            from Suc.IH [OF this(1) s(1) disjI2 [OF this(2)] this(3,4), of "Some ret"] show ?thesis
              unfolding d s(2) by simp
          qed
        qed
      qed
    qed
  qed
qed

lemma delpos234_internal_list:
  assumes "wf234 t" and "0 \<le> index" and "index < count234 t"
  shows "\<exists>t'. delpos234_internal t index = Some (Some (list234 t ! nat index), t') \<and> wf234 t' \<and> cmp t' = cmp t \<and>
    list234 t' = remove_nth (nat index) (list234 t)"
proof -
  obtain h where h: "valid h (root t)" using assms(1) by (auto simp: wf234_iff)
  have "index < size234 (root t)"
    using assms(3) count234_list [OF assms(1)] by (simp add: list234_def size234_def)
  from del_loop_ok [OF h _ _ assms(2) this, of "[]" None] obtain n' where
    "del_loop [] (root t) index None = Some (inorder (root t) ! nat index, n')"
    "\<exists>H. valid H n'" "inorder n' = remove_nth (nat index) (inorder (root t))" by auto
  then show ?thesis by (auto simp: delpos234_internal_def wf234_iff list234_def)
qed

lemma index234_list:
  assumes "wf234 t"
  shows "index234 t index = (if 0 \<le> index \<and> index < count234 t then Some (list234 t ! nat index) else None)"
proof -
  obtain h where h: "valid h (root t)" using assms by (auto simp: wf234_iff)
  have c: "countnode234 (root t) = count234 t" by (simp add: count234_def)
  then show ?thesis
    using index234_loop_inorder [OF h, of index] countnode234_valid [OF h]
    by (auto simp: index234_def list234_def count234_def)
qed

lemma search_start_ok:
  assumes h: "valid h (root t)"
  shows "\<exists>st. search234_start fresh_search t = Some st \<and> s_node st = root t \<and> pointing h [] st \<and> window c st"
proof -
  define s0 where "s0 = fresh_search\<lparr>s_node := root t, s_base := 0, s_last := -1\<rparr>"
  have s0: "s_node s0 = root t" "s_base s0 = 0" "s_last s0 = -1" by (simp_all add: s0_def)
  show ?thesis
  proof (cases "root t = Null")
    case True
    then have h0: "h = 0" using h by simp
    have "search234_start fresh_search t = Some (s0\<lparr>s_element := None, s_index := 0\<rparr>)"
      by (simp add: search234_start_def search234_step_def True s0_def)
    then show ?thesis using h0 True by (simp add: pointing_def window_def s0)
  next
    case False
    have "search234_start fresh_search t = Some (search_point (search_enter s0))"
      using False by (simp add: search234_start_def search234_step_def s0 flip: s0_def)
    then show ?thesis using search_enter_ok [of h s0 "[]" c] h s0 by simp
  qed
qed

lemma findrelpos234_search:
  assumes "wf234 t" and "cmp_sorted (effective (query_cmp c e rel) rel) (list234 t)"
  obtains res where "search_result (query_cmp c e rel) rel (list234 t) res"
    "findrelpos234 t e c rel =
      (case res of
         Inl (x, i) \<Rightarrow> Some (Some (x, i))
       | Inr i \<Rightarrow> if rel = REL234_EQ then Some None
           else let i = (if rel = REL234_LT \<or> rel = REL234_LE then i - 1 else i)
                in Some (map_option (\<lambda>x. (x, i)) (index234 t i)))"
proof -
  obtain h where h: "valid h (root t)" using assms(1) by (auto simp: wf234_iff)
  from search_start_ok [OF h] obtain st where st: "search234_start fresh_search t = Some st" "s_node st = root t"
    "pointing h [] st" "window (effective (query_cmp c e rel) rel) st" by blast
  have "cmp_sorted (effective (query_cmp c e rel) rel) (inorder (s_node st))"
    using assms(2) st(2) by (simp add: list234_def)
  from find_loop_ok [OF _ this _ _ st(3,4), of "[]"] h obtain res where
    "find_loop (query_cmp c e rel) rel st = Some res"
    "search_result (query_cmp c e rel) rel (list234 t) res" by (auto simp: st(2) list234_def)
  then show thesis
    by (intro that) (auto simp: findrelpos234_def st(1) split: sum.splits)
qed

text \<open>What each relation asks of an element, and which of the elements that satisfy it is wanted: the
  last one below the query, the first one above it, an equal one when equality is allowed.\<close>

definition rel_holds :: "relation234 \<Rightarrow> int \<Rightarrow> bool" where
  "rel_holds rel r \<longleftrightarrow>
     (case rel of REL234_EQ \<Rightarrow> r = 0 | REL234_LT \<Rightarrow> r > 0 | REL234_LE \<Rightarrow> r \<ge> 0
      | REL234_GT \<Rightarrow> r < 0 | REL234_GE \<Rightarrow> r \<le> 0)"

definition nearest :: "('e \<Rightarrow> int) \<Rightarrow> relation234 \<Rightarrow> 'e list \<Rightarrow> nat \<Rightarrow> bool" where
  "nearest c rel xs i \<longleftrightarrow> i < length xs \<and> rel_holds rel (c (xs ! i)) \<and>
     (c (xs ! i) = 0 \<or> (\<forall>j < length xs. c (xs ! j) = 0 \<longrightarrow> \<not> equal_permitted rel)) \<and>
     (reldir rel < 0 \<longrightarrow> (\<forall>j < length xs. i < j \<longrightarrow> c (xs ! j) \<le> 0)) \<and>
     (reldir rel > 0 \<longrightarrow> (\<forall>j < i. c (xs ! j) \<ge> 0))"

lemma cmp_sorted_nth:
  assumes "cmp_sorted c xs" and "i < j" and "j < length xs"
  shows "c (xs ! i) \<le> 0 \<Longrightarrow> c (xs ! j) \<le> 0" and "c (xs ! j) \<ge> 0 \<Longrightarrow> c (xs ! i) \<ge> 0"
proof -
  have "sgn (c (xs ! j)) \<le> sgn (c (xs ! i))"
    using assms by (simp add: cmp_sorted_def sorted_wrt_iff_nth_less)
  then show "c (xs ! i) \<le> 0 \<Longrightarrow> c (xs ! j) \<le> 0" and "c (xs ! j) \<ge> 0 \<Longrightarrow> c (xs ! i) \<ge> 0"
    by (auto simp: sgn_if split: if_splits)
qed

lemma cmp_sorted_effective:
  assumes "cmp_sorted c xs" shows "cmp_sorted (effective c rel) xs"
  using assms unfolding cmp_sorted_def
  by (rule sorted_wrt_mono_rel [rotated])
    (auto simp: effective_def reldir_def equal_permitted_def sgn_if split: if_splits)

lemma findrelpos234_nearest:
  assumes "wf234 t" and "cmp_sorted (c q) (list234 t)"
  shows "\<exists>res. findrelpos234 t (Some q) c rel = Some res \<and>
    (case res of
       Some (x, i) \<Rightarrow> 0 \<le> i \<and> nearest (c q) rel (list234 t) (nat i) \<and> x = list234 t ! nat i
     | None \<Rightarrow> \<forall>x\<in>set (list234 t). \<not> rel_holds rel (c q x))"
proof -
  let ?xs = "list234 t"
  have q: "query_cmp c (Some q) rel = c q" by (simp add: query_cmp_def fun_eq_iff)
  from findrelpos234_search [OF assms(1), of c "Some q" rel, unfolded q, OF cmp_sorted_effective [OF assms(2)]]
  obtain res where r: "search_result (c q) rel ?xs res"
    "findrelpos234 t (Some q) c rel =
      (case res of
         Inl (x, i) \<Rightarrow> Some (Some (x, i))
       | Inr i \<Rightarrow> if rel = REL234_EQ then Some None
           else let i = (if rel = REL234_LT \<or> rel = REL234_LE then i - 1 else i)
                in Some (map_option (\<lambda>x. (x, i)) (index234 t i)))" .
  show ?thesis
  proof (cases res)
    case (Inl xi)
    obtain x i where xi: "xi = (x, i)" by fastforce
    from r(1) have i: "equal_permitted rel" "c q x = 0" "0 \<le> i" "i < int (length ?xs)" "?xs ! nat i = x"
      by (simp_all add: search_result_def Inl xi)
    have n: "nat i < length ?xs" "c q (?xs ! nat i) = 0" using i by (simp_all add: nat_less_iff)
    have "nearest (c q) rel ?xs (nat i)"
      unfolding nearest_def
    proof (intro conjI impI allI)
      show "rel_holds rel (c q (?xs ! nat i))"
        using n(2) i(1) by (simp add: rel_holds_def equal_permitted_def split: relation234.split)
      show "c q (?xs ! j) \<le> 0" if "j < length ?xs" "nat i < j" for j
        using cmp_sorted_nth(1) [OF assms(2) that(2,1)] n(2) by simp
      show "0 \<le> c q (?xs ! j)" if "j < nat i" for j
        using cmp_sorted_nth(2) [OF assms(2) that n(1)] n(2) by simp
    qed (use n in simp_all)
    with i r(2) show ?thesis by (simp add: Inl xi)
  next
    case (Inr i)
    from r(1) have i: "0 \<le> i" "i \<le> int (length ?xs)" "\<forall>x\<in>set (take (nat i) ?xs). effective (c q) rel x > 0"
      "\<forall>x\<in>set (drop (nat i) ?xs). effective (c q) rel x < 0"
      by (simp_all add: search_result_def Inr)
    have lo: "effective (c q) rel (?xs ! j) > 0" if "j < nat i" for j
    proof -
      have "j < length (take (nat i) ?xs)" using i(2) that by simp
      from nth_mem [OF this] that have "?xs ! j \<in> set (take (nat i) ?xs)" by simp
      with i(3) show ?thesis by blast
    qed
    have hi: "effective (c q) rel (?xs ! j) < 0" if "nat i \<le> j" "j < length ?xs" for j
    proof -
      have "?xs ! j \<in> set (drop (nat i) ?xs)"
        using that by (auto simp: in_set_conv_nth intro!: exI [of _ "j - nat i"])
      with i(4) show ?thesis by blast
    qed
    have below: "c q (?xs ! j) > 0 \<or> c q (?xs ! j) = 0 \<and> rel = REL234_GT" if "j < nat i" for j
      using lo [OF that] by (auto simp: effective_def reldir_def equal_permitted_def split: if_splits)
    have above: "c q (?xs ! j) < 0 \<or> c q (?xs ! j) = 0 \<and> rel = REL234_LT" if "nat i \<le> j" "j < length ?xs" for j
      using hi [OF that] by (auto simp: effective_def reldir_def equal_permitted_def split: if_splits)
    have all: "\<forall>x\<in>set ?xs. P x" if "\<And>j. j < length ?xs \<Longrightarrow> P (?xs ! j)" for P
      using that by (auto simp: in_set_conv_nth)
    have len: "nat i \<le> length ?xs" using i(2) by simp
    note count = count234_list [OF assms(1)]
    consider "rel = REL234_EQ" | "rel = REL234_LT \<or> rel = REL234_LE" | "rel = REL234_GT \<or> rel = REL234_GE"
      by (cases rel) auto
    then show ?thesis
    proof cases
      case 1
      have "\<forall>x\<in>set ?xs. \<not> rel_holds rel (c q x)"
      proof (rule all)
        fix j assume "j < length ?xs"
        then have "c q (?xs ! j) \<noteq> 0" using below [of j] above [of j] 1 by (cases "j < nat i") auto
        then show "\<not> rel_holds rel (c q (?xs ! j))" by (simp add: rel_holds_def 1)
      qed
      with r(2) show ?thesis by (simp add: Inr 1)
    next
      case 2
      then have f: "findrelpos234 t (Some q) c rel = Some (map_option (\<lambda>x. (x, i - 1)) (index234 t (i - 1)))"
        using r(2) by (auto simp: Inr Let_def)
      show ?thesis
      proof (cases "i = 0")
        case True
        have "\<forall>x\<in>set ?xs. \<not> rel_holds rel (c q x)"
        proof (rule all)
          fix j assume "j < length ?xs"
          with above [of j] True 2 show "\<not> rel_holds rel (c q (?xs ! j))" by (auto simp: rel_holds_def)
        qed
        then show ?thesis using f by (simp add: True index234_list [OF assms(1)])
      next
        case False
        define k where "k = nat (i - 1)"
        have k: "nat i = Suc k" "i - 1 = int k" "k < length ?xs" using False i(1,2) by (simp_all add: k_def)
        have pos: "c q (?xs ! j) > 0" if "j \<le> k" for j using below [of j] k(1) that 2 by auto
        have neg: "c q (?xs ! j) < 0 \<or> c q (?xs ! j) = 0 \<and> rel = REL234_LT" if "k < j" "j < length ?xs" for j
          using above [of j] k(1) that by simp
        have "nearest (c q) rel ?xs k"
          unfolding nearest_def
        proof (intro conjI impI disjI2 allI)
          show "rel_holds rel (c q (?xs ! k))" using pos [of k] 2 by (auto simp: rel_holds_def)
          show "c q (?xs ! j) \<le> 0" if "j < length ?xs" "k < j" for j using neg [OF that(2,1)] by auto
          show "\<not> equal_permitted rel" if "j < length ?xs" "c q (?xs ! j) = 0" for j
            using pos [of j] neg [of j] that by (cases "j \<le> k") (auto simp: equal_permitted_def)
        qed (use k 2 in \<open>auto simp: reldir_def\<close>)
        then show ?thesis using f k by (simp add: index234_list [OF assms(1)] count)
      qed
    next
      case 3
      then have f: "findrelpos234 t (Some q) c rel = Some (map_option (\<lambda>x. (x, i)) (index234 t i))"
        using r(2) by (auto simp: Inr Let_def)
      show ?thesis
      proof (cases "nat i < length ?xs")
        case False
        have "\<forall>x\<in>set ?xs. \<not> rel_holds rel (c q x)"
        proof (rule all)
          fix j assume "j < length ?xs"
          then have "j < nat i" using False by simp
          from below [OF this] 3 show "\<not> rel_holds rel (c q (?xs ! j))" by (auto simp: rel_holds_def)
        qed
        then show ?thesis using f False i(1) by (simp add: index234_list [OF assms(1)] count nat_less_iff)
      next
        case True
        have pos: "c q (?xs ! j) > 0 \<or> c q (?xs ! j) = 0 \<and> rel = REL234_GT" if "j < nat i" for j
          by (rule below [OF that])
        have neg: "c q (?xs ! j) < 0" if "nat i \<le> j" "j < length ?xs" for j using above [OF that] 3 by auto
        have "nearest (c q) rel ?xs (nat i)"
          unfolding nearest_def
        proof (intro conjI impI disjI2 allI)
          show "rel_holds rel (c q (?xs ! nat i))" using neg [of "nat i"] True 3 by (auto simp: rel_holds_def)
          show "0 \<le> c q (?xs ! j)" if "j < nat i" for j using pos [OF that] by auto
          show "\<not> equal_permitted rel" if "j < length ?xs" "c q (?xs ! j) = 0" for j
            using pos [of j] neg [of j] that by (cases "j < nat i") (auto simp: equal_permitted_def)
        qed (use True 3 in \<open>auto simp: reldir_def\<close>)
        then show ?thesis using f i(1) True by (simp add: index234_list [OF assms(1)] count nat_less_iff)
      qed
    qed
  qed
qed

subsection \<open>Keyed trees\<close>

text \<open>The contract of a comparison function: on the keys in use it is a total preorder read off the sign.
  A tree sorted by it holds at most one element per key.\<close>

locale key_order =
  fixes key :: "'e \<Rightarrow> 'k" and kcmp :: "'k \<Rightarrow> 'k \<Rightarrow> int" and okkey :: "'k \<Rightarrow> bool"
  assumes flip: "okkey a \<Longrightarrow> okkey b \<Longrightarrow> sgn (kcmp b a) = - sgn (kcmp a b)"
    and le_trans: "okkey a \<Longrightarrow> okkey b \<Longrightarrow> okkey d \<Longrightarrow> kcmp a b \<le> 0 \<Longrightarrow> kcmp b d \<le> 0 \<Longrightarrow> kcmp a d \<le> 0"
begin

definition ordered :: "'e list \<Rightarrow> bool" where
  "ordered xs \<longleftrightarrow> sorted_wrt (\<lambda>a b. kcmp (key a) (key b) < 0) xs \<and> (\<forall>x\<in>set xs. okkey (key x))"

definition keyed :: "'e tree234 \<Rightarrow> bool" where
  "keyed t \<longleftrightarrow> wf234 t \<and> cmp t = Some (\<lambda>a b. kcmp (key a) (key b)) \<and> ordered (list234 t)"

definition lookup :: "'e tree234 \<Rightarrow> 'k \<Rightarrow> 'e option" where
  "lookup t k = List.find (\<lambda>x. kcmp k (key x) = 0) (list234 t)"

lemma refl: "okkey a \<Longrightarrow> kcmp a a = 0"
  using flip [of a a] by (simp add: sgn_if split: if_splits)

lemma le_iff: "okkey a \<Longrightarrow> okkey b \<Longrightarrow> kcmp b a \<le> 0 \<longleftrightarrow> kcmp a b \<ge> 0"
  and lt_iff: "okkey a \<Longrightarrow> okkey b \<Longrightarrow> kcmp b a < 0 \<longleftrightarrow> kcmp a b > 0"
  and eq_iff: "okkey a \<Longrightarrow> okkey b \<Longrightarrow> kcmp b a = 0 \<longleftrightarrow> kcmp a b = 0"
  using flip [of a b] by (auto simp: sgn_if split: if_splits)

lemma lt_trans: "okkey a \<Longrightarrow> okkey b \<Longrightarrow> okkey d \<Longrightarrow> kcmp a b < 0 \<Longrightarrow> kcmp b d \<le> 0 \<Longrightarrow> kcmp a d < 0"
  using le_trans [of d a b] le_trans [of a b d] le_trans [of b d a] le_iff [of a b] le_iff [of d a] le_iff [of a d] lt_iff [of a b]
  by (smt (verit, best))

lemma eq_cong: "okkey a \<Longrightarrow> okkey b \<Longrightarrow> okkey d \<Longrightarrow> kcmp a b = 0 \<Longrightarrow> sgn (kcmp a d) = sgn (kcmp b d)"
  using le_trans [of a b d] le_trans [of b a d] le_trans [of d a b] le_trans [of d b a]
    le_iff [of a d] le_iff [of b d] eq_iff [of a b]
  by (smt (verit, best) sgn_if)

lemma ordered_cmp_sorted: "ordered xs \<Longrightarrow> okkey k \<Longrightarrow> cmp_sorted (\<lambda>x. kcmp k (key x)) xs"
  unfolding cmp_sorted_def ordered_def
proof (erule conjE, erule sorted_wrt_mono_rel [rotated])
  fix a b assume "okkey k" "\<forall>x\<in>set xs. okkey (key x)" "a \<in> set xs" "b \<in> set xs" "kcmp (key a) (key b) < 0"
  then show "sgn (kcmp k (key b)) \<le> sgn (kcmp k (key a))"
    using le_trans [of k "key a" "key b"] lt_trans [of "key a" "key b" k] lt_iff [of k "key a"] lt_iff [of "key b" k]
      le_iff [of "key b" k]
    by (auto simp: sgn_if)
qed

lemma find_skip: "\<forall>x\<in>set l. \<not> P x \<Longrightarrow> List.find P (l @ m) = List.find P m"
  by (induction l) auto

lemma ordered_split:
  assumes "ordered (l @ x # r)" and "okkey k" and "kcmp k (key x) = 0"
  shows "(\<forall>y\<in>set l. kcmp k (key y) > 0) \<and> (\<forall>y\<in>set r. kcmp k (key y) < 0)"
proof -
  have o: "\<forall>y\<in>set l. kcmp (key y) (key x) < 0" "\<forall>y\<in>set r. kcmp (key x) (key y) < 0"
    "\<forall>y\<in>set (l @ x # r). okkey (key y)"
    using assms(1) by (auto simp: ordered_def sorted_wrt_append)
  show ?thesis
  proof (intro conjI ballI)
    fix y assume y: "y \<in> set l"
    with o have "kcmp (key x) (key y) > 0" by (auto simp: lt_iff)
    then show "kcmp k (key y) > 0" using eq_cong [of k "key x" "key y"] assms o y by (auto simp: sgn_if split: if_splits)
  next
    fix y assume y: "y \<in> set r"
    then show "kcmp k (key y) < 0" using eq_cong [of k "key x" "key y"] assms o by (auto simp: sgn_if split: if_splits)
  qed
qed

lemma ordered_unique:
  assumes "ordered xs" and "x \<in> set xs" and "okkey k" and "kcmp k (key x) = 0"
  shows "List.find (\<lambda>x. kcmp k (key x) = 0) xs = Some x"
proof -
  obtain l r where xs: "xs = l @ x # r" using assms(2) by (auto simp: in_set_conv_decomp)
  from ordered_split [OF assms(1) [unfolded xs] assms(3,4)] show ?thesis
    unfolding xs using assms(4) by (subst find_skip) auto
qed

lemma keyed_findpos:
  assumes "keyed t" and "okkey k"
  obtains "findrelpos234 t (Some k) (\<lambda>k x. kcmp k (key x)) REL234_EQ = Some None" "lookup t k = None"
      "\<forall>x\<in>set (list234 t). kcmp k (key x) \<noteq> 0"
  | l x r where "findrelpos234 t (Some k) (\<lambda>k x. kcmp k (key x)) REL234_EQ = Some (Some (x, int (length l)))"
      "list234 t = l @ x # r" "kcmp k (key x) = 0" "lookup t k = Some x"
proof -
  have t: "wf234 t" "ordered (list234 t)" using assms(1) by (simp_all add: keyed_def)
  from findrelpos234_nearest [OF t(1), where q = k and c = "\<lambda>k x. kcmp k (key x)" and rel = REL234_EQ]
    ordered_cmp_sorted [OF t(2) assms(2)]
  obtain res where res: "findrelpos234 t (Some k) (\<lambda>k x. kcmp k (key x)) REL234_EQ = Some res"
    "case res of
       Some (x, i) \<Rightarrow> 0 \<le> i \<and> nearest (\<lambda>x. kcmp k (key x)) REL234_EQ (list234 t) (nat i) \<and> x = list234 t ! nat i
     | None \<Rightarrow> \<forall>x\<in>set (list234 t). \<not> rel_holds REL234_EQ (kcmp k (key x))" by auto
  show thesis
  proof (cases res)
    case None
    then have "\<forall>x\<in>set (list234 t). kcmp k (key x) \<noteq> 0" using res(2) by (simp add: rel_holds_def)
    then show thesis using that(1) res(1) None by (auto simp: lookup_def find_None_iff)
  next
    case (Some xi)
    obtain x i where xi: "xi = (x, i)" by fastforce
    have i: "0 \<le> i" "nat i < length (list234 t)" "x = list234 t ! nat i" "kcmp k (key x) = 0"
      using res(2) by (simp_all add: Some xi nearest_def rel_holds_def)
    have l: "list234 t = take (nat i) (list234 t) @ x # drop (Suc (nat i)) (list234 t)"
      using id_take_nth_drop [OF i(2)] i(3) by simp
    have "lookup t k = Some x"
      unfolding lookup_def by (rule ordered_unique [OF t(2) _ assms(2) i(4)]) (use i in simp)
    moreover have "int (length (take (nat i) (list234 t))) = i" using i by simp
    ultimately show thesis using that(2) [OF _ l i(4)] res(1) by (simp add: Some xi)
  qed
qed

lemma find_keyed: "keyed t \<Longrightarrow> okkey k \<Longrightarrow> find234 t k (\<lambda>k x. kcmp k (key x)) = Some (lookup t k)"
  by (erule (1) keyed_findpos) (simp_all add: find234_def)

lemma lookup_insert:
  assumes "list234 t = l @ r" and "list234 t' = l @ e # r" and "ordered (l @ e # r)" and "okkey k"
  shows "lookup t' k = (if kcmp k (key e) = 0 then Some e else lookup t k)"
proof (cases "kcmp k (key e) = 0")
  case True
  from ordered_unique [OF assms(3) _ assms(4) True] show ?thesis by (simp add: lookup_def assms(2) True)
next
  case False
  have "List.find P (l @ e # r) = List.find P (l @ r)" if "\<not> P e" for P
    using that by (induction l) auto
  with False show ?thesis by (simp add: lookup_def assms(1,2))
qed

lemma add_keyed:
  assumes "keyed t" and "okkey (key e)"
  shows "\<exists>t'. add234 t e = Some (Some (case lookup t (key e) of None \<Rightarrow> e | Some x \<Rightarrow> x), t') \<and> keyed t' \<and>
    (lookup t (key e) \<noteq> None \<longrightarrow> t' = t) \<and>
    (\<forall>k. okkey k \<longrightarrow> lookup t' k =
      (if lookup t (key e) = None \<and> kcmp k (key e) = 0 then Some e else lookup t k))"
proof -
  let ?c = "\<lambda>a b. kcmp (key a) (key b)"
  have t: "wf234 t" "cmp t = Some ?c" "ordered (list234 t)" using assms(1) by (simp_all add: keyed_def)
  from add234_list [OF t(1,2) ordered_cmp_sorted [OF t(3) assms(2)]] show ?thesis
  proof (elim disjE exE conjE bexE, goal_cases)
    case (1 l r t')
    have "ordered (l @ e # r)"
      using t(3) assms(2) 1(1-3) unfolding ordered_def by (auto simp: sorted_wrt_append lt_iff)
    moreover have "lookup t (key e) = None" using 1(1-3) by (auto simp: lookup_def find_None_iff)
    moreover have "keyed t'" using 1 t calculation(1) by (simp add: keyed_def)
    ultimately show ?case using 1 lookup_insert [of t l r t' e] by fastforce
  next
    case (2 x)
    have "lookup t (key e) = Some x" unfolding lookup_def by (rule ordered_unique [OF t(3) 2(1) assms(2) 2(2)])
    then show ?case using 2 assms(1) by simp
  qed
qed

lemma del_keyed:
  assumes "keyed t" and "okkey k"
  shows "\<exists>t'. del234 t k (\<lambda>k x. kcmp k (key x)) = Some (lookup t k, t') \<and> keyed t' \<and>
    (\<forall>k'. okkey k' \<longrightarrow> lookup t' k' = (if kcmp k' k = 0 then None else lookup t k'))"
  using assms
proof (cases rule: keyed_findpos)
  case 1
  have "lookup t k' = None" if "okkey k'" "kcmp k' k = 0" for k'
  proof -
    have "kcmp k' (key x) \<noteq> 0" if "x \<in> set (list234 t)" for x
      using 1(3) that eq_cong [of k' k "key x"] \<open>okkey k'\<close> \<open>kcmp k' k = 0\<close> assms
      by (auto simp: keyed_def ordered_def sgn_if split: if_splits)
    then show ?thesis by (auto simp: lookup_def find_None_iff)
  qed
  with 1 assms show ?thesis by (auto simp: del234_def)
next
  case (2 l x r)
  have t: "wf234 t" "ordered (list234 t)" using assms(1) by (simp_all add: keyed_def)
  have "int (length l) < count234 t" using count234_list [OF t(1)] by (simp add: 2(2))
  from delpos234_internal_list [OF t(1) _ this] obtain t' where t':
    "delpos234_internal t (int (length l)) = Some (Some x, t')" "wf234 t'" "cmp t' = cmp t" "list234 t' = l @ r"
    by (auto simp: 2(2))
  have "ordered (l @ r)" using t(2) by (auto simp: 2(2) ordered_def sorted_wrt_append)
  then have "keyed t'" using t' assms(1) by (simp add: keyed_def)
  moreover have "lookup t' k' = (if kcmp k' k = 0 then None else lookup t k')" if "okkey k'" for k'
  proof -
    have ox: "okkey (key x)" using t(2) by (simp add: 2(2) ordered_def)
    have eq: "kcmp k' k = 0 \<longleftrightarrow> kcmp k' (key x) = 0"
      using eq_cong [of k "key x" k'] eq_iff [of k' k] eq_iff [of k' "key x"] assms(2) that ox 2(3)
      by (auto simp: sgn_if split: if_splits)
    show ?thesis
    proof (cases "kcmp k' (key x) = 0")
      case True
      from ordered_split [OF t(2) [unfolded 2(2)] that True] have "lookup t' k' = None"
        by (auto simp: lookup_def t'(4) find_None_iff)
      with True eq show ?thesis by simp
    next
      case False
      then show ?thesis using eq lookup_insert [OF t'(4) 2(2) t(2) [unfolded 2(2)] that] by simp
    qed
  qed
  ultimately show ?thesis using 2 t'(1) by (auto simp: del234_def)
qed

lemma new_keyed: "keyed (newtree234 (Some (\<lambda>a b. kcmp (key a) (key b)))) \<and>
    lookup (newtree234 (Some (\<lambda>a b. kcmp (key a) (key b)))) k = None"
  by (simp add: keyed_def newtree234_def wf234_def list234_def ordered_def lookup_def)

end

subsection \<open>Properties\<close>





text \<open>C20: the unsorted tree is a list. On every tree the invariant describes, \<open>count234\<close> is the length
  and \<open>index234\<close> the lookup, out of range included, of the list the tree stands for, and \<open>addpos234\<close>
  within range inserts at the index and keeps the invariant: node sizes, equal depth and every
  subtree count.\<close>

theorem tree234_index_insert:
  assumes "wf234 t"
  shows "count234 t = int (length (list234 t)) \<and>
    index234 t index = (if 0 \<le> index \<and> index < count234 t then Some (list234 t ! nat index) else None) \<and>
    (cmp t = None \<and> 0 \<le> index \<and> index \<le> count234 t \<longrightarrow>
      (\<exists>t'. addpos234 t e index = Some (Some e, t') \<and> wf234 t' \<and> cmp t' = None \<and>
        list234 t' = take (nat index) (list234 t) @ e # drop (nat index) (list234 t)))"
  using count234_list [OF assms] index234_list [OF assms] addpos234_list [OF assms] by blast

text \<open>A tree of two levels for the examples.\<close>

definition example234 :: "nat tree234" where
  "example234 = \<lparr>root = Node [Node [Null, Null, Null] [0, 0, 0] [1, 2], Node [Null, Null, Null] [0, 0, 0] [4, 5]] [2, 2] [3],
     cmp = None\<rparr>"

lemma example234_wf: "wf234 example234" "list234 example234 = [1, 2, 3, 4, 5]" "cmp example234 = None" "count234 example234 = 5"
  by (simp_all add: example234_def wf234_def list234_def size234_def count234_def)

theorem tree234_index_insert_witness:
  "\<exists>t'. addpos234 example234 9 2 = Some (Some 9, t') \<and> wf234 t' \<and> list234 t' = [1, 2, 9, 3, 4, 5]"
  using tree234_index_insert [OF example234_wf(1), of 2 9] example234_wf by auto

text \<open>The upper bound is not checked, although the comment in \<open>addpos234\<close> says so: past the end of a
  two-level tree an insertion is accepted and loses a subtree.\<close>

lemma addpos234_past_the_end:
  "\<exists>t'. addpos234 example234 9 6 = Some (Some 9, t') \<and> list234 t' = [1, 2, 3, 9]"
  by (simp add: addpos234_def add234_internal_def example234_def childnum_indexed_def list234_def Let_def)

text \<open>C21: deletion by index. For every tree the invariant describes and every index, \<open>delpos234\<close> returns
  the element at that index and leaves a tree that satisfies the invariant and holds the same list
  without it, with any of the rotations, merges and root removals; an index out of range gives
  \<open>NULL\<close> and changes nothing.\<close>

theorem tree234_delete:
  assumes "wf234 t"
  shows "(0 \<le> index \<and> index < count234 t \<longrightarrow>
      (\<exists>t'. delpos234 t index = Some (Some (list234 t ! nat index), t') \<and> wf234 t' \<and> cmp t' = cmp t \<and>
        list234 t' = take (nat index) (list234 t) @ drop (Suc (nat index)) (list234 t))) \<and>
    (index < 0 \<or> count234 t \<le> index \<longrightarrow> delpos234 t index = Some (None, t))"
proof -
  have "countnode234 (root t) = count234 t" by (simp add: count234_def)
  then show ?thesis using delpos234_internal_list [OF assms] by (auto simp: delpos234_def remove_nth_def)
qed

theorem tree234_delete_witness:
  "\<exists>t'. delpos234 example234 2 = Some (Some 3, t') \<and> wf234 t' \<and> list234 t' = [1, 2, 4, 5]"
  using tree234_delete [OF example234_wf(1), of 2] example234_wf by auto

text \<open>C22: searching by key. On a tree sorted for the query, \<open>findrelpos234\<close> returns for each of the five
  relations the nearest element that satisfies it, with its index: an equal one if there is one and
  the relation allows it, else the last one below or the first one above; and \<open>NULL\<close> exactly when no
  element satisfies the relation.\<close>

theorem tree234_search:
  assumes "wf234 t" and "cmp_sorted (c q) (list234 t)"
  shows "\<exists>res. findrelpos234 t (Some q) c rel = Some res \<and>
    (case res of
       Some (x, i) \<Rightarrow> 0 \<le> i \<and> nearest (c q) rel (list234 t) (nat i) \<and> x = list234 t ! nat i
     | None \<Rightarrow> \<forall>x\<in>set (list234 t). \<not> rel_holds rel (c q x))"
  using assms by (rule findrelpos234_nearest [where c = c and q = q])

theorem tree234_search_witness:
  "\<exists>res. findrelpos234 example234 (Some 3) (\<lambda>a b. int a - int b) REL234_LT = Some res \<and>
    (case res of
       Some (x, i) \<Rightarrow> 0 \<le> i \<and> nearest (\<lambda>b. int 3 - int b) REL234_LT [1, 2, 3, 4, 5] (nat i) \<and> x = [1, 2, 3, 4, 5] ! nat i
     | None \<Rightarrow> False)"
proof -
  have s: "cmp_sorted (\<lambda>b. int 3 - int b) (list234 example234)" by (simp add: cmp_sorted_def example234_wf(2))
  obtain res where "findrelpos234 example234 (Some 3) (\<lambda>a b. int a - int b) REL234_LT = Some res"
    "case res of
       Some (x, i) \<Rightarrow> 0 \<le> i \<and> nearest (\<lambda>b. int 3 - int b) REL234_LT (list234 example234) (nat i) \<and> x = list234 example234 ! nat i
     | None \<Rightarrow> \<forall>x\<in>set (list234 example234). \<not> rel_holds REL234_LT (int 3 - int x)"
    using tree234_search [where c = "\<lambda>a b. int a - int b" and q = 3 and rel = REL234_LT, OF example234_wf(1) s] by auto
  then show ?thesis by (cases res) (auto simp: example234_wf(2) rel_holds_def)
qed



end
