(* ===== verification/Conf.thy ===== *)
theory Conf
  imports Tree234 Marshal
begin

text \<open>
  \<open>utils/conf.c\<close>: the store of configuration settings, a 2-3-4 tree of entries sorted by primary
  key and subkey, with \<open>putty.h\<close>'s table of options, and \<open>Filename\<close> and \<open>FontSpec\<close> of
  \<open>windows/utils\<close>.

  The unions of a key and of a value: the members of \<open>struct key\<close> are two fields of which the
  option's subkey type says which one counts; a value is the alternative its option's type says. A
  failed assertion, or reading the wrong alternative, is \<open>None\<close>. Copying a dynamic string is the
  string. A C \<open>int\<close> is a 32-bit word read signed.
\<close>

subsection \<open>The options\<close>

datatype ctype = TYPE_NONE | TYPE_BOOL | TYPE_INT | TYPE_STR | TYPE_FILENAME | TYPE_FONT

text \<open>The macro \<open>CONFIG_OPTIONS\<close>: value type, subkey type and keyword of every option, in the order that
  numbers them.\<close>

definition config_options_1 :: "(ctype \<times> ctype \<times> string) list" where
  "config_options_1 = [
    (TYPE_STR, TYPE_NONE, ''host''), (TYPE_INT, TYPE_NONE, ''port''), (TYPE_INT, TYPE_NONE, ''protocol''),
    (TYPE_INT, TYPE_NONE, ''addressfamily''), (TYPE_INT, TYPE_NONE, ''close_on_exit''),
    (TYPE_BOOL, TYPE_NONE, ''warn_on_close''), (TYPE_INT, TYPE_NONE, ''ping_interval''),
    (TYPE_BOOL, TYPE_NONE, ''tcp_nodelay''), (TYPE_BOOL, TYPE_NONE, ''tcp_keepalives''),
    (TYPE_STR, TYPE_NONE, ''loghost''), (TYPE_STR, TYPE_NONE, ''proxy_exclude_list''),
    (TYPE_INT, TYPE_NONE, ''proxy_dns''), (TYPE_BOOL, TYPE_NONE, ''even_proxy_localhost''),
    (TYPE_INT, TYPE_NONE, ''proxy_type''), (TYPE_STR, TYPE_NONE, ''proxy_host''),
    (TYPE_INT, TYPE_NONE, ''proxy_port''), (TYPE_STR, TYPE_NONE, ''proxy_username''),
    (TYPE_STR, TYPE_NONE, ''proxy_password''), (TYPE_STR, TYPE_NONE, ''proxy_telnet_command''),
    (TYPE_INT, TYPE_NONE, ''proxy_log_to_term''), (TYPE_STR, TYPE_NONE, ''remote_cmd''),
    (TYPE_STR, TYPE_NONE, ''remote_cmd2''), (TYPE_BOOL, TYPE_NONE, ''nopty''),
    (TYPE_BOOL, TYPE_NONE, ''compression''), (TYPE_INT, TYPE_INT, ''ssh_kexlist''),
    (TYPE_INT, TYPE_INT, ''ssh_hklist''), (TYPE_BOOL, TYPE_NONE, ''ssh_prefer_known_hostkeys''),
    (TYPE_INT, TYPE_NONE, ''ssh_rekey_time''), (TYPE_STR, TYPE_NONE, ''ssh_rekey_data''),
    (TYPE_BOOL, TYPE_NONE, ''tryagent''), (TYPE_BOOL, TYPE_NONE, ''agentfwd''),
    (TYPE_BOOL, TYPE_NONE, ''change_username''), (TYPE_INT, TYPE_INT, ''ssh_cipherlist''),
    (TYPE_FILENAME, TYPE_NONE, ''keyfile''), (TYPE_INT, TYPE_NONE, ''sshprot''),
    (TYPE_BOOL, TYPE_NONE, ''ssh2_des_cbc''), (TYPE_BOOL, TYPE_NONE, ''ssh_no_userauth''),
    (TYPE_BOOL, TYPE_NONE, ''ssh_no_trivial_userauth''), (TYPE_BOOL, TYPE_NONE, ''ssh_show_banner''),
    (TYPE_BOOL, TYPE_NONE, ''try_tis_auth''), (TYPE_BOOL, TYPE_NONE, ''try_ki_auth''),
    (TYPE_BOOL, TYPE_NONE, ''try_gssapi_auth''), (TYPE_BOOL, TYPE_NONE, ''try_gssapi_kex''),
    (TYPE_BOOL, TYPE_NONE, ''gssapifwd''), (TYPE_INT, TYPE_NONE, ''gssapirekey''),
    (TYPE_INT, TYPE_INT, ''ssh_gsslist''), (TYPE_FILENAME, TYPE_NONE, ''ssh_gss_custom''),
    (TYPE_BOOL, TYPE_NONE, ''ssh_subsys''), (TYPE_BOOL, TYPE_NONE, ''ssh_subsys2''),
    (TYPE_BOOL, TYPE_NONE, ''ssh_no_shell''), (TYPE_STR, TYPE_NONE, ''ssh_nc_host''),
    (TYPE_INT, TYPE_NONE, ''ssh_nc_port''), (TYPE_STR, TYPE_NONE, ''termtype''),
    (TYPE_STR, TYPE_NONE, ''termspeed''), (TYPE_STR, TYPE_STR, ''ttymodes''), (TYPE_STR, TYPE_STR, ''environmt''),
    (TYPE_STR, TYPE_NONE, ''username''), (TYPE_BOOL, TYPE_NONE, ''username_from_env''),
    (TYPE_STR, TYPE_NONE, ''localusername''), (TYPE_BOOL, TYPE_NONE, ''rfc_environ''),
    (TYPE_BOOL, TYPE_NONE, ''passive_telnet''), (TYPE_STR, TYPE_NONE, ''serline''),
    (TYPE_INT, TYPE_NONE, ''serspeed''), (TYPE_INT, TYPE_NONE, ''serdatabits''),
    (TYPE_INT, TYPE_NONE, ''serstopbits''), (TYPE_INT, TYPE_NONE, ''serparity''), (TYPE_INT, TYPE_NONE, ''serflow''),
    (TYPE_STR, TYPE_NONE, ''supdup_location''), (TYPE_INT, TYPE_NONE, ''supdup_ascii_set''),
    (TYPE_BOOL, TYPE_NONE, ''supdup_more''), (TYPE_BOOL, TYPE_NONE, ''supdup_scroll''),
    (TYPE_BOOL, TYPE_NONE, ''bksp_is_delete''), (TYPE_INT, TYPE_NONE, ''enter_sends_crlf''),
    (TYPE_INT, TYPE_NONE, ''rxvt_homeend''), (TYPE_INT, TYPE_NONE, ''funky_type''),
    (TYPE_BOOL, TYPE_NONE, ''no_applic_c''), (TYPE_BOOL, TYPE_NONE, ''no_applic_k''),
    (TYPE_BOOL, TYPE_NONE, ''no_mouse_rep''), (TYPE_BOOL, TYPE_NONE, ''no_remote_resize''),
    (TYPE_BOOL, TYPE_NONE, ''no_alt_screen''), (TYPE_BOOL, TYPE_NONE, ''no_remote_wintitle''),
    (TYPE_BOOL, TYPE_NONE, ''no_remote_clearscroll''), (TYPE_BOOL, TYPE_NONE, ''no_dbackspace''),
    (TYPE_BOOL, TYPE_NONE, ''no_remote_charset''), (TYPE_INT, TYPE_NONE, ''remote_qtitle_action''),
    (TYPE_BOOL, TYPE_NONE, ''app_cursor''), (TYPE_BOOL, TYPE_NONE, ''app_keypad''),
    (TYPE_BOOL, TYPE_NONE, ''nethack_keypad''), (TYPE_BOOL, TYPE_NONE, ''telnet_keyboard''),
    (TYPE_BOOL, TYPE_NONE, ''telnet_newline''), (TYPE_BOOL, TYPE_NONE, ''alt_f4''),
    (TYPE_BOOL, TYPE_NONE, ''alt_space''), (TYPE_BOOL, TYPE_NONE, ''alt_only''),
    (TYPE_INT, TYPE_NONE, ''localecho''), (TYPE_INT, TYPE_NONE, ''localedit''),
    (TYPE_BOOL, TYPE_NONE, ''alwaysontop''), (TYPE_BOOL, TYPE_NONE, ''fullscreenonaltenter''),
    (TYPE_BOOL, TYPE_NONE, ''scroll_on_key''), (TYPE_BOOL, TYPE_NONE, ''scroll_on_disp''),
    (TYPE_BOOL, TYPE_NONE, ''erase_to_scrollback''), (TYPE_BOOL, TYPE_NONE, ''compose_key''),
    (TYPE_BOOL, TYPE_NONE, ''ctrlaltkeys''), (TYPE_BOOL, TYPE_NONE, ''osx_option_meta''),
    (TYPE_BOOL, TYPE_NONE, ''osx_command_meta''), (TYPE_STR, TYPE_NONE, ''wintitle''),
    (TYPE_INT, TYPE_NONE, ''savelines''), (TYPE_BOOL, TYPE_NONE, ''dec_om''), (TYPE_BOOL, TYPE_NONE, ''wrap_mode''),
    (TYPE_BOOL, TYPE_NONE, ''lfhascr''), (TYPE_INT, TYPE_NONE, ''cursor_type''),
    (TYPE_BOOL, TYPE_NONE, ''blink_cur''), (TYPE_INT, TYPE_NONE, ''beep''), (TYPE_INT, TYPE_NONE, ''beep_ind''),
    (TYPE_BOOL, TYPE_NONE, ''bellovl''), (TYPE_INT, TYPE_NONE, ''bellovl_n''), (TYPE_INT, TYPE_NONE, ''bellovl_t''),
    (TYPE_INT, TYPE_NONE, ''bellovl_s''), (TYPE_FILENAME, TYPE_NONE, ''bell_wavefile''),
    (TYPE_BOOL, TYPE_NONE, ''scrollbar''), (TYPE_BOOL, TYPE_NONE, ''scrollbar_in_fullscreen''),
    (TYPE_INT, TYPE_NONE, ''resize_action'')]"

definition config_options_2 :: "(ctype \<times> ctype \<times> string) list" where
  "config_options_2 = [
    (TYPE_BOOL, TYPE_NONE, ''bce''), (TYPE_BOOL, TYPE_NONE, ''blinktext''),
    (TYPE_BOOL, TYPE_NONE, ''win_name_always''), (TYPE_INT, TYPE_NONE, ''width''), (TYPE_INT, TYPE_NONE, ''height''),
    (TYPE_FONT, TYPE_NONE, ''font''), (TYPE_INT, TYPE_NONE, ''font_quality''),
    (TYPE_FILENAME, TYPE_NONE, ''logfilename''), (TYPE_INT, TYPE_NONE, ''logtype''),
    (TYPE_INT, TYPE_NONE, ''logxfovr''), (TYPE_BOOL, TYPE_NONE, ''logflush''), (TYPE_BOOL, TYPE_NONE, ''logheader''),
    (TYPE_BOOL, TYPE_NONE, ''logomitpass''), (TYPE_BOOL, TYPE_NONE, ''logomitdata''),
    (TYPE_BOOL, TYPE_NONE, ''hide_mouseptr''), (TYPE_BOOL, TYPE_NONE, ''sunken_edge''),
    (TYPE_INT, TYPE_NONE, ''window_border''), (TYPE_STR, TYPE_NONE, ''answerback''),
    (TYPE_STR, TYPE_NONE, ''printer''), (TYPE_BOOL, TYPE_NONE, ''no_arabicshaping''),
    (TYPE_BOOL, TYPE_NONE, ''no_bidi''), (TYPE_BOOL, TYPE_NONE, ''ansi_colour''),
    (TYPE_BOOL, TYPE_NONE, ''xterm_256_colour''), (TYPE_BOOL, TYPE_NONE, ''true_colour''),
    (TYPE_BOOL, TYPE_NONE, ''system_colour''), (TYPE_BOOL, TYPE_NONE, ''try_palette''),
    (TYPE_INT, TYPE_NONE, ''bold_style''), (TYPE_INT, TYPE_INT, ''colours''),
    (TYPE_INT, TYPE_NONE, ''mouse_is_xterm''), (TYPE_BOOL, TYPE_NONE, ''rect_select''),
    (TYPE_BOOL, TYPE_NONE, ''paste_controls''), (TYPE_BOOL, TYPE_NONE, ''rawcnp''),
    (TYPE_BOOL, TYPE_NONE, ''utf8linedraw''), (TYPE_BOOL, TYPE_NONE, ''rtf_paste''),
    (TYPE_BOOL, TYPE_NONE, ''mouse_override''), (TYPE_INT, TYPE_INT, ''wordness''),
    (TYPE_BOOL, TYPE_NONE, ''mouseautocopy''), (TYPE_INT, TYPE_NONE, ''mousepaste''),
    (TYPE_INT, TYPE_NONE, ''ctrlshiftins''), (TYPE_INT, TYPE_NONE, ''ctrlshiftcv''),
    (TYPE_STR, TYPE_NONE, ''mousepaste_custom''), (TYPE_STR, TYPE_NONE, ''ctrlshiftins_custom''),
    (TYPE_STR, TYPE_NONE, ''ctrlshiftcv_custom''), (TYPE_INT, TYPE_NONE, ''vtmode''),
    (TYPE_STR, TYPE_NONE, ''line_codepage''), (TYPE_BOOL, TYPE_NONE, ''cjk_ambig_wide''),
    (TYPE_BOOL, TYPE_NONE, ''utf8_override''), (TYPE_BOOL, TYPE_NONE, ''xlat_capslockcyr''),
    (TYPE_BOOL, TYPE_NONE, ''x11_forward''), (TYPE_STR, TYPE_NONE, ''x11_display''),
    (TYPE_INT, TYPE_NONE, ''x11_auth''), (TYPE_FILENAME, TYPE_NONE, ''xauthfile''),
    (TYPE_BOOL, TYPE_NONE, ''lport_acceptall''), (TYPE_BOOL, TYPE_NONE, ''rport_acceptall''),
    (TYPE_STR, TYPE_STR, ''portfwd''), (TYPE_INT, TYPE_NONE, ''sshbug_ignore1''),
    (TYPE_INT, TYPE_NONE, ''sshbug_plainpw1''), (TYPE_INT, TYPE_NONE, ''sshbug_rsa1''),
    (TYPE_INT, TYPE_NONE, ''sshbug_hmac2''), (TYPE_INT, TYPE_NONE, ''sshbug_derivekey2''),
    (TYPE_INT, TYPE_NONE, ''sshbug_rsapad2''), (TYPE_INT, TYPE_NONE, ''sshbug_pksessid2''),
    (TYPE_INT, TYPE_NONE, ''sshbug_rekey2''), (TYPE_INT, TYPE_NONE, ''sshbug_maxpkt2''),
    (TYPE_INT, TYPE_NONE, ''sshbug_ignore2''), (TYPE_INT, TYPE_NONE, ''sshbug_oldgex2''),
    (TYPE_INT, TYPE_NONE, ''sshbug_winadj''), (TYPE_INT, TYPE_NONE, ''sshbug_chanreq''),
    (TYPE_BOOL, TYPE_NONE, ''ssh_simple''), (TYPE_BOOL, TYPE_NONE, ''ssh_connection_sharing''),
    (TYPE_BOOL, TYPE_NONE, ''ssh_connection_sharing_upstream''),
    (TYPE_BOOL, TYPE_NONE, ''ssh_connection_sharing_downstream''), (TYPE_STR, TYPE_STR, ''ssh_manual_hostkeys''),
    (TYPE_BOOL, TYPE_NONE, ''stamp_utmp''), (TYPE_BOOL, TYPE_NONE, ''login_shell''),
    (TYPE_BOOL, TYPE_NONE, ''scrollbar_on_left''), (TYPE_BOOL, TYPE_NONE, ''shadowbold''),
    (TYPE_FONT, TYPE_NONE, ''boldfont''), (TYPE_FONT, TYPE_NONE, ''widefont''),
    (TYPE_FONT, TYPE_NONE, ''wideboldfont''), (TYPE_INT, TYPE_NONE, ''shadowboldoffset''),
    (TYPE_BOOL, TYPE_NONE, ''crhaslf''), (TYPE_STR, TYPE_NONE, ''winclass''), (TYPE_STR, TYPE_NONE, ''host_alt''),
    (TYPE_INT, TYPE_NONE, ''bcdelay''), (TYPE_INT, TYPE_NONE, ''initdelay''),
    (TYPE_INT, TYPE_NONE, ''transparencynumber''), (TYPE_INT, TYPE_NONE, ''sendtotray''),
    (TYPE_INT, TYPE_NONE, ''maximize''), (TYPE_INT, TYPE_NONE, ''fullscreen''),
    (TYPE_BOOL, TYPE_NONE, ''saveonexit''), (TYPE_INT, TYPE_NONE, ''icone''),
    (TYPE_FILENAME, TYPE_NONE, ''iconefile''), (TYPE_INT, TYPE_NONE, ''winscpprot''),
    (TYPE_STR, TYPE_NONE, ''sftpconnect''), (TYPE_STR, TYPE_NONE, ''pscpoptions''),
    (TYPE_STR, TYPE_NONE, ''pscpshell''), (TYPE_STR, TYPE_NONE, ''pscpremotedir''),
    (TYPE_STR, TYPE_NONE, ''winscpoptions''), (TYPE_STR, TYPE_NONE, ''winscprawsettings''),
    (TYPE_STR, TYPE_NONE, ''folder''), (TYPE_STR, TYPE_NONE, ''password''), (TYPE_STR, TYPE_NONE, ''autocommand''),
    (TYPE_STR, TYPE_NONE, ''autocommandout''), (TYPE_STR, TYPE_NONE, ''sessionname''),
    (TYPE_STR, TYPE_NONE, ''antiidle''), (TYPE_INT, TYPE_NONE, ''logtimerotation''),
    (TYPE_STR, TYPE_NONE, ''logtimestamp''), (TYPE_FILENAME, TYPE_NONE, ''scriptfile''),
    (TYPE_STR, TYPE_NONE, ''scriptfilecontent''), (TYPE_BOOL, TYPE_NONE, ''save_windowpos''),
    (TYPE_INT, TYPE_NONE, ''xpos''), (TYPE_INT, TYPE_NONE, ''ypos''), (TYPE_INT, TYPE_NONE, ''windowstate''),
    (TYPE_BOOL, TYPE_NONE, ''foreground_on_bell''), (TYPE_INT, TYPE_NONE, ''ctrl_tab_switch''),
    (TYPE_STR, TYPE_NONE, ''comment''), (TYPE_INT, TYPE_NONE, ''scp_auto_pwd''),
    (TYPE_BOOL, TYPE_NONE, ''no_focus_rep''), (TYPE_INT, TYPE_NONE, ''scrolllines'')]"

definition config_options_3 :: "(ctype \<times> ctype \<times> string) list" where
  "config_options_3 = [
    (TYPE_BOOL, TYPE_NONE, ''ssh_tunnel_print_in_title''),
    (TYPE_BOOL, TYPE_NONE, ''osc52_warn_before_cliboard_sync''), (TYPE_STR, TYPE_NONE, ''proxyselection''),
    (TYPE_INT, TYPE_NONE, ''printclip''), (TYPE_FILENAME, TYPE_NONE, ''script_filename''),
    (TYPE_INT, TYPE_NONE, ''script_mode''), (TYPE_INT, TYPE_NONE, ''script_line_delay''),
    (TYPE_INT, TYPE_NONE, ''script_char_delay''), (TYPE_STR, TYPE_NONE, ''script_cond_line''),
    (TYPE_INT, TYPE_NONE, ''script_cond_use''), (TYPE_INT, TYPE_NONE, ''script_crlf''),
    (TYPE_INT, TYPE_NONE, ''script_enable''), (TYPE_INT, TYPE_NONE, ''script_except''),
    (TYPE_INT, TYPE_NONE, ''script_timeout''), (TYPE_STR, TYPE_NONE, ''script_waitfor''),
    (TYPE_STR, TYPE_NONE, ''script_halton''), (TYPE_INT, TYPE_NONE, ''bg_opacity''),
    (TYPE_INT, TYPE_NONE, ''bg_slideshow''), (TYPE_INT, TYPE_NONE, ''bg_type''),
    (TYPE_FILENAME, TYPE_NONE, ''bg_image_filename''), (TYPE_INT, TYPE_NONE, ''bg_image_style''),
    (TYPE_INT, TYPE_NONE, ''bg_image_abs_x''), (TYPE_INT, TYPE_NONE, ''bg_image_abs_y''),
    (TYPE_INT, TYPE_NONE, ''bg_image_abs_fixed''), (TYPE_INT, TYPE_NONE, ''wakeup_reconnect''),
    (TYPE_INT, TYPE_NONE, ''failure_reconnect''), (TYPE_INT, TYPE_NONE, ''url_ctrl_click''),
    (TYPE_INT, TYPE_NONE, ''url_underline''), (TYPE_INT, TYPE_NONE, ''url_defbrowser''),
    (TYPE_INT, TYPE_NONE, ''url_defregex''), (TYPE_FILENAME, TYPE_NONE, ''url_browser''),
    (TYPE_STR, TYPE_NONE, ''url_regex''), (TYPE_INT, TYPE_NONE, ''window_closable''),
    (TYPE_INT, TYPE_NONE, ''window_minimizable''), (TYPE_INT, TYPE_NONE, ''window_maximizable''),
    (TYPE_INT, TYPE_NONE, ''window_has_sysmenu''), (TYPE_INT, TYPE_NONE, ''bottom_buttons''),
    (TYPE_INT, TYPE_NONE, ''bold_colour''), (TYPE_INT, TYPE_NONE, ''under_colour''),
    (TYPE_INT, TYPE_NONE, ''sel_colour''), (TYPE_FILENAME, TYPE_NONE, ''rzcommand''),
    (TYPE_STR, TYPE_NONE, ''rzoptions''), (TYPE_FILENAME, TYPE_NONE, ''szcommand''),
    (TYPE_STR, TYPE_NONE, ''szoptions''), (TYPE_STR, TYPE_NONE, ''zdownloaddir''),
    (TYPE_STR, TYPE_NONE, ''portknockingoptions''), (TYPE_INT, TYPE_NONE, ''disablealtgr'')]"

definition CONFIG_OPTIONS :: "(ctype \<times> ctype \<times> string) list" where
  "CONFIG_OPTIONS = config_options_1 @ config_options_2 @ config_options_3"

definition N_CONFIG_OPTIONS :: nat where
  "N_CONFIG_OPTIONS = length CONFIG_OPTIONS"

definition subkeytypes :: "nat \<Rightarrow> ctype" where
  "subkeytypes primary = (if primary < N_CONFIG_OPTIONS then fst (snd (CONFIG_OPTIONS ! primary)) else TYPE_NONE)"

definition valuetypes :: "nat \<Rightarrow> ctype" where
  "valuetypes primary = (if primary < N_CONFIG_OPTIONS then fst (CONFIG_OPTIONS ! primary) else TYPE_NONE)"

text \<open>The number of a keyword, for the examples.\<close>

fun option_index :: "(ctype \<times> ctype \<times> string) list \<Rightarrow> string \<Rightarrow> nat" where
  "option_index [] w = 0"
| "option_index ((_, _, v) # os) w = (if v = w then 0 else Suc (option_index os w))"

lemma N_CONFIG_OPTIONS: "N_CONFIG_OPTIONS = 288"
  by code_simp

lemma host_types: "valuetypes 0 = TYPE_STR" "subkeytypes 0 = TYPE_NONE"
  "valuetypes 55 = TYPE_STR" "subkeytypes 55 = TYPE_STR"
  by code_simp+

subsection \<open>Keys, values and entries\<close>

record ckey =
  primary :: nat
  sec_i :: u32
  sec_s :: "byte list"

record fontspec =
  f_name :: "byte list"
  f_isbold :: bool
  f_height :: u32
  f_charset :: u32

datatype cvalue = NoVal | BoolVal bool | IntVal u32 | StrVal "byte list" | FileVal "byte list" | FontVal fontspec

record conf_entry =
  e_key :: ckey
  e_value :: cvalue

type_synonym conf = "conf_entry tree234"

function strcmp :: "byte list \<Rightarrow> byte list \<Rightarrow> int" where
  "strcmp s t =
     (if deref s < deref t then -1 else if deref s > deref t then 1
      else if deref s = 0 then 0 else strcmp (tl s) (tl t))"
  by pat_completeness auto
termination
proof (relation "measure (\<lambda>(s, t). length s)", goal_cases)
  case (2 s t)
  then show ?case by (cases s) auto
qed simp

declare strcmp.simps [simp del]

definition conf_cmp :: "ckey \<Rightarrow> ckey \<Rightarrow> int" where
  "conf_cmp a b =
     (if primary a < primary b then -1
      else if primary a > primary b then 1
      else case subkeytypes (primary a) of
             TYPE_INT \<Rightarrow> if sec_i a <s sec_i b then -1 else if sec_i b <s sec_i a then 1 else 0
           | TYPE_STR \<Rightarrow> strcmp (sec_s a) (sec_s b)
           | _ \<Rightarrow> 0)"

text \<open>The same comparison on a \<open>struct constkey\<close>.\<close>

definition conf_cmp_constkey :: "ckey \<Rightarrow> ckey \<Rightarrow> int" where
  "conf_cmp_constkey a b =
     (if primary a < primary b then -1
      else if primary a > primary b then 1
      else case subkeytypes (primary a) of
             TYPE_INT \<Rightarrow> if sec_i a <s sec_i b then -1 else if sec_i b <s sec_i a then 1 else 0
           | TYPE_STR \<Rightarrow> strcmp (sec_s a) (sec_s b)
           | _ \<Rightarrow> 0)"

definition entry_cmp :: "conf_entry \<Rightarrow> conf_entry \<Rightarrow> int" where
  "entry_cmp a b = conf_cmp (e_key a) (e_key b)"

abbreviation by_key :: "ckey \<Rightarrow> conf_entry \<Rightarrow> int" where
  "by_key k x \<equiv> conf_cmp k (e_key x)"

text \<open>Copies: the union members that the types do not select are left at a fixed value.\<close>

definition copy_key :: "ckey \<Rightarrow> ckey" where
  "copy_key from =
     (case subkeytypes (primary from) of
        TYPE_INT \<Rightarrow> \<lparr>primary = primary from, sec_i = sec_i from, sec_s = []\<rparr>
      | TYPE_STR \<Rightarrow> \<lparr>primary = primary from, sec_i = 0, sec_s = sec_s from\<rparr>
      | _ \<Rightarrow> \<lparr>primary = primary from, sec_i = 0, sec_s = []\<rparr>)"

definition filename_copy :: "byte list \<Rightarrow> byte list" where
  "filename_copy fn = fn"

definition fontspec_copy :: "fontspec \<Rightarrow> fontspec" where
  "fontspec_copy f = \<lparr>f_name = f_name f, f_isbold = f_isbold f, f_height = f_height f, f_charset = f_charset f\<rparr>"

definition copy_value :: "cvalue \<Rightarrow> ctype \<Rightarrow> cvalue option" where
  "copy_value from ty =
     (case (ty, from) of
        (TYPE_BOOL, BoolVal b) \<Rightarrow> Some (BoolVal b)
      | (TYPE_INT, IntVal i) \<Rightarrow> Some (IntVal i)
      | (TYPE_STR, StrVal s) \<Rightarrow> Some (StrVal s)
      | (TYPE_FILENAME, FileVal f) \<Rightarrow> Some (FileVal (filename_copy f))
      | (TYPE_FONT, FontVal f) \<Rightarrow> Some (FontVal (fontspec_copy f))
      | (TYPE_NONE, _) \<Rightarrow> Some NoVal
      | _ \<Rightarrow> None)"

subsection \<open>The store\<close>

definition conf_new :: conf where
  "conf_new = newtree234 (Some entry_cmp)"

partial_function (option) conf_clear :: "conf \<Rightarrow> conf option" where
  "conf_clear conf =
     (case delpos234 conf 0 of
        None \<Rightarrow> None
      | Some (entry, conf) \<Rightarrow> (case entry of None \<Rightarrow> Some conf | Some _ \<Rightarrow> conf_clear conf))"

text \<open>\<open>oldentry != entry\<close>: the entry is a fresh allocation, so \<open>add234\<close> has returned it exactly when it
  has added it to the tree.\<close>

definition added :: "conf \<Rightarrow> conf \<Rightarrow> bool" where
  "added before after \<longleftrightarrow> count234 after \<noteq> count234 before"

definition conf_insert :: "conf \<Rightarrow> conf_entry \<Rightarrow> conf option" where
  "conf_insert conf entry =
     (case add234 conf entry of
        Some (Some oldentry, conf1) \<Rightarrow>
          if added conf conf1 then Some conf1
          else
            (case del234 conf1 (e_key oldentry) by_key of
               Some (_, conf2) \<Rightarrow>
                 (case add234 conf2 entry of
                    Some (Some _, conf3) \<Rightarrow> if added conf2 conf3 then Some conf3 else None
                  | _ \<Rightarrow> None)
             | None \<Rightarrow> None)
      | Some (None, conf1) \<Rightarrow> Some conf1
      | None \<Rightarrow> None)"

function copy_loop :: "conf \<Rightarrow> conf \<Rightarrow> int \<Rightarrow> conf option" where
  "copy_loop newconf oldconf i =
     (case index234 oldconf i of
        None \<Rightarrow> Some newconf
      | Some entry \<Rightarrow>
          (case copy_value (e_value entry) (valuetypes (primary (e_key entry))) of
             None \<Rightarrow> None
           | Some v \<Rightarrow>
               (case add234 newconf \<lparr>e_key = copy_key (e_key entry), e_value = v\<rparr> of
                  None \<Rightarrow> None
                | Some (_, newconf) \<Rightarrow> copy_loop newconf oldconf (i + 1))))"
  by pat_completeness auto
termination
  by (relation "measure (\<lambda>(n, oldconf, i). nat (countnode234 (root oldconf) - i))")
    (auto simp: index234_def split: if_splits)

declare copy_loop.simps [simp del]

definition conf_copy_into :: "conf \<Rightarrow> conf \<Rightarrow> conf option" where
  "conf_copy_into newconf oldconf =
     (case conf_clear newconf of None \<Rightarrow> None | Some newconf \<Rightarrow> copy_loop newconf oldconf 0)"

definition conf_copy :: "conf \<Rightarrow> conf option" where
  "conf_copy oldconf = conf_copy_into conf_new oldconf"

subsection \<open>Reading settings\<close>

definition plain_key :: "nat \<Rightarrow> ckey" where
  "plain_key p = \<lparr>primary = p, sec_i = 0, sec_s = []\<rparr>"

definition int_key :: "nat \<Rightarrow> u32 \<Rightarrow> ckey" where
  "int_key p i = \<lparr>primary = p, sec_i = i, sec_s = []\<rparr>"

definition str_key :: "nat \<Rightarrow> byte list \<Rightarrow> ckey" where
  "str_key p s = \<lparr>primary = p, sec_i = 0, sec_s = s\<rparr>"

definition boolval :: "cvalue \<Rightarrow> bool option" where
  "boolval v = (case v of BoolVal b \<Rightarrow> Some b | _ \<Rightarrow> None)"

definition intval :: "cvalue \<Rightarrow> u32 option" where
  "intval v = (case v of IntVal i \<Rightarrow> Some i | _ \<Rightarrow> None)"

definition stringval :: "cvalue \<Rightarrow> byte list option" where
  "stringval v = (case v of StrVal s \<Rightarrow> Some s | _ \<Rightarrow> None)"

definition fileval :: "cvalue \<Rightarrow> byte list option" where
  "fileval v = (case v of FileVal f \<Rightarrow> Some f | _ \<Rightarrow> None)"

definition fontval :: "cvalue \<Rightarrow> fontspec option" where
  "fontval v = (case v of FontVal f \<Rightarrow> Some f | _ \<Rightarrow> None)"

text \<open>\<open>find234\<close> followed by \<open>assert(entry)\<close>, the value read by the given accessor.\<close>

definition find_value :: "conf \<Rightarrow> ckey \<Rightarrow> (cvalue \<Rightarrow> 'v option) \<Rightarrow> 'v option" where
  "find_value conf k rd =
     (case find234 conf k by_key of
        Some (Some entry) \<Rightarrow> rd (e_value entry)
      | _ \<Rightarrow> None)"

text \<open>The two branches \<open>MOD_PERSO\<close> adds read a setting of the other type; the function they call is
  past its own such branch.\<close>

definition conf_get_bool :: "conf \<Rightarrow> nat \<Rightarrow> bool option" where
  "conf_get_bool conf p =
     (if valuetypes p = TYPE_INT then
        (if subkeytypes p \<noteq> TYPE_NONE then None
         else map_option (\<lambda>i. \<not> i = 0) (find_value conf (plain_key p) intval))
      else if \<not> (subkeytypes p = TYPE_NONE \<and> valuetypes p = TYPE_BOOL) then None
      else find_value conf (plain_key p) boolval)"

definition conf_get_int :: "conf \<Rightarrow> nat \<Rightarrow> u32 option" where
  "conf_get_int conf p =
     (if valuetypes p = TYPE_BOOL then
        (if subkeytypes p \<noteq> TYPE_NONE then None
         else map_option (\<lambda>b. if b then 1 else 0) (find_value conf (plain_key p) boolval))
      else if \<not> (subkeytypes p = TYPE_NONE \<and> valuetypes p = TYPE_INT) then None
      else find_value conf (plain_key p) intval)"

definition conf_get_int_int :: "conf \<Rightarrow> nat \<Rightarrow> u32 \<Rightarrow> u32 option" where
  "conf_get_int_int conf p secondary =
     (if \<not> (subkeytypes p = TYPE_INT \<and> valuetypes p = TYPE_INT) then None
      else find_value conf (int_key p secondary) intval)"

definition conf_get_str :: "conf \<Rightarrow> nat \<Rightarrow> byte list option" where
  "conf_get_str conf p =
     (if \<not> (subkeytypes p = TYPE_NONE \<and> valuetypes p = TYPE_STR) then None
      else find_value conf (plain_key p) stringval)"

definition conf_get_str_str_opt :: "conf \<Rightarrow> nat \<Rightarrow> byte list \<Rightarrow> byte list option option" where
  "conf_get_str_str_opt conf p secondary =
     (if \<not> (subkeytypes p = TYPE_STR \<and> valuetypes p = TYPE_STR) then None
      else case find234 conf (str_key p secondary) by_key of
             None \<Rightarrow> None
           | Some None \<Rightarrow> Some None
           | Some (Some entry) \<Rightarrow> map_option Some (stringval (e_value entry)))"

definition conf_get_str_str :: "conf \<Rightarrow> nat \<Rightarrow> byte list \<Rightarrow> byte list option" where
  "conf_get_str_str conf p secondary =
     (case conf_get_str_str_opt conf p secondary of Some (Some ret) \<Rightarrow> Some ret | _ \<Rightarrow> None)"

text \<open>Enumeration: the first entry of the option with a subkey after \<open>subkeyin\<close>, or the first one; the
  result is the subkey stored through \<open>subkeyout\<close> and the value, or \<open>NULL\<close>.\<close>

definition conf_get_str_strs :: "conf \<Rightarrow> nat \<Rightarrow> byte list option \<Rightarrow> (byte list \<times> byte list) option option" where
  "conf_get_str_strs conf p subkeyin =
     (if \<not> (subkeytypes p = TYPE_STR \<and> valuetypes p = TYPE_STR) then None
      else
        case (case subkeyin of
                Some s \<Rightarrow> findrel234 conf (Some (str_key p s)) by_key REL234_GT
              | None \<Rightarrow> findrel234 conf (Some (str_key p [])) (\<lambda>k x. conf_cmp_constkey k (e_key x)) REL234_GE) of
          None \<Rightarrow> None
        | Some None \<Rightarrow> Some None
        | Some (Some entry) \<Rightarrow>
            if primary (e_key entry) \<noteq> p then Some None
            else map_option (\<lambda>v. Some (sec_s (e_key entry), v)) (stringval (e_value entry)))"

definition conf_get_str_nthstrkey :: "conf \<Rightarrow> nat \<Rightarrow> int \<Rightarrow> byte list option option" where
  "conf_get_str_nthstrkey conf p n =
     (if \<not> (subkeytypes p = TYPE_STR \<and> valuetypes p = TYPE_STR) then None
      else
        case findrelpos234 conf (Some (str_key p [])) (\<lambda>k x. conf_cmp_constkey k (e_key x)) REL234_GE of
          None \<Rightarrow> None
        | Some None \<Rightarrow> Some None
        | Some (Some (entry, index)) \<Rightarrow>
            if primary (e_key entry) \<noteq> p then Some None
            else (case index234 conf (index + n) of
                    None \<Rightarrow> Some None
                  | Some entry \<Rightarrow>
                      if primary (e_key entry) \<noteq> p then Some None else Some (Some (sec_s (e_key entry)))))"

definition conf_get_filename :: "conf \<Rightarrow> nat \<Rightarrow> byte list option" where
  "conf_get_filename conf p =
     (if \<not> (subkeytypes p = TYPE_NONE \<and> valuetypes p = TYPE_FILENAME) then None
      else find_value conf (plain_key p) fileval)"

definition conf_get_fontspec :: "conf \<Rightarrow> nat \<Rightarrow> fontspec option" where
  "conf_get_fontspec conf p =
     (if \<not> (subkeytypes p = TYPE_NONE \<and> valuetypes p = TYPE_FONT) then None
      else find_value conf (plain_key p) fontval)"

subsection \<open>Changing settings\<close>

definition conf_set_bool :: "conf \<Rightarrow> nat \<Rightarrow> bool \<Rightarrow> conf option" where
  "conf_set_bool conf p value =
     (if valuetypes p = TYPE_INT then
        (if subkeytypes p \<noteq> TYPE_NONE then None
         else conf_insert conf \<lparr>e_key = plain_key p, e_value = IntVal (if value then 1 else 0)\<rparr>)
      else if \<not> (subkeytypes p = TYPE_NONE \<and> valuetypes p = TYPE_BOOL) then None
      else conf_insert conf \<lparr>e_key = plain_key p, e_value = BoolVal value\<rparr>)"

definition conf_set_int :: "conf \<Rightarrow> nat \<Rightarrow> u32 \<Rightarrow> conf option" where
  "conf_set_int conf p value =
     (if valuetypes p = TYPE_BOOL then
        (if subkeytypes p \<noteq> TYPE_NONE then None
         else conf_insert conf \<lparr>e_key = plain_key p, e_value = BoolVal (if value = 0 then False else True)\<rparr>)
      else if \<not> (subkeytypes p = TYPE_NONE \<and> valuetypes p = TYPE_INT) then None
      else conf_insert conf \<lparr>e_key = plain_key p, e_value = IntVal value\<rparr>)"

definition conf_set_int_int :: "conf \<Rightarrow> nat \<Rightarrow> u32 \<Rightarrow> u32 \<Rightarrow> conf option" where
  "conf_set_int_int conf p secondary value =
     (if \<not> (subkeytypes p = TYPE_INT \<and> valuetypes p = TYPE_INT) then None
      else conf_insert conf \<lparr>e_key = int_key p secondary, e_value = IntVal value\<rparr>)"

definition conf_set_str :: "conf \<Rightarrow> nat \<Rightarrow> byte list \<Rightarrow> conf option" where
  "conf_set_str conf p value =
     (if \<not> (subkeytypes p = TYPE_NONE \<and> valuetypes p = TYPE_STR) then None
      else conf_insert conf \<lparr>e_key = plain_key p, e_value = StrVal value\<rparr>)"

definition conf_set_str_str :: "conf \<Rightarrow> nat \<Rightarrow> byte list \<Rightarrow> byte list \<Rightarrow> conf option" where
  "conf_set_str_str conf p secondary value =
     (if \<not> (subkeytypes p = TYPE_STR \<and> valuetypes p = TYPE_STR) then None
      else conf_insert conf \<lparr>e_key = str_key p secondary, e_value = StrVal value\<rparr>)"

definition conf_del_str_str :: "conf \<Rightarrow> nat \<Rightarrow> byte list \<Rightarrow> conf option" where
  "conf_del_str_str conf p secondary =
     (if \<not> (subkeytypes p = TYPE_STR \<and> valuetypes p = TYPE_STR) then None
      else case find234 conf (str_key p secondary) by_key of
             None \<Rightarrow> None
           | Some None \<Rightarrow> Some conf
           | Some (Some entry) \<Rightarrow> map_option snd (del234 conf (e_key entry) by_key))"

definition conf_set_filename :: "conf \<Rightarrow> nat \<Rightarrow> byte list \<Rightarrow> conf option" where
  "conf_set_filename conf p value =
     (if \<not> (subkeytypes p = TYPE_NONE \<and> valuetypes p = TYPE_FILENAME) then None
      else conf_insert conf \<lparr>e_key = plain_key p, e_value = FileVal (filename_copy value)\<rparr>)"

definition conf_set_fontspec :: "conf \<Rightarrow> nat \<Rightarrow> fontspec \<Rightarrow> conf option" where
  "conf_set_fontspec conf p value =
     (if \<not> (subkeytypes p = TYPE_NONE \<and> valuetypes p = TYPE_FONT) then None
      else conf_insert conf \<lparr>e_key = plain_key p, e_value = FontVal (fontspec_copy value)\<rparr>)"

subsection \<open>The comparison is an order\<close>

lemma strcmp_Cons:
  "cstring (a # s) \<Longrightarrow> strcmp (a # s) (b # t) = (if a < b then -1 else if b < a then 1 else strcmp s t)"
  by (subst strcmp.simps) auto

lemma strcmp_Nil: "strcmp [] [] = 0" "cstring (a # s) \<Longrightarrow> strcmp (a # s) [] = 1" "cstring (a # s) \<Longrightarrow> strcmp [] (a # s) = -1"
  by (subst strcmp.simps, auto simp: word_gt_0)+

lemma strcmp_flip: "cstring s \<Longrightarrow> cstring t \<Longrightarrow> strcmp t s = - strcmp s t"
proof (induction s arbitrary: t)
  case Nil
  then show ?case by (cases t) (simp_all add: strcmp_Nil)
next
  case (Cons a s)
  then show ?case by (cases t) (auto simp: strcmp_Nil strcmp_Cons)
qed

lemma strcmp_eq_0: "cstring s \<Longrightarrow> cstring t \<Longrightarrow> strcmp s t = 0 \<longleftrightarrow> s = t"
proof (induction s arbitrary: t)
  case Nil
  then show ?case by (cases t) (simp_all add: strcmp_Nil)
next
  case (Cons a s)
  then show ?case by (cases t) (auto simp: strcmp_Nil strcmp_Cons)
qed

lemma strcmp_trans: "cstring s \<Longrightarrow> cstring t \<Longrightarrow> cstring u \<Longrightarrow> strcmp s t \<le> 0 \<Longrightarrow> strcmp t u \<le> 0 \<Longrightarrow> strcmp s u \<le> 0"
proof (induction s arbitrary: t u)
  case Nil
  then show ?case by (cases u) (simp_all add: strcmp_Nil)
next
  case (Cons a s)
  from Cons.prems obtain b t' where t: "t = b # t'" by (cases t) (simp_all add: strcmp_Nil)
  from Cons.prems t obtain d u' where u: "u = d # u'" by (cases u) (simp_all add: strcmp_Nil)
  show ?case using Cons.prems Cons.IH [of t' u']
    by (auto simp: t u strcmp_Cons split: if_splits)
qed

definition okkey :: "ckey \<Rightarrow> bool" where
  "okkey k \<longleftrightarrow> (subkeytypes (primary k) = TYPE_STR \<longrightarrow> cstring (sec_s k))"

lemma conf_cmp_flip: "okkey a \<Longrightarrow> okkey b \<Longrightarrow> conf_cmp b a = - conf_cmp a b"
  using strcmp_flip [of "sec_s a" "sec_s b"]
  by (auto simp: conf_cmp_def okkey_def word_sless_alt split: ctype.splits)

lemma conf_cmp_trans:
  assumes "okkey a" "okkey b" "okkey d" "conf_cmp a b \<le> 0" "conf_cmp b d \<le> 0"
  shows "conf_cmp a d \<le> 0"
proof (cases "primary a = primary b \<and> primary b = primary d")
  case True
  then show ?thesis using assms strcmp_trans [of "sec_s a" "sec_s b" "sec_s d"]
    by (auto simp: conf_cmp_def okkey_def word_sless_alt split: ctype.splits if_splits)
next
  case False
  with assms(4,5) have "primary a < primary d" by (auto simp: conf_cmp_def split: if_splits)
  then show ?thesis by (simp add: conf_cmp_def)
qed

lemma sint_eq: "sint (a :: u32) = sint b \<Longrightarrow> a = b"
  using signed_word_eqI by blast

text \<open>When two keys compare equal: the same option and, where the option has subkeys, the same one.\<close>

lemma conf_cmp_eq_0:
  "okkey a \<Longrightarrow> okkey b \<Longrightarrow> conf_cmp a b = 0 \<longleftrightarrow> primary a = primary b \<and>
    (subkeytypes (primary a) = TYPE_INT \<longrightarrow> sec_i a = sec_i b) \<and>
    (subkeytypes (primary a) = TYPE_STR \<longrightarrow> sec_s a = sec_s b)"
  using strcmp_eq_0 [of "sec_s a" "sec_s b"]
  by (cases "subkeytypes (primary a)") (auto simp: conf_cmp_def okkey_def word_sless_alt not_less sint_eq)

interpretation conf: key_order e_key conf_cmp okkey
proof
  show "sgn (conf_cmp b a) = - sgn (conf_cmp a b)" if "okkey a" "okkey b" for a b
    unfolding conf_cmp_flip [OF that] by (simp add: sgn_minus)
qed (rule conf_cmp_trans)

subsection \<open>The store as a map\<close>

fun value_ok :: "ctype \<Rightarrow> cvalue \<Rightarrow> bool" where
  "value_ok TYPE_BOOL (BoolVal _) \<longleftrightarrow> True"
| "value_ok TYPE_INT (IntVal _) \<longleftrightarrow> True"
| "value_ok TYPE_STR (StrVal s) \<longleftrightarrow> cstring s"
| "value_ok TYPE_FILENAME (FileVal s) \<longleftrightarrow> cstring s"
| "value_ok TYPE_FONT (FontVal f) \<longleftrightarrow> cstring (f_name f)"
| "value_ok _ _ \<longleftrightarrow> False"

definition entry_ok :: "conf_entry \<Rightarrow> bool" where
  "entry_ok e \<longleftrightarrow> primary (e_key e) < N_CONFIG_OPTIONS \<and> okkey (e_key e) \<and>
     value_ok (valuetypes (primary (e_key e))) (e_value e)"

definition conf_wf :: "conf \<Rightarrow> bool" where
  "conf_wf conf \<longleftrightarrow> conf.keyed conf \<and> (\<forall>e\<in>set (list234 conf). entry_ok e)"

lemma option_number: "valuetypes p \<noteq> TYPE_NONE \<Longrightarrow> p < N_CONFIG_OPTIONS"
  by (auto simp: valuetypes_def split: if_splits)

lemma conf_cmp_eq: "entry_cmp = (\<lambda>a b. conf_cmp (e_key a) (e_key b))"
  by (simp add: entry_cmp_def fun_eq_iff)

lemma conf_new_wf: "conf_wf conf_new \<and> list234 conf_new = []"
proof -
  have "conf.keyed conf_new" unfolding conf_new_def conf_cmp_eq by (rule conjunct1 [OF conf.new_keyed])
  moreover have "list234 conf_new = []" by (simp add: conf_new_def newtree234_def list234_def)
  ultimately show ?thesis by (simp add: conf_wf_def)
qed

lemma keyed_facts:
  "conf.keyed c \<Longrightarrow> wf234 c" "conf.keyed c \<Longrightarrow> cmp c = Some (\<lambda>a b. conf_cmp (e_key a) (e_key b))"
  "conf.keyed c \<Longrightarrow> conf.ordered (list234 c)"
  by (simp_all add: conf.keyed_def)

text \<open>Adding an entry whose key is not there, and replacing one.\<close>

lemma add_new:
  assumes "conf.keyed c" and "okkey (e_key e)" and "conf.lookup c (e_key e) = None"
  shows "\<exists>c'. add234 c e = Some (Some e, c') \<and> conf.keyed c' \<and> added c c' \<and>
    set (list234 c') = insert e (set (list234 c)) \<and>
    (\<forall>k. okkey k \<longrightarrow> conf.lookup c' k = (if conf_cmp k (e_key e) = 0 then Some e else conf.lookup c k))"
proof -
  from conf.add_keyed [OF assms(1,2)] assms(3) obtain c' where c': "add234 c e = Some (Some e, c')" "conf.keyed c'"
    "\<forall>k. okkey k \<longrightarrow> conf.lookup c' k = (if conf_cmp k (e_key e) = 0 then Some e else conf.lookup c k)" by auto
  have sorted: "cmp_sorted (\<lambda>x. conf_cmp (e_key e) (e_key x)) (list234 c)"
    by (rule conf.ordered_cmp_sorted [OF keyed_facts(3) [OF assms(1)] assms(2)])
  have "set (list234 c') = insert e (set (list234 c)) \<and> length (list234 c') = Suc (length (list234 c))"
    using add234_list [OF keyed_facts(1,2) [OF assms(1)], of e] sorted
  proof (elim disjE exE conjE bexE meta_impE, goal_cases)
    case (3 x)
    then have "conf.lookup c (e_key e) \<noteq> None" by (auto simp: conf.lookup_def find_None_iff)
    with assms(3) show ?case by simp
  qed (use c'(1) in auto)
  then have "added c c'"
    using count234_list [OF keyed_facts(1) [OF assms(1)]] count234_list [OF keyed_facts(1) [OF c'(2)]]
    by (simp add: added_def)
  with c' show ?thesis using \<open>set (list234 c') = _ \<and> _\<close> by blast
qed

lemma del234_subset:
  assumes "conf.keyed c" and "okkey k" and "del234 c k by_key = Some (r, c')"
  shows "set (list234 c') \<subseteq> set (list234 c)"
  using assms(1,2)
proof (cases rule: conf.keyed_findpos)
  case 1
  with assms(3) show ?thesis by (auto simp: del234_def)
next
  case (2 l x r')
  have "int (length l) < count234 c" using count234_list [OF keyed_facts(1) [OF assms(1)]] by (simp add: 2(2))
  from delpos234_internal_list [OF keyed_facts(1) [OF assms(1)] _ this] assms(3) 2 show ?thesis
    by (auto simp: del234_def remove_nth_def)
qed

lemma conf_insert_ok:
  assumes "conf_wf c" and "entry_ok e"
  shows "\<exists>c'. conf_insert c e = Some c' \<and> conf_wf c' \<and>
    (\<forall>k. okkey k \<longrightarrow> conf.lookup c' k = (if conf_cmp k (e_key e) = 0 then Some e else conf.lookup c k))"
proof -
  have k: "conf.keyed c" "okkey (e_key e)" "\<forall>x\<in>set (list234 c). entry_ok x"
    using assms by (simp_all add: conf_wf_def entry_ok_def)
  show ?thesis
  proof (cases "conf.lookup c (e_key e)")
    case None
    from add_new [OF k(1,2) None] show ?thesis using k(3) assms(2) by (auto simp: conf_insert_def conf_wf_def)
  next
    case (Some x)
    from conf.add_keyed [OF k(1,2)] Some have a: "add234 c e = Some (Some x, c)" by auto
    have x: "conf_cmp (e_key e) (e_key x) = 0" "okkey (e_key x)"
      using Some k(3) by (auto simp: conf.lookup_def find_Some_iff entry_ok_def)
    from conf.del_keyed [OF k(1) x(2)] obtain c2 where c2: "del234 c (e_key x) by_key = Some (conf.lookup c (e_key x), c2)"
      "conf.keyed c2" "\<forall>k'. okkey k' \<longrightarrow> conf.lookup c2 k' = (if conf_cmp k' (e_key x) = 0 then None else conf.lookup c k')"
      by blast
    have sub: "set (list234 c2) \<subseteq> set (list234 c)" by (rule del234_subset [OF k(1) x(2) c2(1)])
    have "conf.lookup c2 (e_key e) = None" using c2(3) k(2) x(1) by simp
    from add_new [OF c2(2) k(2) this] obtain c3 where c3: "add234 c2 e = Some (Some e, c3)" "conf.keyed c3" "added c2 c3"
      "set (list234 c3) = insert e (set (list234 c2))"
      "\<forall>k. okkey k \<longrightarrow> conf.lookup c3 k = (if conf_cmp k (e_key e) = 0 then Some e else conf.lookup c2 k)" by blast
    have "conf.lookup c3 k' = (if conf_cmp k' (e_key e) = 0 then Some e else conf.lookup c k')" if "okkey k'" for k'
    proof -
      have "conf_cmp k' (e_key x) = 0 \<longleftrightarrow> conf_cmp k' (e_key e) = 0"
        using x(1) conf_cmp_eq_0 [OF that x(2)] conf_cmp_eq_0 [OF that k(2)] conf_cmp_eq_0 [OF k(2) x(2)] by auto
      with c2(3) c3(5) that show ?thesis by simp
    qed
    moreover have "conf_insert c e = Some c3" by (simp add: conf_insert_def a c2(1) c3(1,3) added_def [of c c])
    moreover have "conf_wf c3" using c3(2,4) sub k(3) assms(2) by (auto simp: conf_wf_def)
    ultimately show ?thesis by blast
  qed
qed

lemma find_value_lookup: "conf_wf c \<Longrightarrow> okkey k \<Longrightarrow> find_value c k rd =
    (case conf.lookup c k of Some e \<Rightarrow> rd (e_value e) | None \<Rightarrow> None)"
  by (simp add: find_value_def conf_wf_def conf.find_keyed)

lemma okkey_simps [simp]:
  "subkeytypes p \<noteq> TYPE_STR \<Longrightarrow> okkey (plain_key p)"
  "subkeytypes p \<noteq> TYPE_STR \<Longrightarrow> okkey (int_key p i)"
  "okkey (str_key p s) \<longleftrightarrow> (subkeytypes p = TYPE_STR \<longrightarrow> cstring s)"
  by (simp_all add: okkey_def plain_key_def int_key_def str_key_def)

lemma fontspec_copy [simp]: "fontspec_copy f = f"
  by (simp add: fontspec_copy_def)

text \<open>Every setting but the one with key \<open>k\<close> reads as before.\<close>

definition kept_but :: "ckey \<Rightarrow> conf \<Rightarrow> conf \<Rightarrow> bool" where
  "kept_but k c c' \<longleftrightarrow> (\<forall>k'. okkey k' \<and> conf_cmp k' k \<noteq> 0 \<longrightarrow> find234 c' k' by_key = find234 c k' by_key)"

lemma conf_insert_reads:
  assumes "conf_wf c" and "entry_ok e"
  shows "\<exists>c'. conf_insert c e = Some c' \<and> conf_wf c' \<and> kept_but (e_key e) c c' \<and>
    find234 c' (e_key e) by_key = Some (Some e) \<and>
    (\<forall>k. okkey k \<longrightarrow> find234 c' k by_key = (if conf_cmp k (e_key e) = 0 then Some (Some e) else find234 c k by_key))"
proof -
  have k: "okkey (e_key e)" using assms(2) by (simp add: entry_ok_def)
  from conf_insert_ok [OF assms] obtain c' where c': "conf_insert c e = Some c'" "conf_wf c'"
    "\<forall>k. okkey k \<longrightarrow> conf.lookup c' k = (if conf_cmp k (e_key e) = 0 then Some e else conf.lookup c k)" by blast
  have f: "find234 c' k by_key = (if conf_cmp k (e_key e) = 0 then Some (Some e) else find234 c k by_key)" if "okkey k" for k
    using c' assms(1) that by (simp add: conf_wf_def conf.find_keyed)
  show ?thesis using c'(1,2) f f [OF k] conf.refl [OF k] by (auto simp: kept_but_def)
qed

lemma entry_ok_plain:
  "p < N_CONFIG_OPTIONS \<Longrightarrow> subkeytypes p \<noteq> TYPE_STR \<Longrightarrow> value_ok (valuetypes p) v \<Longrightarrow>
    entry_ok \<lparr>e_key = plain_key p, e_value = v\<rparr>"
  by (simp add: entry_ok_def) (simp add: plain_key_def)

lemma entry_ok_int:
  "p < N_CONFIG_OPTIONS \<Longrightarrow> subkeytypes p \<noteq> TYPE_STR \<Longrightarrow> value_ok (valuetypes p) v \<Longrightarrow>
    entry_ok \<lparr>e_key = int_key p i, e_value = v\<rparr>"
  by (simp add: entry_ok_def) (simp add: int_key_def)

lemma entry_ok_str:
  "p < N_CONFIG_OPTIONS \<Longrightarrow> cstring s \<Longrightarrow> value_ok (valuetypes p) v \<Longrightarrow>
    entry_ok \<lparr>e_key = str_key p s, e_value = v\<rparr>"
  by (simp add: entry_ok_def) (simp add: str_key_def)

text \<open>C24: settings without subkeys. On a well-formed store no assertion of a setter fails; the getter then
  reads back what was set, with a number read as a flag and a flag as a number as the KiTTY patch
  wants, the invariant (a valid sorted tree whose values have the types of their options) is kept,
  and every other setting reads as before.\<close>

theorem conf_set_get:
  assumes "conf_wf c" and "subkeytypes p = TYPE_NONE"
  shows "(valuetypes p = TYPE_BOOL \<longrightarrow> (\<exists>c'. conf_set_bool c p b = Some c' \<and> conf_wf c' \<and> kept_but (plain_key p) c c' \<and>
      conf_get_bool c' p = Some b \<and> conf_get_int c' p = Some (if b then 1 else 0))) \<and>
    (valuetypes p = TYPE_INT \<longrightarrow> (\<exists>c'. conf_set_int c p i = Some c' \<and> conf_wf c' \<and> kept_but (plain_key p) c c' \<and>
      conf_get_int c' p = Some i \<and> conf_get_bool c' p = Some (i \<noteq> 0))) \<and>
    (valuetypes p = TYPE_STR \<and> cstring s \<longrightarrow> (\<exists>c'. conf_set_str c p s = Some c' \<and> conf_wf c' \<and>
      kept_but (plain_key p) c c' \<and> conf_get_str c' p = Some s)) \<and>
    (valuetypes p = TYPE_FILENAME \<and> cstring s \<longrightarrow> (\<exists>c'. conf_set_filename c p s = Some c' \<and> conf_wf c' \<and>
      kept_but (plain_key p) c c' \<and> conf_get_filename c' p = Some s)) \<and>
    (valuetypes p = TYPE_FONT \<and> cstring (f_name f) \<longrightarrow> (\<exists>c'. conf_set_fontspec c p f = Some c' \<and> conf_wf c' \<and>
      kept_but (plain_key p) c c' \<and> conf_get_fontspec c' p = Some f))"
proof -
  have ins: "\<exists>c'. conf_insert c \<lparr>e_key = plain_key p, e_value = v\<rparr> = Some c' \<and> conf_wf c' \<and>
      kept_but (plain_key p) c c' \<and> find234 c' (plain_key p) by_key = Some (Some \<lparr>e_key = plain_key p, e_value = v\<rparr>)"
    if "value_ok (valuetypes p) v" for v
  proof -
    have "valuetypes p \<noteq> TYPE_NONE" using that by (cases v) auto
    from entry_ok_plain [OF option_number [OF this] _ that] assms(2)
    have "entry_ok \<lparr>e_key = plain_key p, e_value = v\<rparr>" by simp
    from conf_insert_reads [OF assms(1) this] show ?thesis by auto
  qed
  note defs = assms(2) find_value_def conf_set_bool_def conf_get_bool_def conf_set_int_def conf_get_int_def conf_set_str_def
    conf_get_str_def conf_set_filename_def conf_get_filename_def conf_set_fontspec_def conf_get_fontspec_def
    filename_copy_def boolval_def intval_def stringval_def fileval_def fontval_def
  show ?thesis
    using ins [of "BoolVal b"] ins [of "IntVal i"] ins [of "StrVal s"] ins [of "FileVal s"] ins [of "FontVal f"]
    by (intro conjI impI) (auto simp: defs)
qed

theorem conf_set_get_witness:
  "\<exists>c'. conf_set_str conf_new 0 [104] = Some c' \<and> conf_get_str c' 0 = Some [104]"
  using conf_set_get [OF conjunct1 [OF conf_new_wf] host_types(2), of b i "[104]" f] host_types by auto

text \<open>C25: settings with string subkeys, such as the environment variables and the manual host keys. On
  a well-formed store setting and deleting a subkey never fail an assertion and keep the invariant;
  the subkey then reads as set, or as absent, and every other subkey and setting reads as before.\<close>

theorem conf_str_str_map:
  assumes "conf_wf c" and "subkeytypes p = TYPE_STR" and "valuetypes p = TYPE_STR" and "cstring k" and "cstring v"
  shows "(\<exists>c'. conf_set_str_str c p k v = Some c' \<and> conf_wf c' \<and> kept_but (str_key p k) c c' \<and>
      (\<forall>k'. cstring k' \<longrightarrow> conf_get_str_str_opt c' p k' =
        (if k' = k then Some (Some v) else conf_get_str_str_opt c p k'))) \<and>
    (\<exists>c'. conf_del_str_str c p k = Some c' \<and> conf_wf c' \<and> kept_but (str_key p k) c c' \<and>
      (\<forall>k'. cstring k' \<longrightarrow> conf_get_str_str_opt c' p k' =
        (if k' = k then Some None else conf_get_str_str_opt c p k')))"
proof (rule conjI)
  have p: "p < N_CONFIG_OPTIONS" using option_number assms(3) by simp
  have ok: "okkey (str_key p k')" if "cstring k'" for k' using that by simp
  have eq: "conf_cmp (str_key p k') (str_key p k) = 0 \<longleftrightarrow> k' = k" if "cstring k'" for k'
    using conf_cmp_eq_0 [OF ok [OF that] ok [OF assms(4)]] assms(2) by (simp add: str_key_def)
  have "entry_ok \<lparr>e_key = str_key p k, e_value = StrVal v\<rparr>"
    using entry_ok_str [OF p assms(4)] assms(3,5) by simp
  from conf_insert_reads [OF assms(1) this] obtain c' where
    "conf_insert c \<lparr>e_key = str_key p k, e_value = StrVal v\<rparr> = Some c'" "conf_wf c'" "kept_but (str_key p k) c c'"
    "\<forall>k'. okkey k' \<longrightarrow> find234 c' k' by_key =
      (if conf_cmp k' (str_key p k) = 0 then Some (Some \<lparr>e_key = str_key p k, e_value = StrVal v\<rparr>) else find234 c k' by_key)"
    by auto
  then show "\<exists>c'. conf_set_str_str c p k v = Some c' \<and> conf_wf c' \<and> kept_but (str_key p k) c c' \<and>
      (\<forall>k'. cstring k' \<longrightarrow> conf_get_str_str_opt c' p k' =
        (if k' = k then Some (Some v) else conf_get_str_str_opt c p k'))"
    using assms(2,3) ok eq by (auto simp: conf_set_str_str_def conf_get_str_str_opt_def stringval_def)
  have kd: "conf.keyed c" "\<forall>e\<in>set (list234 c). entry_ok e" using assms(1) by (simp_all add: conf_wf_def)
  from conf.del_keyed [OF kd(1) ok [OF assms(4)]] obtain c2 where c2:
    "del234 c (str_key p k) by_key = Some (conf.lookup c (str_key p k), c2)" "conf.keyed c2"
    "\<forall>k'. okkey k' \<longrightarrow> conf.lookup c2 k' = (if conf_cmp k' (str_key p k) = 0 then None else conf.lookup c k')" by blast
  show "\<exists>c'. conf_del_str_str c p k = Some c' \<and> conf_wf c' \<and> kept_but (str_key p k) c c' \<and>
      (\<forall>k'. cstring k' \<longrightarrow> conf_get_str_str_opt c' p k' =
        (if k' = k then Some None else conf_get_str_str_opt c p k'))"
  proof (cases "conf.lookup c (str_key p k)")
    case None
    then have "conf_del_str_str c p k = Some c"
      using assms(2,3) conf.find_keyed [OF kd(1) ok [OF assms(4)]] by (simp add: conf_del_str_str_def)
    moreover have "conf_get_str_str_opt c p k = Some None"
      using assms(2,3) None conf.find_keyed [OF kd(1) ok [OF assms(4)]] by (simp add: conf_get_str_str_opt_def)
    ultimately show ?thesis using assms(1) by (auto simp: kept_but_def)
  next
    case (Some e)
    have e: "okkey (e_key e)" "conf_cmp (str_key p k) (e_key e) = 0"
      using Some kd(2) by (auto simp: conf.lookup_def find_Some_iff entry_ok_def)
    from conf.del_keyed [OF kd(1) e(1)] obtain c' where c':
      "del234 c (e_key e) by_key = Some (conf.lookup c (e_key e), c')" "conf.keyed c'"
      "\<forall>k'. okkey k' \<longrightarrow> conf.lookup c' k' = (if conf_cmp k' (e_key e) = 0 then None else conf.lookup c k')" by blast
    have same: "conf_cmp k' (e_key e) = 0 \<longleftrightarrow> conf_cmp k' (str_key p k) = 0" if "okkey k'" for k'
      using e conf_cmp_eq_0 [OF that e(1)] conf_cmp_eq_0 [OF that ok [OF assms(4)]]
        conf_cmp_eq_0 [OF ok [OF assms(4)] e(1)] by auto
    have "conf_wf c'" using c'(2) kd(2) del234_subset [OF kd(1) e(1) c'(1)] by (auto simp: conf_wf_def)
    moreover have "conf_del_str_str c p k = Some c'"
      using assms(2,3) Some c'(1) conf.find_keyed [OF kd(1) ok [OF assms(4)]] by (simp add: conf_del_str_str_def)
    moreover have f: "find234 c' k' by_key = (if conf_cmp k' (str_key p k) = 0 then Some None else find234 c k' by_key)"
      if "okkey k'" for k'
      using c'(3) same [OF that] that conf.find_keyed [OF c'(2) that] conf.find_keyed [OF kd(1) that] by simp
    ultimately show ?thesis
      using assms(2,3) ok eq f by (auto simp: kept_but_def conf_get_str_str_opt_def)
  qed
qed

theorem conf_str_str_map_witness:
  "\<exists>c'. conf_set_str_str conf_new 55 [72] [49] = Some c' \<and> conf_get_str_str_opt c' 55 [72] = Some (Some [49])"
  using conf_str_str_map [OF conjunct1 [OF conf_new_wf] host_types(4,3), of "[72]" "[49]"] by auto

subsection \<open>Serialising\<close>

definition toint :: "u32 \<Rightarrow> u32" where
  "toint u = (if u \<le> 0x7FFFFFFF then u else if u \<ge> 0x80000000 then 0x80000000 + (u - 0x80000000) else 0x80000000)"

lemma toint [simp]: "toint u = u"
proof -
  have "u \<ge> 0x80000000" if "\<not> u \<le> 0x7FFFFFFF"
  proof -
    have "0x7FFFFFFF + 1 \<le> u" using that by (intro inc_le) (simp add: not_le)
    then show ?thesis by simp
  qed
  then show ?thesis by (auto simp: toint_def)
qed

definition filename_serialise :: "'s sink_write \<Rightarrow> 's \<Rightarrow> byte list \<Rightarrow> 's option" where
  "filename_serialise wr bs f = BinarySink_put_asciz wr bs f"

definition filename_deserialise :: "BinarySource \<Rightarrow> byte list \<times> BinarySource" where
  "filename_deserialise src = BinarySource_get_asciz src"

definition fontspec_serialise :: "'s sink_write \<Rightarrow> 's \<Rightarrow> fontspec \<Rightarrow> 's option" where
  "fontspec_serialise wr bs f =
     (case BinarySink_put_asciz wr bs (f_name f) of None \<Rightarrow> None | Some bs \<Rightarrow>
      (case BinarySink_put_uint32 wr bs (if f_isbold f then 1 else 0) of None \<Rightarrow> None | Some bs \<Rightarrow>
      (case BinarySink_put_uint32 wr bs (f_height f) of None \<Rightarrow> None | Some bs \<Rightarrow>
       BinarySink_put_uint32 wr bs (f_charset f))))"

definition fontspec_deserialise :: "BinarySource \<Rightarrow> fontspec \<times> BinarySource" where
  "fontspec_deserialise src =
     (let (name, src) = BinarySource_get_asciz src;
          (isbold, src) = BinarySource_get_uint32 src;
          (height, src) = BinarySource_get_uint32 src;
          (charset, src) = BinarySource_get_uint32 src
      in (\<lparr>f_name = name, f_isbold = isbold \<noteq> 0, f_height = height, f_charset = charset\<rparr>, src))"

definition serialise_entry :: "'s sink_write \<Rightarrow> 's \<Rightarrow> conf_entry \<Rightarrow> 's option" where
  "serialise_entry wr bs entry =
     (case BinarySink_put_uint32 wr bs (word_of_nat (primary (e_key entry))) of None \<Rightarrow> None | Some bs \<Rightarrow>
      (case (case subkeytypes (primary (e_key entry)) of
               TYPE_INT \<Rightarrow> BinarySink_put_uint32 wr bs (sec_i (e_key entry))
             | TYPE_STR \<Rightarrow> BinarySink_put_asciz wr bs (sec_s (e_key entry))
             | _ \<Rightarrow> Some bs) of None \<Rightarrow> None | Some bs \<Rightarrow>
      (case (valuetypes (primary (e_key entry)), e_value entry) of
         (TYPE_BOOL, BoolVal b) \<Rightarrow> BinarySink_put_bool wr bs b
       | (TYPE_INT, IntVal i) \<Rightarrow> BinarySink_put_uint32 wr bs i
       | (TYPE_STR, StrVal s) \<Rightarrow> BinarySink_put_asciz wr bs s
       | (TYPE_FILENAME, FileVal f) \<Rightarrow> filename_serialise wr bs f
       | (TYPE_FONT, FontVal f) \<Rightarrow> fontspec_serialise wr bs f
       | (TYPE_NONE, _) \<Rightarrow> Some bs
       | _ \<Rightarrow> None)))"

function serialise_loop :: "'s sink_write \<Rightarrow> 's \<Rightarrow> conf \<Rightarrow> int \<Rightarrow> 's option" where
  "serialise_loop wr bs conf i =
     (case index234 conf i of
        None \<Rightarrow> Some bs
      | Some entry \<Rightarrow>
          (case serialise_entry wr bs entry of
             None \<Rightarrow> None
           | Some bs \<Rightarrow> serialise_loop wr bs conf (i + 1)))"
  by pat_completeness auto
termination
  by (relation "measure (\<lambda>(wr, bs, conf, i). nat (countnode234 (root conf) - i))")
    (auto simp: index234_def split: if_splits)

declare serialise_loop.simps [simp del]

definition conf_serialise :: "'s sink_write \<Rightarrow> 's \<Rightarrow> conf \<Rightarrow> 's option" where
  "conf_serialise wr bs conf =
     (case serialise_loop wr bs conf 0 of
        None \<Rightarrow> None
      | Some bs \<Rightarrow> BinarySink_put_uint32 wr bs 0xFFFFFFFF)"

definition deserialise_entry :: "nat \<Rightarrow> BinarySource \<Rightarrow> conf_entry \<times> BinarySource" where
  "deserialise_entry p src =
     (let (k, src) =
        (case subkeytypes p of
           TYPE_INT \<Rightarrow> (case BinarySource_get_uint32 src of (i, src) \<Rightarrow> (int_key p (toint i), src))
         | TYPE_STR \<Rightarrow> (case BinarySource_get_asciz src of (s, src) \<Rightarrow> (str_key p s, src))
         | _ \<Rightarrow> (plain_key p, src));
        (v, src) =
        (case valuetypes p of
           TYPE_BOOL \<Rightarrow> (case BinarySource_get_bool src of (b, src) \<Rightarrow> (BoolVal b, src))
         | TYPE_INT \<Rightarrow> (case BinarySource_get_uint32 src of (i, src) \<Rightarrow> (IntVal (toint i), src))
         | TYPE_STR \<Rightarrow> (case BinarySource_get_asciz src of (s, src) \<Rightarrow> (StrVal s, src))
         | TYPE_FILENAME \<Rightarrow> (case filename_deserialise src of (f, src) \<Rightarrow> (FileVal f, src))
         | TYPE_FONT \<Rightarrow> (case fontspec_deserialise src of (f, src) \<Rightarrow> (FontVal f, src))
         | TYPE_NONE \<Rightarrow> (NoVal, src))
      in (\<lparr>e_key = k, e_value = v\<rparr>, src))"

lemma get_steps_simp:
  "src_inv src \<Longrightarrow> BinarySource_get_uint32 src = (i, src') \<Longrightarrow> src_step_ok src src'"
  "src_inv src \<Longrightarrow> BinarySource_get_asciz src = (s, src') \<Longrightarrow> src_step_ok src src'"
  "src_inv src \<Longrightarrow> BinarySource_get_bool src = (b, src') \<Longrightarrow> src_step_ok src src'"
  using get_step_ok [of src G_uint32] get_step_ok [of src G_asciz] get_step_ok [of src G_bool] by simp_all

lemma fontspec_step:
  assumes "src_inv src" and "fontspec_deserialise src = (f, src')" shows "src_step_ok src src'"
proof -
  obtain n s1 where 1: "BinarySource_get_asciz src = (n, s1)" by fastforce
  obtain b s2 where 2: "BinarySource_get_uint32 s1 = (b, s2)" by fastforce
  obtain h s3 where 3: "BinarySource_get_uint32 s2 = (h, s3)" by fastforce
  obtain c s4 where 4: "BinarySource_get_uint32 s3 = (c, s4)" by fastforce
  have s1: "src_step_ok src s1" by (rule get_steps_simp(2) [OF assms(1) 1])
  have s2: "src_step_ok s1 s2" by (rule get_steps_simp(1) [OF src_step_ok_inv [OF s1] 2])
  have s3: "src_step_ok s2 s3" by (rule get_steps_simp(1) [OF src_step_ok_inv [OF s2] 3])
  have s4: "src_step_ok s3 s4" by (rule get_steps_simp(1) [OF src_step_ok_inv [OF s3] 4])
  have "src' = s4" using assms(2) by (simp add: fontspec_deserialise_def 1 2 3 4)
  then show ?thesis using s1 s2 s3 s4 src_step_ok_trans by metis
qed

lemma deserialise_entry_step:
  assumes "src_inv src" shows "src_step_ok src (snd (deserialise_entry p src))"
proof -
  obtain k s1 where k: "(case subkeytypes p of
      TYPE_INT \<Rightarrow> (case BinarySource_get_uint32 src of (i, src) \<Rightarrow> (int_key p (toint i), src))
    | TYPE_STR \<Rightarrow> (case BinarySource_get_asciz src of (s, src) \<Rightarrow> (str_key p s, src))
    | _ \<Rightarrow> (plain_key p, src)) = (k, s1)" by fastforce
  have s1: "src_step_ok src s1"
    using k assms by (auto split: ctype.splits prod.splits intro: src_step_ok_refl get_steps_simp)
  obtain v s2 where v: "(case valuetypes p of
      TYPE_BOOL \<Rightarrow> (case BinarySource_get_bool s1 of (b, src) \<Rightarrow> (BoolVal b, src))
    | TYPE_INT \<Rightarrow> (case BinarySource_get_uint32 s1 of (i, src) \<Rightarrow> (IntVal (toint i), src))
    | TYPE_STR \<Rightarrow> (case BinarySource_get_asciz s1 of (s, src) \<Rightarrow> (StrVal s, src))
    | TYPE_FILENAME \<Rightarrow> (case filename_deserialise s1 of (f, src) \<Rightarrow> (FileVal f, src))
    | TYPE_FONT \<Rightarrow> (case fontspec_deserialise s1 of (f, src) \<Rightarrow> (FontVal f, src))
    | TYPE_NONE \<Rightarrow> (NoVal, s1)) = (v, s2)" by fastforce
  have i1: "src_inv s1" by (rule src_step_ok_inv [OF s1])
  have s2: "src_step_ok s1 s2"
    using v i1 by (auto simp: filename_deserialise_def split: ctype.splits prod.splits
        intro: src_step_ok_refl get_steps_simp fontspec_step)
  have "snd (deserialise_entry p src) = s2" unfolding deserialise_entry_def Let_def k prod.case v by simp
  then show ?thesis using s1 s2 src_step_ok_trans by metis
qed

lemma get_uint32_ok:
  assumes "BinarySource_get_uint32 src = (p, src1)" and "src_err src1 = BSE_NO_ERROR"
  shows "src_data src1 = src_data src \<and> src_pos src1 = src_pos src + 4 \<and> src_inv src1"
  using assms by (auto simp: BinarySource_get_uint32_def BinarySource_data_avail_def consume_def src_inv_def split: if_splits)

text \<open>The loop of \<open>conf_deserialise\<close>: the flag returned and the store, \<open>None\<close> when an assertion fails.\<close>

function conf_deserialise :: "conf \<Rightarrow> BinarySource \<Rightarrow> ((bool \<times> conf) \<times> BinarySource) option" where
  "conf_deserialise conf src =
     (let (p, src1) = BinarySource_get_uint32 src
      in if src_err src1 \<noteq> BSE_NO_ERROR then Some ((False, conf), src1)
         else if p = 0xFFFFFFFF then Some ((True, conf), src1)
         else if unat p \<ge> N_CONFIG_OPTIONS then Some ((False, conf), src1)
         else
           let (entry, src2) = deserialise_entry (unat p) src1
           in if src_err src2 \<noteq> BSE_NO_ERROR then Some ((False, conf), src2)
              else (case conf_insert conf entry of
                      None \<Rightarrow> None
                    | Some conf \<Rightarrow> conf_deserialise conf src2))"
  by pat_completeness auto
termination
proof (relation "measure (\<lambda>(conf, src). src_len src - src_pos src)", goal_cases)
  case (2 conf src x p src1 y entry src2 conf')
  then have 1: "BinarySource_get_uint32 src = (p, src1)" "src_err src1 = BSE_NO_ERROR"
    and 2: "deserialise_entry (unat p) src1 = (entry, src2)" by simp_all
  note s = get_uint32_ok [OF 1]
  have "src_step_ok src1 src2" using deserialise_entry_step [of src1 "unat p"] s by (simp add: 2)
  with s show ?case by (auto simp: src_step_ok_def src_inv_def)
qed simp

declare conf_deserialise.simps [simp del]

text \<open>An entry as a sequence of marshalled fields.\<close>

definition key_fields :: "ckey \<Rightarrow> field list" where
  "key_fields k =
     (case subkeytypes (primary k) of TYPE_INT \<Rightarrow> [F_uint32 (sec_i k)] | TYPE_STR \<Rightarrow> [F_asciz (sec_s k)] | _ \<Rightarrow> [])"

fun value_fields :: "cvalue \<Rightarrow> field list" where
  "value_fields (BoolVal b) = [F_bool b]"
| "value_fields (IntVal i) = [F_uint32 i]"
| "value_fields (StrVal s) = [F_asciz s]"
| "value_fields (FileVal s) = [F_asciz s]"
| "value_fields (FontVal f) =
     [F_asciz (f_name f), F_uint32 (if f_isbold f then 1 else 0), F_uint32 (f_height f), F_uint32 (f_charset f)]"
| "value_fields NoVal = []"

definition entry_fields :: "conf_entry \<Rightarrow> field list" where
  "entry_fields e = F_uint32 (word_of_nat (primary (e_key e))) # key_fields (e_key e) @ value_fields (e_value e)"

lemma put_fields_append: "put_fields wr bs (fs @ gs) =
    (case put_fields wr bs fs of None \<Rightarrow> None | Some bs \<Rightarrow> put_fields wr bs gs)"
  by (induction fs arbitrary: bs) (auto split: option.splits)

lemma case_option_id [simp]: "(case x of None \<Rightarrow> None | Some y \<Rightarrow> Some y) = x"
  by (cases x) simp_all

lemma serialise_key_fields:
  "(case subkeytypes (primary k) of
      TYPE_INT \<Rightarrow> BinarySink_put_uint32 wr bs (sec_i k)
    | TYPE_STR \<Rightarrow> BinarySink_put_asciz wr bs (sec_s k)
    | _ \<Rightarrow> Some bs) = put_fields wr bs (key_fields k)"
  by (cases "subkeytypes (primary k)") (simp_all add: key_fields_def split: option.split)

lemma serialise_value_fields:
  assumes "value_ok ty v"
  shows "(case (ty, v) of
      (TYPE_BOOL, BoolVal b) \<Rightarrow> BinarySink_put_bool wr bs b
    | (TYPE_INT, IntVal i) \<Rightarrow> BinarySink_put_uint32 wr bs i
    | (TYPE_STR, StrVal s) \<Rightarrow> BinarySink_put_asciz wr bs s
    | (TYPE_FILENAME, FileVal f) \<Rightarrow> filename_serialise wr bs f
    | (TYPE_FONT, FontVal f) \<Rightarrow> fontspec_serialise wr bs f
    | (TYPE_NONE, _) \<Rightarrow> Some bs
    | _ \<Rightarrow> None) = put_fields wr bs (value_fields v)"
  using assms
  by (cases v; cases ty) (simp_all add: filename_serialise_def fontspec_serialise_def cong: option.case_cong)

lemma serialise_entry_fields:
  assumes "entry_ok e" shows "serialise_entry wr bs e = put_fields wr bs (entry_fields e)"
proof -
  have "value_ok (valuetypes (primary (e_key e))) (e_value e)" using assms by (simp add: entry_ok_def)
  note v = serialise_value_fields [OF this]
  show ?thesis
    unfolding serialise_entry_def serialise_key_fields v entry_fields_def
    by (simp add: put_fields_append split: option.split)
qed

lemma serialise_loop_fields:
  assumes "wf234 c" and "\<forall>e\<in>set (list234 c). entry_ok e" and "n \<le> length (list234 c)"
  shows "serialise_loop wr bs c (int n) = put_fields wr bs (concat (List.map entry_fields (drop n (list234 c))))"
  using assms(3)
proof (induction "length (list234 c) - n" arbitrary: n bs)
  case 0
  then show ?case by (subst serialise_loop.simps) (simp add: index234_list [OF assms(1)] count234_list [OF assms(1)])
next
  case (Suc m)
  then have n: "n < length (list234 c)" by simp
  have "serialise_loop wr bs c (int n) =
      (case serialise_entry wr bs (list234 c ! n) of None \<Rightarrow> None | Some bs \<Rightarrow> serialise_loop wr bs c (int (Suc n)))"
    using n by (subst serialise_loop.simps)
      (simp add: index234_list [OF assms(1)] count234_list [OF assms(1)] add.commute split: option.split)
  also have "serialise_entry wr bs (list234 c ! n) = put_fields wr bs (entry_fields (list234 c ! n))"
    by (rule serialise_entry_fields) (use assms(2) n in simp)
  also have "(case put_fields wr bs (entry_fields (list234 c ! n)) of None \<Rightarrow> None
        | Some bs \<Rightarrow> serialise_loop wr bs c (int (Suc n))) =
      put_fields wr bs (entry_fields (list234 c ! n) @ concat (List.map entry_fields (drop (Suc n) (list234 c))))"
  proof -
    have "serialise_loop wr bs c (int (Suc n)) = put_fields wr bs (concat (List.map entry_fields (drop (Suc n) (list234 c))))" for bs
      by (rule Suc.hyps(1)) (use Suc.hyps(2) n in simp_all)
    then show ?thesis by (simp only: put_fields_append)
  qed
  finally show ?case using n by (simp add: Cons_nth_drop_Suc [symmetric])
qed

definition advance :: "field list \<Rightarrow> BinarySource \<Rightarrow> BinarySource" where
  "advance fs src = src\<lparr>src_pos := src_pos src + length (concat (List.map encode_field fs))\<rparr>"

text \<open>A source at the encoding of some fields reads the first one and is at the encoding of the others.\<close>

definition at_fields :: "field list \<Rightarrow> byte list \<Rightarrow> BinarySource \<Rightarrow> bool" where
  "at_fields fs rest src \<longleftrightarrow> src_inv src \<and> src_err src = BSE_NO_ERROR \<and> list_all field_ok fs \<and>
     here src = concat (List.map encode_field fs) @ rest"

lemma at_fields_Cons:
  assumes "at_fields (f # fs) rest src"
  shows "get_field src (ftype_of f) = (f, advance [f] src) \<and> at_fields fs rest (advance [f] src) \<and>
    advance (f # fs) src = advance fs (advance [f] src)"
proof -
  have a: "src_inv src" "src_err src = BSE_NO_ERROR" "field_ok f" "list_all field_ok fs"
    "here src = encode_field f @ concat (List.map encode_field fs) @ rest"
    using assms by (simp_all add: at_fields_def)
  have "get_field src (ftype_of f) = (f, advance [f] src)"
    using get_field_encode [OF a(1,2,5,3)] by (simp add: advance_def)
  moreover have "here (advance [f] src) = concat (List.map encode_field fs) @ rest"
    using a(5) here_advance [of src "length (encode_field f)"] by (simp add: advance_def)
  moreover have "src_inv (advance [f] src)"
    using a(1,5) here_length [OF a(1)] by (simp add: advance_def src_inv_def)
  ultimately show ?thesis using a by (simp add: at_fields_def advance_def add.assoc)
qed

lemma at_fields_get:
  "at_fields (F_uint32 i # fs) rest src \<Longrightarrow> BinarySource_get_uint32 src = (i, advance [F_uint32 i] src)"
  "at_fields (F_asciz s # fs) rest src \<Longrightarrow> BinarySource_get_asciz src = (s, advance [F_asciz s] src)"
  "at_fields (F_bool b # fs) rest src \<Longrightarrow> BinarySource_get_bool src = (b, advance [F_bool b] src)"
  using at_fields_Cons [of "F_uint32 i" fs rest src] at_fields_Cons [of "F_asciz s" fs rest src]
    at_fields_Cons [of "F_bool b" fs rest src]
  by (auto simp: apfst_def map_prod_def split: prod.splits)

lemma deserialise_entry_fields:
  assumes "entry_ok e" and "at_fields (key_fields (e_key e) @ value_fields (e_value e) @ fs) rest src"
  shows "\<exists>src'. deserialise_entry (primary (e_key e)) src = (\<lparr>e_key = copy_key (e_key e), e_value = e_value e\<rparr>, src') \<and>
    at_fields fs rest src'"
proof -
  let ?p = "primary (e_key e)" and ?vfs = "value_fields (e_value e) @ fs"
  obtain src1 where k: "(case subkeytypes ?p of
      TYPE_INT \<Rightarrow> (case BinarySource_get_uint32 src of (i, src) \<Rightarrow> (int_key ?p (toint i), src))
    | TYPE_STR \<Rightarrow> (case BinarySource_get_asciz src of (s, src) \<Rightarrow> (str_key ?p s, src))
    | _ \<Rightarrow> (plain_key ?p, src)) = (copy_key (e_key e), src1)" "at_fields ?vfs rest src1"
  proof (cases "subkeytypes ?p")
    case TYPE_INT
    then have "at_fields (F_uint32 (sec_i (e_key e)) # ?vfs) rest src" using assms(2) by (simp add: key_fields_def)
    from at_fields_get(1) [OF this] at_fields_Cons [OF this] that TYPE_INT show thesis
      by (simp add: int_key_def copy_key_def)
  next
    case TYPE_STR
    then have "at_fields (F_asciz (sec_s (e_key e)) # ?vfs) rest src" using assms(2) by (simp add: key_fields_def)
    from at_fields_get(2) [OF this] at_fields_Cons [OF this] that TYPE_STR show thesis
      by (simp add: str_key_def copy_key_def)
  qed (use assms(2) that in \<open>simp_all add: key_fields_def plain_key_def copy_key_def\<close>)
  obtain src2 where v: "(case valuetypes ?p of
      TYPE_BOOL \<Rightarrow> (case BinarySource_get_bool src1 of (b, src) \<Rightarrow> (BoolVal b, src))
    | TYPE_INT \<Rightarrow> (case BinarySource_get_uint32 src1 of (i, src) \<Rightarrow> (IntVal (toint i), src))
    | TYPE_STR \<Rightarrow> (case BinarySource_get_asciz src1 of (s, src) \<Rightarrow> (StrVal s, src))
    | TYPE_FILENAME \<Rightarrow> (case filename_deserialise src1 of (f, src) \<Rightarrow> (FileVal f, src))
    | TYPE_FONT \<Rightarrow> (case fontspec_deserialise src1 of (f, src) \<Rightarrow> (FontVal f, src))
    | TYPE_NONE \<Rightarrow> (NoVal, src1)) = (e_value e, src2)" "at_fields fs rest src2"
  proof -
    have ok: "value_ok (valuetypes ?p) (e_value e)" using assms(1) by (simp add: entry_ok_def)
    show thesis
    proof (cases "e_value e")
      case (BoolVal b)
      with ok have "valuetypes ?p = TYPE_BOOL" by (cases "valuetypes ?p") simp_all
      with BoolVal k(2) at_fields_get(3) [of b fs rest src1] at_fields_Cons [of "F_bool b" fs rest src1] that
      show thesis by simp
    next
      case (IntVal i)
      with ok have "valuetypes ?p = TYPE_INT" by (cases "valuetypes ?p") simp_all
      with IntVal k(2) at_fields_get(1) [of i fs rest src1] at_fields_Cons [of "F_uint32 i" fs rest src1] that
      show thesis by simp
    next
      case (StrVal s)
      with ok have "valuetypes ?p = TYPE_STR" by (cases "valuetypes ?p") simp_all
      with StrVal k(2) at_fields_get(2) [of s fs rest src1] at_fields_Cons [of "F_asciz s" fs rest src1] that
      show thesis by simp
    next
      case (FileVal s)
      with ok have "valuetypes ?p = TYPE_FILENAME" by (cases "valuetypes ?p") simp_all
      with FileVal k(2) at_fields_get(2) [of s fs rest src1] at_fields_Cons [of "F_asciz s" fs rest src1] that
      show thesis by (simp add: filename_deserialise_def)
    next
      case (FontVal f)
      with ok have t: "valuetypes ?p = TYPE_FONT" by (cases "valuetypes ?p") simp_all
      let ?b = "if f_isbold f then 1 else 0 :: u32"
      have a: "at_fields (F_asciz (f_name f) # F_uint32 ?b # F_uint32 (f_height f) # F_uint32 (f_charset f) # fs) rest src1"
        using k(2) by (simp add: FontVal)
      define s1 where "s1 = advance [F_asciz (f_name f)] src1"
      define s2 where "s2 = advance [F_uint32 ?b] s1"
      define s3 where "s3 = advance [F_uint32 (f_height f)] s2"
      have b: "at_fields (F_uint32 ?b # F_uint32 (f_height f) # F_uint32 (f_charset f) # fs) rest s1"
        using at_fields_Cons [OF a] by (simp add: s1_def)
      have c: "at_fields (F_uint32 (f_height f) # F_uint32 (f_charset f) # fs) rest s2"
        using at_fields_Cons [OF b] by (simp add: s2_def)
      have d: "at_fields (F_uint32 (f_charset f) # fs) rest s3"
        using at_fields_Cons [OF c] by (simp add: s3_def)
      have "fontspec_deserialise src1 = (f, advance [F_uint32 (f_charset f)] s3)"
        unfolding fontspec_deserialise_def
        by (simp add: at_fields_get(2) [OF a] at_fields_get(1) [OF b, folded s2_def] at_fields_get(1) [OF c]
            at_fields_get(1) [OF d] flip: s1_def s2_def s3_def)
      with t FontVal at_fields_Cons [OF d] that show thesis by simp
    next
      case NoVal
      with ok show thesis by (cases "valuetypes ?p") simp_all
    qed
  qed
  show ?thesis using v(2) unfolding deserialise_entry_def Let_def k(1) prod.case v(1) by simp
qed

lemma conf_cmp_copy_key [simp]: "conf_cmp k (copy_key a) = conf_cmp k a" "primary (copy_key a) = primary a"
  "okkey (copy_key a) = okkey a"
  by (cases "subkeytypes (primary a)"; simp add: conf_cmp_def copy_key_def okkey_def)+

definition value_at :: "conf \<Rightarrow> ckey \<Rightarrow> cvalue option" where
  "value_at c k = map_option e_value (conf.lookup c k)"

definition matching :: "conf_entry list \<Rightarrow> ckey \<Rightarrow> cvalue option" where
  "matching es k = map_option e_value (List.find (\<lambda>x. conf_cmp k (e_key x) = 0) es)"

lemma value_at_matching: "value_at c k = matching (list234 c) k"
  by (simp add: value_at_def matching_def conf.lookup_def)

lemma matching_append: "matching (xs @ ys) k = (case matching xs k of None \<Rightarrow> matching ys k | Some v \<Rightarrow> Some v)"
  by (induction xs) (auto simp: matching_def)

lemma find_rev_mem:
  assumes "List.find P (rev xs) = Some x"
  shows "x \<in> set xs" and "P x"
proof -
  from assms obtain i where "i < length (rev xs)" "x = rev xs ! i" "P x" by (metis find_Some_iff)
  then show "x \<in> set xs" "P x" by (metis nth_mem set_rev)+
qed

lemma matching_rev:
  assumes "conf.ordered es" and "okkey k"
  shows "matching (rev es) k = matching es k"
proof (cases "List.find (\<lambda>x. conf_cmp k (e_key x) = 0) (rev es)")
  case None
  then have "List.find (\<lambda>x. conf_cmp k (e_key x) = 0) es = None" by (simp add: find_None_iff)
  with None show ?thesis by (simp add: matching_def)
next
  case (Some x)
  note m = find_rev_mem [OF Some]
  have "List.find (\<lambda>y. conf_cmp k (e_key y) = 0) es = Some x"
    by (rule conf.ordered_unique [OF assms(1) m(1) assms(2) m(2)])
  with Some show ?thesis by (simp add: matching_def)
qed

lemma find_value_at: "conf_wf c \<Longrightarrow> okkey k \<Longrightarrow> find_value c k rd = Option.bind (value_at c k) rd"
  by (cases "conf.lookup c k") (simp_all add: find_value_lookup value_at_def)

lemma deserialise_all:
  assumes "conf_wf c0" and "\<forall>e\<in>set es. entry_ok e"
    and "at_fields (concat (List.map entry_fields es) @ [F_uint32 0xFFFFFFFF]) tail src"
  shows "\<exists>c' src'. conf_deserialise c0 src = Some ((True, c'), src') \<and> conf_wf c' \<and> at_fields [] tail src' \<and>
    (\<forall>k. okkey k \<longrightarrow> value_at c' k = (case matching (rev es) k of None \<Rightarrow> value_at c0 k | Some v \<Rightarrow> Some v))"
  using assms
proof (induction es arbitrary: c0 src)
  case Nil
  from Nil.prems(3) have a: "at_fields (F_uint32 0xFFFFFFFF # []) tail src" by simp
  then have "src_err (advance [F_uint32 0xFFFFFFFF] src) = BSE_NO_ERROR"
    using at_fields_Cons [OF a] by (simp add: at_fields_def)
  then have "conf_deserialise c0 src = Some ((True, c0), advance [F_uint32 0xFFFFFFFF] src)"
    by (subst conf_deserialise.simps) (simp add: at_fields_get(1) [OF a])
  then show ?case using Nil.prems(1) at_fields_Cons [OF a] by (auto simp: matching_def)
next
  case (Cons e es)
  let ?p = "primary (e_key e)" and ?tl = "concat (List.map entry_fields es) @ [F_uint32 0xFFFFFFFF]"
  let ?e = "\<lparr>e_key = copy_key (e_key e), e_value = e_value e\<rparr>"
  have ok: "entry_ok e" using Cons.prems(2) by simp
  then have p: "?p < N_CONFIG_OPTIONS" "okkey (e_key e)" by (simp_all add: entry_ok_def)
  then have up: "unat (word_of_nat ?p :: u32) = ?p" by (intro unat_of_nat_u32) (simp add: N_CONFIG_OPTIONS)
  then have ne: "(word_of_nat ?p :: u32) \<noteq> 0xFFFFFFFF" using p by (auto simp: N_CONFIG_OPTIONS)
  have ok': "entry_ok ?e" using ok by (simp add: entry_ok_def)
  have a: "at_fields (F_uint32 (word_of_nat ?p) # key_fields (e_key e) @ value_fields (e_value e) @ ?tl) tail src"
    using Cons.prems(3) by (simp add: entry_fields_def [of e])
  define s1 where "s1 = advance [F_uint32 (word_of_nat ?p)] src"
  from at_fields_Cons [OF a] have s1: "at_fields (key_fields (e_key e) @ value_fields (e_value e) @ ?tl) tail s1"
    by (simp add: s1_def)
  from deserialise_entry_fields [OF ok s1] obtain s2 where s2: "deserialise_entry ?p s1 = (?e, s2)" "at_fields ?tl tail s2"
    by blast
  from conf_insert_ok [OF Cons.prems(1) ok'] obtain c1 where c1: "conf_insert c0 ?e = Some c1" "conf_wf c1"
    "\<forall>k. okkey k \<longrightarrow> conf.lookup c1 k = (if conf_cmp k (e_key e) = 0 then Some ?e else conf.lookup c0 k)" by auto
  from Cons.IH [OF c1(2) _ s2(2)] Cons.prems(2) obtain c' src' where c': "conf_deserialise c1 s2 = Some ((True, c'), src')"
    "conf_wf c'" "at_fields [] tail src'"
    "\<forall>k. okkey k \<longrightarrow> value_at c' k = (case matching (rev es) k of None \<Rightarrow> value_at c1 k | Some v \<Rightarrow> Some v)" by auto
  have err: "src_err s1 = BSE_NO_ERROR" "src_err s2 = BSE_NO_ERROR" using s1 s2(2) by (simp_all add: at_fields_def)
  have "conf_deserialise c0 src = Some ((True, c'), src')"
    by (subst conf_deserialise.simps)
      (use p(1) in \<open>simp add: at_fields_get(1) [OF a] err ne up s2(1) c1(1) c'(1) flip: s1_def\<close>)
  moreover have "value_at c' k = (case matching (rev (e # es)) k of None \<Rightarrow> value_at c0 k | Some v \<Rightarrow> Some v)"
    if "okkey k" for k
  proof -
    have "value_at c1 k = (case matching [e] k of None \<Rightarrow> value_at c0 k | Some v \<Rightarrow> Some v)"
      using c1(3) that by (simp add: value_at_def matching_def)
    then show ?thesis using c'(4) that by (simp add: matching_append split: option.split)
  qed
  ultimately show ?case using c'(2,3) by blast
qed

text \<open>C26: a configuration survives serialisation. Writing a well-formed store to a string buffer and
  reading it back into a new store succeeds, whatever follows the data, and leaves the reader just
  after it; the result is well formed and every setting, with or without a subkey, reads as in the
  original.\<close>

theorem conf_serialise_roundtrip:
  assumes "conf_wf c" and "strbuf_inv sb" and "conf_serialise (strbuf_BinarySink_write malloc_ok) sb c = Some sb'"
  shows "\<exists>d. sb_bytes sb' = sb_bytes sb @ d \<and>
    (\<exists>c' src'. conf_deserialise conf_new (BinarySource_INIT (d @ tail)) = Some ((True, c'), src') \<and> conf_wf c' \<and>
      src_err src' = BSE_NO_ERROR \<and> here src' = tail \<and>
      (\<forall>k. okkey k \<longrightarrow> value_at c' k = value_at c k))"
proof -
  have k: "conf.keyed c" "\<forall>e\<in>set (list234 c). entry_ok e" using assms(1) by (simp_all add: conf_wf_def)
  let ?fs = "concat (List.map entry_fields (list234 c)) @ [F_uint32 0xFFFFFFFF]"
  have "put_fields (strbuf_BinarySink_write malloc_ok) sb ?fs = Some sb'"
  proof (cases "serialise_loop (strbuf_BinarySink_write malloc_ok) sb c 0")
    case None
    with assms(3) show ?thesis by (simp add: conf_serialise_def)
  next
    case (Some s1)
    then have "put_fields (strbuf_BinarySink_write malloc_ok) sb (concat (List.map entry_fields (list234 c))) = Some s1"
      using serialise_loop_fields [OF keyed_facts(1) [OF k(1)] k(2), of 0 "strbuf_BinarySink_write malloc_ok" sb] by simp
    with Some assms(3) show ?thesis by (simp add: conf_serialise_def put_fields_append split: option.split)
  qed
  moreover have ok: "list_all field_ok ?fs"
  proof -
    have "field_ok f" if "e \<in> set (list234 c)" "f \<in> set (entry_fields e)" for e f
    proof -
      have "entry_ok e" using k(2) that(1) by blast
      then have "value_ok (valuetypes (primary (e_key e))) (e_value e)" "okkey (e_key e)" by (simp_all add: entry_ok_def)
      with that(2) show ?thesis
        by (cases "e_value e"; cases "valuetypes (primary (e_key e))"; cases "subkeytypes (primary (e_key e))")
          (auto simp: entry_fields_def key_fields_def okkey_def)
    qed
    then show ?thesis by (auto simp: list_all_iff)
  qed
  ultimately have b: "sb_bytes sb' = sb_bytes sb @ concat (List.map encode_field ?fs)"
    using sb_sink.put_fields_law [OF assms(2)] by blast
  let ?d = "concat (List.map encode_field ?fs)"
  have at: "at_fields ?fs tail (BinarySource_INIT (?d @ tail))"
    using ok by (simp add: at_fields_def src_inv_INIT)
  from deserialise_all [OF conjunct1 [OF conf_new_wf] k(2) at] obtain c' src' where
    "conf_deserialise conf_new (BinarySource_INIT (?d @ tail)) = Some ((True, c'), src')" "conf_wf c'" "at_fields [] tail src'"
    "\<forall>k. okkey k \<longrightarrow> value_at c' k = (case matching (rev (list234 c)) k of None \<Rightarrow> value_at conf_new k | Some v \<Rightarrow> Some v)"
    by blast
  moreover have "value_at conf_new k = None" for k using conf_new_wf by (simp add: value_at_matching matching_def)
  moreover have "matching (rev (list234 c)) k = value_at c k" if "okkey k" for k
    using matching_rev [OF keyed_facts(3) [OF k(1)] that] by (simp add: value_at_matching)
  ultimately show ?thesis using b by (auto simp: at_fields_def split: option.splits)
qed


definition example_store :: conf where
  "example_store = \<lparr>root = Node [Null, Null] [0, 0] [\<lparr>e_key = plain_key 0, e_value = StrVal [104]\<rparr>],
     cmp = Some entry_cmp\<rparr>"

lemma example_store: "conf_wf example_store" "list234 example_store = [\<lparr>e_key = plain_key 0, e_value = StrVal [104]\<rparr>]"
proof -
  let ?e = "\<lparr>e_key = plain_key 0, e_value = StrVal [104]\<rparr>"
  have ok: "entry_ok ?e"
    using host_types by (simp add: entry_ok_def plain_key_def okkey_def N_CONFIG_OPTIONS cstring_def)
  have "conf_insert conf_new ?e = Some example_store"
    by (simp add: conf_insert_def conf_new_def newtree234_def add234_def add234_internal_def example_store_def
        added_def count234_def)
  with conf_insert_ok [OF conjunct1 [OF conf_new_wf] ok] show "conf_wf example_store" by simp
  show "list234 example_store = [?e]" by (simp add: example_store_def list234_def)
qed

theorem conf_serialise_roundtrip_witness:
  "\<exists>d c' src'. conf_serialise (strbuf_BinarySink_write (\<lambda>_. True)) \<lparr>sb_size = 512, sb_nm = False, sb_bytes = []\<rparr> example_store
      = Some \<lparr>sb_size = 512, sb_nm = False, sb_bytes = d\<rparr> \<and>
    conf_deserialise conf_new (BinarySource_INIT (d @ [7])) = Some ((True, c'), src') \<and> here src' = [7] \<and>
    value_at c' (plain_key 0) = Some (StrVal [104])"
proof -
  define d :: "byte list" where "d = [0, 0, 0, 0, 104, 0, 255, 255, 255, 255]"
  have i: "index234 example_store 0 = Some \<lparr>e_key = plain_key 0, e_value = StrVal [104]\<rparr>" "index234 example_store 1 = None"
    by (simp_all add: example_store_def index234_def locate_def)
  have s: "conf_serialise (strbuf_BinarySink_write (\<lambda>_. True)) \<lparr>sb_size = 512, sb_nm = False, sb_bytes = []\<rparr> example_store
      = Some \<lparr>sb_size = 512, sb_nm = False, sb_bytes = d\<rparr>"
    by (simp add: conf_serialise_def serialise_loop.simps [of _ _ _ 0] serialise_loop.simps [of _ _ _ 1] i
        serialise_entry_def host_types plain_key_def d_def strbuf_BinarySink_write_def safegrowarray_def
        SIZE_MAX_def sb_len_def BinarySink_put_uint32_def BinarySink_put_asciz_def PUT_32BIT_MSB_FIRST_def)
  have inv: "strbuf_inv \<lparr>sb_size = 512, sb_nm = False, sb_bytes = []\<rparr>"
    by (simp add: strbuf_inv_def sb_len_def SIZE_MAX_def)
  have "value_at example_store (plain_key 0) = Some (StrVal [104])"
    by (simp add: value_at_matching matching_def example_store(2) plain_key_def conf_cmp_def host_types)
  moreover have "okkey (plain_key 0)" by (simp add: okkey_def plain_key_def cstring_def)
  ultimately show ?thesis
    using conf_serialise_roundtrip [OF example_store(1) inv s, of "[7]"] s by auto
qed

subsection \<open>Copying a store\<close>

lemma remove_nth_0: "remove_nth 0 xs = tl xs"
  by (cases xs) (simp_all add: remove_nth_def)

lemma conf_clear_empties:
  "wf234 c \<Longrightarrow> \<exists>c'. conf_clear c = Some c' \<and> wf234 c' \<and> cmp c' = cmp c \<and> list234 c' = []"
proof (induction "length (list234 c)" arbitrary: c)
  case 0
  then have "conf_clear c = Some c"
    using count234_list [of c] by (subst conf_clear.simps) (cases "root c"; simp add: delpos234_def count234_def)
  with 0 show ?case by simp
next
  case (Suc n)
  then have "list234 c \<noteq> []" by (metis length_0_conv nat.distinct(1))
  then have "0 < count234 c" using Suc.prems by (simp add: count234_list)
  with delpos234_internal_list [OF Suc.prems, of 0] obtain c1 where c1: "delpos234_internal c 0 = Some (Some (list234 c ! 0), c1)"
    "wf234 c1" "cmp c1 = cmp c" "list234 c1 = tl (list234 c)" by (auto simp: remove_nth_0)
  then have "conf_clear c = conf_clear c1"
    using \<open>0 < count234 c\<close> by (subst conf_clear.simps) (simp add: delpos234_def count234_def split: if_splits)
  then show ?case using Suc.hyps(1) [of c1] Suc.hyps(2) c1 by simp
qed

lemma keyed_empty: "wf234 c \<Longrightarrow> cmp c = Some entry_cmp \<Longrightarrow> list234 c = [] \<Longrightarrow> conf_wf c \<and> (\<forall>k. value_at c k = None)"
  by (simp add: conf_wf_def conf.keyed_def conf.ordered_def conf_cmp_eq value_at_matching matching_def)

lemma copy_value_ok: "value_ok ty v \<Longrightarrow> copy_value v ty = Some v"
  by (cases v; cases ty) (simp_all add: copy_value_def filename_copy_def fontspec_copy_def)

lemma lookup_same:
  assumes "conf.keyed c" and "\<forall>x\<in>set (list234 c). entry_ok x" and "okkey k" and "okkey k'"
    and "conf_cmp k k' = 0" and "conf.lookup c k' = Some x"
  shows "conf.lookup c k = Some x"
proof -
  have x: "x \<in> set (list234 c)" "conf_cmp k' (e_key x) = 0" "okkey (e_key x)"
    using assms(2,6) by (auto simp: conf.lookup_def find_Some_iff entry_ok_def)
  have "conf_cmp k (e_key x) = 0"
    using assms(5) x(2) conf_cmp_eq_0 [OF assms(3,4)] conf_cmp_eq_0 [OF assms(4) x(3)] conf_cmp_eq_0 [OF assms(3) x(3)] by auto
  from conf.ordered_unique [OF keyed_facts(3) [OF assms(1)] x(1) assms(3) this] show ?thesis
    by (simp add: conf.lookup_def)
qed

lemma copy_add:
  assumes "conf_wf new" and "entry_ok e"
  shows "\<exists>r c1. add234 new e = Some (r, c1) \<and> conf_wf c1 \<and> (\<forall>k. okkey k \<longrightarrow>
    value_at c1 k = (case value_at new k of None \<Rightarrow> matching [e] k | Some v \<Rightarrow> Some v))"
proof -
  have k: "conf.keyed new" "okkey (e_key e)" "\<forall>x\<in>set (list234 new). entry_ok x"
    using assms by (simp_all add: conf_wf_def entry_ok_def)
  show ?thesis
  proof (cases "conf.lookup new (e_key e)")
    case None
    have "conf.lookup new k' = None" if "okkey k'" "conf_cmp k' (e_key e) = 0" for k'
    proof (rule ccontr)
      assume "conf.lookup new k' \<noteq> None"
      moreover have "conf_cmp (e_key e) k' = 0" using that conf_cmp_eq_0 [OF that(1) k(2)] conf_cmp_eq_0 [OF k(2) that(1)] by auto
      ultimately show False using lookup_same [OF k(1,3,2) that(1)] None by auto
    qed
    with add_new [OF k(1,2) None] show ?thesis using k(3) assms(2)
      by (fastforce simp: conf_wf_def value_at_def matching_def split: option.splits)
  next
    case (Some x)
    from conf.add_keyed [OF k(1,2)] Some have "add234 new e = Some (Some x, new)" by auto
    moreover have "value_at new k' \<noteq> None" if "okkey k'" "conf_cmp k' (e_key e) = 0" for k'
      using lookup_same [OF k(1,3) that(1) k(2) that(2) Some] by (simp add: value_at_def)
    ultimately show ?thesis using assms(1) by (fastforce simp: matching_def split: option.split)
  qed
qed

text \<open>What a copy that starts at entry \<open>i\<close> adds to the new store: the first entry for a key wins, and the
  keys of a well-formed store differ.\<close>

lemma copy_loop_ok:
  assumes "conf_wf old" and "conf_wf new" and "n \<le> length (list234 old)"
  shows "\<exists>c'. copy_loop new old (int n) = Some c' \<and> conf_wf c' \<and>
    (\<forall>k. okkey k \<longrightarrow> value_at c' k =
      (case value_at new k of None \<Rightarrow> matching (drop n (list234 old)) k | Some v \<Rightarrow> Some v))"
  using assms(2,3)
proof (induction "length (list234 old) - n" arbitrary: n new)
  case 0
  have wf: "wf234 old" using assms(1) by (simp add: conf_wf_def keyed_facts)
  from 0 have "copy_loop new old (int n) = Some new"
    by (subst copy_loop.simps) (simp add: index234_list [OF wf] count234_list [OF wf])
  with 0 show ?case by (simp add: matching_def split: option.split)
next
  case (Suc m)
  have wf: "wf234 old" using assms(1) by (simp add: conf_wf_def keyed_facts)
  from Suc have n: "n < length (list234 old)" by simp
  let ?x = "list234 old ! n"
  let ?e = "\<lparr>e_key = copy_key (e_key ?x), e_value = e_value ?x\<rparr>"
  have "entry_ok ?x" using assms(1) n by (simp add: conf_wf_def)
  then have ok: "entry_ok ?e" "value_ok (valuetypes (primary (e_key ?x))) (e_value ?x)" "okkey (e_key ?x)"
    by (simp_all add: entry_ok_def)
  have k: "conf.keyed new" "\<forall>x\<in>set (list234 new). entry_ok x" using Suc.prems(1) by (simp_all add: conf_wf_def)
  obtain c1 r where c1: "add234 new ?e = Some (r, c1)" "conf_wf c1"
    "\<forall>k. okkey k \<longrightarrow> value_at c1 k =
      (case value_at new k of None \<Rightarrow> matching [?x] k | Some v \<Rightarrow> Some v)"
    using copy_add [OF Suc.prems(1) ok(1)] by (fastforce simp: matching_def split: option.splits)
  have step: "copy_loop new old (int n) = copy_loop c1 old (int (Suc n))"
    using n by (subst copy_loop.simps)
      (simp add: index234_list [OF wf] count234_list [OF wf] copy_value_ok [OF ok(2)] c1(1) add.commute)
  obtain c' where c': "copy_loop c1 old (int (Suc n)) = Some c'" "conf_wf c'"
    "\<forall>k. okkey k \<longrightarrow> value_at c' k =
      (case value_at c1 k of None \<Rightarrow> matching (drop (Suc n) (list234 old)) k | Some v \<Rightarrow> Some v)"
  proof -
    have "m = length (list234 old) - Suc n" "Suc n \<le> length (list234 old)" using Suc.hyps(2) n by simp_all
    from Suc.hyps(1) [OF this(1) c1(2) this(2)] show thesis by (elim exE conjE) (rule that)
  qed
  have split_first: "matching (drop n (list234 old)) k =
      (case matching [?x] k of None \<Rightarrow> matching (drop (Suc n) (list234 old)) k | Some v \<Rightarrow> Some v)" for k
    using matching_append [of "[?x]" "drop (Suc n) (list234 old)" k] Cons_nth_drop_Suc [OF n] by simp
  have "value_at c' k = (case value_at new k of None \<Rightarrow> matching (drop n (list234 old)) k | Some v \<Rightarrow> Some v)"
    if "okkey k" for k
    using c'(3) [rule_format, OF that] c1(3) [rule_format, OF that]
    by (simp add: split_first [of k] split: option.split)
  then show ?case using step c'(1,2) by metis
qed

text \<open>C27: copying a store. \<open>conf_copy_into\<close> always ends, fails no assertion and leaves, whatever the
  destination held before, a well-formed store in which every setting reads as in the original; the
  same goes for \<open>conf_copy\<close>.\<close>

theorem conf_copy_same:
  assumes "conf_wf old" and "conf_wf new"
  shows "\<exists>c c'. conf_copy_into new old = Some c \<and> conf_copy old = Some c' \<and> conf_wf c \<and> conf_wf c' \<and>
    (\<forall>k. okkey k \<longrightarrow> value_at c k = value_at old k \<and> value_at c' k = value_at old k)"
proof -
  have copied: "\<exists>c. conf_copy_into new old = Some c \<and> conf_wf c \<and> (\<forall>k. okkey k \<longrightarrow> value_at c k = value_at old k)"
    if "conf_wf new" for new
  proof -
    have "wf234 new" "cmp new = Some entry_cmp" using that by (simp_all add: conf_wf_def keyed_facts conf_cmp_eq)
    with conf_clear_empties [of new] obtain c0 where "conf_clear new = Some c0" "conf_wf c0" "\<forall>k. value_at c0 k = None"
      using keyed_empty by metis
    then show ?thesis
      using copy_loop_ok [OF assms(1), of c0 0] by (simp add: conf_copy_into_def value_at_matching)
  qed
  from copied [OF assms(2)] copied [OF conjunct1 [OF conf_new_wf]] show ?thesis
    by (auto simp: conf_copy_def)
qed

theorem conf_copy_same_witness:
  "\<exists>c. conf_copy example_store = Some c \<and> value_at c (plain_key 0) = Some (StrVal [104])"
proof -
  have "value_at example_store (plain_key 0) = Some (StrVal [104])"
    by (simp add: value_at_matching matching_def example_store(2) plain_key_def conf_cmp_def host_types)
  moreover have "okkey (plain_key 0)" by (simp add: okkey_def plain_key_def cstring_def)
  ultimately show ?thesis using conf_copy_same [OF example_store(1) example_store(1)] by auto
qed

subsection \<open>Any input\<close>

lemma get_asciz_cstring: "BinarySource_get_asciz src = (s, src') \<Longrightarrow> cstring s"
  by (auto simp: BinarySource_get_asciz_def cstring_def Let_def dest: set_takeWhileD split: if_splits)

lemma fontspec_cstring: "fontspec_deserialise src = (f, src') \<Longrightarrow> cstring (f_name f)"
  by (auto simp: fontspec_deserialise_def Let_def dest: get_asciz_cstring split: prod.splits)

lemma option_typed: "p < N_CONFIG_OPTIONS \<Longrightarrow> valuetypes p \<noteq> TYPE_NONE"
proof -
  assume "p < N_CONFIG_OPTIONS"
  then have "CONFIG_OPTIONS ! p \<in> set CONFIG_OPTIONS" by (simp add: N_CONFIG_OPTIONS_def)
  moreover have "list_all (\<lambda>opt. fst opt \<noteq> TYPE_NONE) CONFIG_OPTIONS"
    by (simp add: CONFIG_OPTIONS_def config_options_1_def config_options_2_def config_options_3_def)
  ultimately show ?thesis using \<open>p < N_CONFIG_OPTIONS\<close> by (auto simp: valuetypes_def list_all_iff N_CONFIG_OPTIONS_def)
qed

lemma deserialise_entry_ok:
  assumes "p < N_CONFIG_OPTIONS" shows "entry_ok (fst (deserialise_entry p src))"
proof -
  obtain k s1 where k: "(case subkeytypes p of
      TYPE_INT \<Rightarrow> (case BinarySource_get_uint32 src of (i, src) \<Rightarrow> (int_key p (toint i), src))
    | TYPE_STR \<Rightarrow> (case BinarySource_get_asciz src of (s, src) \<Rightarrow> (str_key p s, src))
    | _ \<Rightarrow> (plain_key p, src)) = (k, s1)" by fastforce
  have key: "primary k = p \<and> okkey k"
    using k by (auto simp: okkey_def plain_key_def int_key_def str_key_def cstring_def split: ctype.splits prod.splits
      dest: get_asciz_cstring)
  obtain v s2 where v: "(case valuetypes p of
      TYPE_BOOL \<Rightarrow> (case BinarySource_get_bool s1 of (b, src) \<Rightarrow> (BoolVal b, src))
    | TYPE_INT \<Rightarrow> (case BinarySource_get_uint32 s1 of (i, src) \<Rightarrow> (IntVal (toint i), src))
    | TYPE_STR \<Rightarrow> (case BinarySource_get_asciz s1 of (s, src) \<Rightarrow> (StrVal s, src))
    | TYPE_FILENAME \<Rightarrow> (case filename_deserialise s1 of (f, src) \<Rightarrow> (FileVal f, src))
    | TYPE_FONT \<Rightarrow> (case fontspec_deserialise s1 of (f, src) \<Rightarrow> (FontVal f, src))
    | TYPE_NONE \<Rightarrow> (NoVal, s1)) = (v, s2)" by fastforce
  have "value_ok (valuetypes p) v"
    using v option_typed [OF assms] by (auto simp: filename_deserialise_def split: ctype.splits prod.splits
      dest: get_asciz_cstring fontspec_cstring)
  moreover have "fst (deserialise_entry p src) = \<lparr>e_key = k, e_value = v\<rparr>"
    unfolding deserialise_entry_def Let_def k prod.case v by simp
  ultimately show ?thesis using key assms by (simp add: entry_ok_def)
qed

text \<open>C40: Reading a configuration is type safe on any input, not only on what \<open>conf_serialise\<close> wrote.
  Whatever bytes follow, \<open>conf_deserialise\<close> returns (no assertion fails), it stays inside the data, it
  reports success only when no read failed, and the store it leaves is well formed: sorted, every option
  known, every value of the alternative its option's type names, every string a C string. So the settings
  read before an error are usable too.\<close>

theorem conf_deserialise_typed:
  assumes "conf_wf c" and "src_pos src \<le> src_len src"
  shows "\<exists>r c' src'. conf_deserialise c src = Some ((r, c'), src') \<and> conf_wf c' \<and> src_data src' = src_data src \<and>
    src_pos src \<le> src_pos src' \<and> src_pos src' \<le> src_len src \<and> (r \<longrightarrow> src_err src' = BSE_NO_ERROR)"
  using assms
proof (induction c src rule: conf_deserialise.induct)
  case (1 c src)
  obtain p src1 where p: "BinarySource_get_uint32 src = (p, src1)" by fastforce
  have s1: "src_step_ok src src1" using 1(3) p by (intro get_steps_simp(1)) (simp_all add: src_inv_def)
  obtain e src2 where e: "deserialise_entry (unat p) src1 = (e, src2)" by fastforce
  have s2: "src_step_ok src1 src2" using deserialise_entry_step [OF src_step_ok_inv [OF s1], of "unat p"] e by simp
  show ?case
  proof (cases "src_err src1 = BSE_NO_ERROR \<and> p \<noteq> 0xFFFFFFFF \<and> unat p < N_CONFIG_OPTIONS \<and> src_err src2 = BSE_NO_ERROR")
    case True
    have "entry_ok e" using deserialise_entry_ok [of "unat p" src1] True e by simp
    then obtain c1 where c1: "conf_insert c e = Some c1" "conf_wf c1" using conf_insert_ok [OF 1(2)] by blast
    have r: "conf_deserialise c src = conf_deserialise c1 src2"
      by (subst conf_deserialise.simps) (use True in \<open>simp add: p e c1(1)\<close>)
    have "\<exists>r c' src'. conf_deserialise c1 src2 = Some ((r, c'), src') \<and> conf_wf c' \<and> src_data src' = src_data src2 \<and>
        src_pos src2 \<le> src_pos src' \<and> src_pos src' \<le> src_len src2 \<and> (r \<longrightarrow> src_err src' = BSE_NO_ERROR)"
      using True s2 c1 by (intro 1(1) [OF p [symmetric] refl]) (simp_all add: e src_step_ok_def)
    then show ?thesis unfolding r using s1 s2 by (auto simp: src_step_ok_def)
  next
    case False
    then show ?thesis using 1(2) s1 s2 src_step_ok_trans [OF s1 s2]
      by (subst conf_deserialise.simps) (auto simp: p e src_step_ok_def)
  qed
qed

theorem conf_deserialise_typed_witness:
  "\<exists>r c' src'. conf_deserialise conf_new (BinarySource_INIT [0, 0, 0, 0, 104, 105, 0, 0, 0, 1]) = Some ((r, c'), src') \<and> conf_wf c'"
  using conf_deserialise_typed [of conf_new "BinarySource_INIT [0, 0, 0, 0, 104, 105, 0, 0, 0, 1]"] conf_new_wf
  by (auto simp: BinarySource_INIT_def)

end
