(* ===== verification/Ldisc.thy ===== *)
theory Ldisc
  imports Telnet Conf
begin

text \<open>
  The line discipline (\<open>ldisc.c\<close>): local echo and line editing between the keyboard and the backend.
  The backend is a state of any type with its operations; what the line discipline does is the list
  of events \<open>ld_out\<close>, in order. The growing array \<open>buf\<close> with \<open>buflen\<close> is a list. Reading before the
  start of the buffer, or beyond the data passed in, is \<open>None\<close>.
\<close>

subsection \<open>State\<close>

definition FORCE_ON :: u32 where "FORCE_ON = 0"
definition FORCE_OFF :: u32 where "FORCE_OFF = 1"
definition AUTO :: u32 where "AUTO = 2"
definition PROT_RAW :: u32 where "PROT_RAW = 0"
definition PROT_TELNET :: u32 where "PROT_TELNET = 1"

record 'b backend_vt =
  be_send :: "byte list \<Rightarrow> 'b \<Rightarrow> 'b"
  be_special :: "session_special \<Rightarrow> 'b \<Rightarrow> 'b"
  be_option :: "ldisc_option \<Rightarrow> 'b \<Rightarrow> bool"
  be_provide :: "bool \<Rightarrow> 'b \<Rightarrow> 'b"

datatype ldisc_event =
    LStdout "byte list" | LStdoutLocal "byte list" | LSend "byte list" | LSpecial session_special
  | LScript "byte list" int | LNopaste | LEchoEdit bool bool

text \<open>\<open>rutty\<close> is \<open>!GetPuttyFlag() && GetRuttyFlag() > 0\<close>, and \<open>ld_term\<close> and \<open>ld_utf\<close> say whether there is a
  terminal and whether it is in UTF-8 mode.\<close>

record 'b ld =
  ld_term :: bool
  ld_utf :: bool
  rutty :: bool
  backend :: 'b
  vt :: "'b backend_vt"
  telnet_keyboard :: bool
  telnet_newline :: bool
  protocol :: u32
  localecho :: u32
  localedit :: u32
  buf :: "byte list"
  quotenext :: bool
  ld_out :: "ldisc_event list"

definition ECHOING :: "'b ld \<Rightarrow> bool" where
  "ECHOING l \<longleftrightarrow> localecho l = FORCE_ON \<or> (localecho l = AUTO \<and> be_option (vt l) LD_ECHO (backend l))"

definition EDITING :: "'b ld \<Rightarrow> bool" where
  "EDITING l \<longleftrightarrow> localedit l = FORCE_ON \<or> (localedit l = AUTO \<and> be_option (vt l) LD_EDIT (backend l))"

definition ld_emit :: "ldisc_event \<Rightarrow> 'b ld \<Rightarrow> 'b ld" where
  "ld_emit e l = l\<lparr>ld_out := ld_out l @ [e]\<rparr>"

definition ld_write :: "byte list \<Rightarrow> 'b ld \<Rightarrow> 'b ld" where
  "ld_write data l = ld_emit (if rutty l then LStdoutLocal data else LStdout data) l"

definition backend_send :: "byte list \<Rightarrow> 'b ld \<Rightarrow> 'b ld" where
  "backend_send data l = (ld_emit (LSend data) l)\<lparr>backend := be_send (vt l) data (backend l)\<rparr>"

definition backend_special :: "session_special \<Rightarrow> 'b ld \<Rightarrow> 'b ld" where
  "backend_special code l = (ld_emit (LSpecial code) l)\<lparr>backend := be_special (vt l) code (backend l)\<rparr>"

subsection \<open>Characters on the screen\<close>

definition plen :: "bool \<Rightarrow> byte \<Rightarrow> nat" where
  "plen utf c =
     (if (c \<ge> 32 \<and> c \<le> 126) \<or> (c \<ge> 160 \<and> \<not> utf) then 1
      else if c < 128 then 2
      else if utf \<and> c \<ge> 0xC0 then 1
      else if utf \<and> c \<ge> 0x80 \<and> c < 0xC0 then 0
      else 4)"

definition hex_digit :: "byte \<Rightarrow> byte" where
  "hex_digit d = (if d < 10 then 48 + d else 55 + d)"

definition pwrite_text :: "bool \<Rightarrow> byte \<Rightarrow> byte list" where
  "pwrite_text utf c =
     (if (c \<ge> 32 \<and> c \<le> 126) \<or> (\<not> utf \<and> c \<ge> 0xA0) \<or> (utf \<and> c \<ge> 0x80) then [c]
      else if c < 128 then [94, if c = 127 then 63 else c + 0x40]
      else [60, hex_digit (drop_bit 4 c), hex_digit (c AND 15), 62])"

definition pwrite :: "byte \<Rightarrow> 'b ld \<Rightarrow> 'b ld" where
  "pwrite c l = ld_write (pwrite_text (ld_utf l) c) l"

definition char_start :: "bool \<Rightarrow> byte \<Rightarrow> bool" where
  "char_start utf c \<longleftrightarrow> (if utf then c < 0x80 \<or> c \<ge> 0xC0 else True)"

fun bsb :: "nat \<Rightarrow> 'b ld \<Rightarrow> 'b ld" where
  "bsb 0 l = l"
| "bsb (Suc n) l = bsb n (ld_write [8, 32, 8] l)"

definition isspace :: "byte \<Rightarrow> bool" where
  "isspace c \<longleftrightarrow> c = 32 \<or> (c \<ge> 9 \<and> c \<le> 13)"

subsection \<open>Editing the line\<close>

text \<open>Reading \<open>buf[buflen-1]\<close>, which is outside the buffer when the line is empty.\<close>

definition last_byte :: "'b ld \<Rightarrow> byte option" where
  "last_byte l = (if buf l = [] then None else Some (last (buf l)))"

text \<open>Rub out the last byte of the buffer: \<open>bsb\<close> when echoing, then \<open>buflen--\<close>. The result has the byte
  with it, which is \<open>buf[buflen]\<close> now.\<close>

definition rubbed :: "byte \<Rightarrow> 'b ld \<Rightarrow> 'b ld" where
  "rubbed c l =
     (let l1 = (if ECHOING l then bsb (plen (ld_utf l) c) l else l)
      in l1\<lparr>buf := butlast (buf l1)\<rparr>)"

definition erase_last :: "'b ld \<Rightarrow> (byte \<times> 'b ld) option" where
  "erase_last l = (case last_byte l of None \<Rightarrow> None | Some c \<Rightarrow> Some (c, rubbed c l))"

lemma ld_emit_simps [simp]:
  "buf (ld_emit e l) = buf l" "backend (ld_emit e l) = backend l" "vt (ld_emit e l) = vt l"
  "ld_utf (ld_emit e l) = ld_utf l" "rutty (ld_emit e l) = rutty l" "quotenext (ld_emit e l) = quotenext l"
  "telnet_keyboard (ld_emit e l) = telnet_keyboard l" "telnet_newline (ld_emit e l) = telnet_newline l"
  "protocol (ld_emit e l) = protocol l" "localecho (ld_emit e l) = localecho l"
  "localedit (ld_emit e l) = localedit l" "ld_out (ld_emit e l) = ld_out l @ [e]" "ld_term (ld_emit e l) = ld_term l"
  by (simp_all add: ld_emit_def)

lemma ld_write_simps [simp]:
  "buf (ld_write e l) = buf l" "backend (ld_write e l) = backend l" "vt (ld_write e l) = vt l"
  "ld_utf (ld_write e l) = ld_utf l" "rutty (ld_write e l) = rutty l" "quotenext (ld_write e l) = quotenext l"
  "telnet_keyboard (ld_write e l) = telnet_keyboard l" "telnet_newline (ld_write e l) = telnet_newline l"
  "protocol (ld_write e l) = protocol l" "localecho (ld_write e l) = localecho l"
  "localedit (ld_write e l) = localedit l" "ld_term (ld_write e l) = ld_term l"
  by (simp_all add: ld_write_def)

lemma bsb_simps [simp]:
  "buf (bsb n l) = buf l" "backend (bsb n l) = backend l" "vt (bsb n l) = vt l"
  "ld_utf (bsb n l) = ld_utf l" "rutty (bsb n l) = rutty l" "quotenext (bsb n l) = quotenext l"
  "telnet_keyboard (bsb n l) = telnet_keyboard l" "telnet_newline (bsb n l) = telnet_newline l"
  "protocol (bsb n l) = protocol l" "localecho (bsb n l) = localecho l"
  "localedit (bsb n l) = localedit l" "ld_term (bsb n l) = ld_term l"
  by (induction n arbitrary: l) simp_all

lemma rubbed_buf [simp]: "buf (rubbed c l) = butlast (buf l)"
  by (simp add: rubbed_def Let_def)

lemma erase_last_Some: "erase_last l = Some (c, l1) \<longleftrightarrow> buf l \<noteq> [] \<and> c = last (buf l) \<and> l1 = rubbed c l"
  by (auto simp: erase_last_def last_byte_def)

lemma erase_last_simps [simp]: "buf l = [] \<Longrightarrow> erase_last l = None"
  "buf l \<noteq> [] \<Longrightarrow> erase_last l = Some (last (buf l), rubbed (last (buf l)) l)"
  by (simp_all add: erase_last_def last_byte_def)

text \<open>Backspace: at least one byte, back to the start of a character. The test after the decrement reads
  the byte just removed; another round with an empty buffer would read \<open>buf[-1]\<close>.\<close>

function backspace_loop :: "'b ld \<Rightarrow> 'b ld option" where
  "backspace_loop l =
     (case erase_last l of
        None \<Rightarrow> None
      | Some (c, l1) \<Rightarrow> if char_start (ld_utf l1) c then Some l1 else backspace_loop l1)"
  by pat_completeness auto
termination
  by (relation "measure (\<lambda>l. length (buf l))") (auto simp: erase_last_Some)

text \<open>Delete a word: the test for its start reads the byte before the one just removed.\<close>

function kill_word :: "'b ld \<Rightarrow> 'b ld option" where
  "kill_word l =
     (if buf l = [] then Some l
      else
        (case erase_last l of
           None \<Rightarrow> None
         | Some (c, l1) \<Rightarrow>
             if buf l1 \<noteq> []
             then (case last_byte l1 of
                     None \<Rightarrow> None
                   | Some d \<Rightarrow> if isspace d \<and> \<not> isspace c then Some l1 else kill_word l1)
             else kill_word l1))"
  by pat_completeness auto
termination
  by (relation "measure (\<lambda>l. length (buf l))") (auto simp: erase_last_Some)

function kill_line :: "'b ld \<Rightarrow> 'b ld option" where
  "kill_line l =
     (if buf l = [] then Some l
      else (case erase_last l of None \<Rightarrow> None | Some (c, l1) \<Rightarrow> kill_line l1))"
  by pat_completeness auto
termination
  by (relation "measure (\<lambda>l. length (buf l))") (auto simp: erase_last_Some)

declare backspace_loop.simps [simp del] kill_word.simps [simp del] kill_line.simps [simp del]

fun pwrite_all :: "byte list \<Rightarrow> 'b ld \<Rightarrow> 'b ld" where
  "pwrite_all [] l = l"
| "pwrite_all (c # cs) l = pwrite_all cs (pwrite c l)"

text \<open>The default case: append the byte to the line.\<close>

definition insert_char :: "byte \<Rightarrow> 'b ld \<Rightarrow> 'b ld" where
  "insert_char c l =
     (let l1 = l\<lparr>buf := buf l @ [c]\<rparr>; l2 = (if ECHOING l1 then pwrite c l1 else l1)
      in l2\<lparr>quotenext := False\<rparr>)"

text \<open>\<open>case KCTRL('M')\<close>: send the line and its end.\<close>

definition send_line :: "'b ld \<Rightarrow> 'b ld" where
  "send_line l =
     (let l1 = (if buf l \<noteq> [] then backend_send (buf l) l else l);
          l2 = (if protocol l1 = PROT_RAW then backend_send [13, 10] l1
                else if protocol l1 = PROT_TELNET \<and> telnet_newline l1 then backend_special SS_EOL l1
                else backend_send [13] l1);
          l3 = (if ECHOING l2 then ld_write [13, 10] l2 else l2)
      in l3\<lparr>buf := []\<rparr>)"

definition CTRL :: "nat \<Rightarrow> nat" where "CTRL x = x XOR 64"
definition KCTRL :: "nat \<Rightarrow> nat" where "KCTRL x = (x XOR 64) OR 256"

text \<open>\<open>case KCTRL('H')\<close>, and the test of \<open>case CTRL('J')\<close>.\<close>

definition backspace :: "'b ld \<Rightarrow> 'b ld option" where
  "backspace l = (if buf l \<noteq> [] then backspace_loop l else Some l)"

definition ends_with_cr :: "'b ld \<Rightarrow> bool option" where
  "ends_with_cr l =
     (if protocol l = PROT_RAW \<and> buf l \<noteq> []
      then (case last_byte l of None \<Rightarrow> None | Some c \<Rightarrow> Some (c = 13))
      else Some False)"

text \<open>One round of the editing loop: the code \<open>c\<close> of the byte \<open>b\<close>, and the \<open>switch\<close>.\<close>

definition key_code :: "bool \<Rightarrow> nat \<Rightarrow> byte \<Rightarrow> nat" where
  "key_code interactive keyflag b =
     (let c = unat b + keyflag in if \<not> interactive \<and> c = 13 then c + KCTRL 64 else c)"

definition edit_code :: "nat \<Rightarrow> 'b ld \<Rightarrow> 'b ld option" where
  "edit_code c l =
     (let sw = (if quotenext l then 32 else c)
      in if sw = KCTRL 72 \<or> sw = KCTRL 63 then backspace l
         else if sw = CTRL 87 then kill_word l
         else if sw = CTRL 85 \<or> sw = CTRL 67 \<or> sw = CTRL 92 \<or> sw = CTRL 90 then
           (case kill_line l of
              None \<Rightarrow> None
            | Some l0 \<Rightarrow>
                let l1 = backend_special SS_EL l0
                in if \<not> telnet_keyboard l1 then Some (insert_char (word_of_nat c) l1)
                   else if c = CTRL 67 then Some (backend_special SS_IP l1)
                   else if c = CTRL 90 then Some (backend_special SS_SUSP l1)
                   else if c = CTRL 92 then Some (backend_special SS_ABORT l1)
                   else Some l1)
         else if sw = CTRL 82 then
           Some (if ECHOING l then pwrite_all (buf l) (ld_write [94, 82, 13, 10] l) else l)
         else if sw = CTRL 86 then Some (l\<lparr>quotenext := True\<rparr>)
         else if sw = CTRL 68 then
           Some (if buf l = [] then backend_special SS_EOF l else (backend_send (buf l) l)\<lparr>buf := []\<rparr>)
         else if sw = CTRL 74 then
           (case ends_with_cr l of
              None \<Rightarrow> None
            | Some cr \<Rightarrow>
                if cr then (case erase_last l of None \<Rightarrow> None | Some (d, l1) \<Rightarrow> Some (send_line l1))
                else Some (insert_char (word_of_nat c) l))
         else if sw = KCTRL 77 then Some (send_line l)
         else Some (insert_char (word_of_nat c) l))"

definition edit_byte :: "bool \<Rightarrow> nat \<Rightarrow> byte \<Rightarrow> 'b ld \<Rightarrow> 'b ld option" where
  "edit_byte interactive keyflag b l = edit_code (key_code interactive keyflag b) l"

fun edit_loop :: "bool \<Rightarrow> nat \<Rightarrow> byte list \<Rightarrow> 'b ld \<Rightarrow> 'b ld option" where
  "edit_loop interactive keyflag [] l = Some l"
| "edit_loop interactive keyflag (b # bs) l =
     (case edit_byte interactive keyflag b l of
        None \<Rightarrow> None
      | Some l1 \<Rightarrow> edit_loop interactive keyflag bs l1)"

subsection \<open>Sending without editing\<close>

text \<open>What is left of a line when editing is switched off: the whole line is sent, then rubbed out.\<close>

function rub_out :: "'b ld \<Rightarrow> 'b ld option" where
  "rub_out l =
     (if buf l = [] then Some l
      else
        (case last_byte l of
           None \<Rightarrow> None
         | Some c \<Rightarrow> rub_out ((bsb (plen (ld_utf l) c) l)\<lparr>buf := butlast (buf l)\<rparr>)))"
  by pat_completeness auto
termination
  by (relation "measure (\<lambda>l. length (buf l))") auto

declare rub_out.simps [simp del]

definition send_key :: "byte list \<Rightarrow> 'b ld \<Rightarrow> 'b ld" where
  "send_key data l =
     (let c = unat (hd data)
      in if c = CTRL 77 then
           (if protocol l = PROT_TELNET \<and> telnet_newline l then backend_special SS_EOL l
            else backend_send [13] l)
         else if (c = CTRL 63 \<or> c = CTRL 72) \<and> telnet_keyboard l then backend_special SS_EC l
         else if (c = CTRL 63 \<or> c = CTRL 72 \<or> c = CTRL 67) \<and> telnet_keyboard l then backend_special SS_IP l
         else if (c = CTRL 63 \<or> c = CTRL 72 \<or> c = CTRL 67 \<or> c = CTRL 90) \<and> telnet_keyboard l
              then backend_special SS_SUSP l
         else backend_send data l)"

definition send_raw :: "nat \<Rightarrow> byte list \<Rightarrow> 'b ld \<Rightarrow> 'b ld option" where
  "send_raw keyflag data l =
     (case (if buf l \<noteq> [] then rub_out (backend_send (buf l) l) else Some l) of
        None \<Rightarrow> None
      | Some l1 \<Rightarrow>
          if data = [] then Some l1
          else
            let l2 = (if ECHOING l1 then ld_write data l1 else l1)
            in Some (if keyflag \<noteq> 0 \<and> protocol l2 = PROT_TELNET \<and> length data = 1 then send_key data l2
                     else backend_send data l2))"

text \<open>The bytes \<open>ldisc_send\<close> works on and \<open>keyflag\<close>: a negative length means a NUL-terminated string.\<close>

definition ldisc_data :: "byte list \<Rightarrow> int \<Rightarrow> (byte list \<times> nat) option" where
  "ldisc_data vbuf len =
     (if len < 0 then (if 0 \<in> set vbuf then Some (takeWhile (\<lambda>c. c \<noteq> 0) vbuf, KCTRL 64) else None)
      else if nat len \<le> length vbuf then Some (take (nat len) vbuf, 0) else None)"

definition ldisc_send :: "byte list \<Rightarrow> int \<Rightarrow> bool \<Rightarrow> 'b ld \<Rightarrow> 'b ld option" where
  "ldisc_send vbuf len interactive l =
     (if \<not> ld_term l then None
      else
        let l1 = (if rutty l then ld_emit (LScript vbuf len) l else l);
            l2 = (if interactive then ld_emit LNopaste l1 else l1)
        in case ldisc_data vbuf len of
             None \<Rightarrow> None
           | Some (data, keyflag) \<Rightarrow>
               if EDITING l2 then edit_loop interactive keyflag data l2
               else send_raw keyflag data l2)"

subsection \<open>Set-up\<close>

definition ldisc_configure :: "conf \<Rightarrow> 'b ld \<Rightarrow> 'b ld option" where
  "ldisc_configure cf l =
     (case (conf_get_bool cf (option_index CONFIG_OPTIONS ''telnet_keyboard''),
            conf_get_bool cf (option_index CONFIG_OPTIONS ''telnet_newline''),
            conf_get_int cf (option_index CONFIG_OPTIONS ''protocol''),
            conf_get_int cf (option_index CONFIG_OPTIONS ''localecho''),
            conf_get_int cf (option_index CONFIG_OPTIONS ''localedit'')) of
        (Some kb, Some nl, Some p, Some echo, Some edit) \<Rightarrow>
          Some (l\<lparr>telnet_keyboard := kb, telnet_newline := nl, protocol := p, localecho := echo, localedit := edit\<rparr>)
      | _ \<Rightarrow> None)"

text \<open>\<open>utf\<close> and \<open>rutty\<close> belong to the terminal and the program; \<open>l\<close> stands for the uninitialised memory.\<close>

definition ldisc_create :: "conf \<Rightarrow> bool \<Rightarrow> 'b \<Rightarrow> 'b ld \<Rightarrow> 'b ld option" where
  "ldisc_create cf has_term be l =
     map_option (\<lambda>l. l\<lparr>backend := be_provide (vt l) True (backend l)\<rparr>)
       (ldisc_configure cf (l\<lparr>buf := [], quotenext := False, backend := be, ld_term := has_term\<rparr>))"

definition ldisc_free :: "'b ld \<Rightarrow> 'b" where
  "ldisc_free l = be_provide (vt l) False (backend l)"

definition ldisc_echoedit_update :: "'b ld \<Rightarrow> 'b ld" where
  "ldisc_echoedit_update l = ld_emit (LEchoEdit (ECHOING l) (EDITING l)) l"

subsection \<open>Typing a line\<close>

lemma ctrl_codes [simp]:
  "CTRL 87 = 23" "CTRL 85 = 21" "CTRL 67 = 3" "CTRL 92 = 28" "CTRL 90 = 26" "CTRL 82 = 18" "CTRL 86 = 22"
  "CTRL 68 = 4" "CTRL 74 = 10" "CTRL 77 = 13" "CTRL 63 = 127" "CTRL 72 = 8"
  "KCTRL 72 = 264" "KCTRL 63 = 383" "KCTRL 77 = 269" "KCTRL 64 = 256"
  by (simp_all add: CTRL_def KCTRL_def)

lemma backend_simps [simp]:
  "buf (backend_send d l) = buf l" "vt (backend_send d l) = vt l" "ld_utf (backend_send d l) = ld_utf l"
  "quotenext (backend_send d l) = quotenext l" "protocol (backend_send d l) = protocol l"
  "telnet_newline (backend_send d l) = telnet_newline l" "telnet_keyboard (backend_send d l) = telnet_keyboard l"
  "localecho (backend_send d l) = localecho l" "localedit (backend_send d l) = localedit l"
  "backend (backend_send d l) = be_send (vt l) d (backend l)" "ld_term (backend_send d l) = ld_term l"
  "ld_out (backend_send d l) = ld_out l @ [LSend d]" "rutty (backend_send d l) = rutty l"
  "buf (backend_special s l) = buf l" "vt (backend_special s l) = vt l" "ld_utf (backend_special s l) = ld_utf l"
  "quotenext (backend_special s l) = quotenext l" "protocol (backend_special s l) = protocol l"
  "telnet_newline (backend_special s l) = telnet_newline l" "telnet_keyboard (backend_special s l) = telnet_keyboard l"
  "localecho (backend_special s l) = localecho l" "localedit (backend_special s l) = localedit l"
  "backend (backend_special s l) = be_special (vt l) s (backend l)" "ld_term (backend_special s l) = ld_term l"
  "ld_out (backend_special s l) = ld_out l @ [LSpecial s]" "rutty (backend_special s l) = rutty l"
  by (simp_all add: backend_send_def backend_special_def)

lemma pwrite_simps [simp]:
  "buf (pwrite c l) = buf l" "backend (pwrite c l) = backend l" "vt (pwrite c l) = vt l"
  "ld_utf (pwrite c l) = ld_utf l" "rutty (pwrite c l) = rutty l" "quotenext (pwrite c l) = quotenext l"
  "telnet_keyboard (pwrite c l) = telnet_keyboard l" "telnet_newline (pwrite c l) = telnet_newline l"
  "protocol (pwrite c l) = protocol l" "localecho (pwrite c l) = localecho l"
  "localedit (pwrite c l) = localedit l" "ld_term (pwrite c l) = ld_term l"
  by (simp_all add: pwrite_def)

text \<open>What editing leaves alone.\<close>

definition same_setup :: "'b ld \<Rightarrow> 'b ld \<Rightarrow> bool" where
  "same_setup l l' \<longleftrightarrow> vt l' = vt l \<and> ld_utf l' = ld_utf l \<and> rutty l' = rutty l \<and>
     telnet_keyboard l' = telnet_keyboard l \<and> telnet_newline l' = telnet_newline l \<and>
     protocol l' = protocol l \<and> localecho l' = localecho l \<and> localedit l' = localedit l \<and> ld_term l' = ld_term l"

lemma same_setup_refl [simp]: "same_setup l l"
  by (simp add: same_setup_def)

lemma same_setup_trans: "same_setup l l1 \<Longrightarrow> same_setup l1 l2 \<Longrightarrow> same_setup l l2"
  by (simp add: same_setup_def)

lemma insert_char_facts [simp]:
  "buf (insert_char c l) = buf l @ [c]" "backend (insert_char c l) = backend l" "\<not> quotenext (insert_char c l)"
  "same_setup l (insert_char c l)"
  by (simp_all add: insert_char_def same_setup_def Let_def)

text \<open>A byte that editing treats as text.\<close>

definition text_byte :: "byte \<Rightarrow> bool" where
  "text_byte b \<longleftrightarrow> b \<notin> {3, 4, 10, 13, 18, 21, 22, 23, 26, 28}"

lemma text_byte_unat:
  "text_byte b \<Longrightarrow> unat b \<notin> {3, 4, 10, 13, 18, 21, 22, 23, 26, 28}"
  by (simp add: text_byte_def word_unat_eq_iff)

lemma byte_bound: "unat (b :: byte) < 256"
  using unsigned_less [of b] by simp

lemma unat_byte_ne [simp]: "unat (b :: byte) \<noteq> 264" "unat (b :: byte) \<noteq> 269" "unat (b :: byte) \<noteq> 383"
  using byte_bound [of b] by linarith+

lemma edit_text_byte: "text_byte b \<Longrightarrow> edit_byte i 0 b l = Some (insert_char b l)"
  using text_byte_unat [of b] by (simp add: edit_byte_def key_code_def edit_code_def Let_def)

lemma edit_text:
  "\<forall>b\<in>set bs. text_byte b \<Longrightarrow>
   \<exists>l'. edit_loop i 0 bs l = Some l' \<and> buf l' = buf l @ bs \<and> backend l' = backend l \<and> same_setup l l' \<and>
     (bs \<noteq> [] \<or> \<not> quotenext l \<longrightarrow> \<not> quotenext l')"
proof (induction bs arbitrary: l)
  case (Cons b bs)
  then obtain l' where "edit_loop i 0 bs (insert_char b l) = Some l'" "buf l' = buf l @ b # bs" "backend l' = backend l"
    "same_setup (insert_char b l) l'" "\<not> quotenext l'" by fastforce
  moreover have "same_setup l l'" using calculation(4) same_setup_trans insert_char_facts(4) by blast
  ultimately show ?case using Cons.prems by (simp add: edit_text_byte)
qed simp

definition line_end :: "'b ld \<Rightarrow> 'b \<Rightarrow> 'b" where
  "line_end l b =
     (if protocol l = PROT_RAW then be_send (vt l) [13, 10] b
      else if protocol l = PROT_TELNET \<and> telnet_newline l then be_special (vt l) SS_EOL b
      else be_send (vt l) [13] b)"

definition line_sent :: "'b ld \<Rightarrow> byte list \<Rightarrow> 'b" where
  "line_sent l line = line_end l (if line = [] then backend l else be_send (vt l) line (backend l))"

lemma send_line_facts:
  "buf (send_line l) = []" "backend (send_line l) = line_sent l (buf l)" "quotenext (send_line l) = quotenext l"
  "same_setup l (send_line l)"
  by (simp_all add: send_line_def line_sent_def line_end_def same_setup_def Let_def)

lemma line_sent_setup: "same_setup l l' \<Longrightarrow> backend l' = backend l \<Longrightarrow> line_sent l' = line_sent l"
  by (simp add: same_setup_def line_sent_def line_end_def fun_eq_iff)

lemma edit_loop_append:
  "edit_loop i k (xs @ ys) l = (case edit_loop i k xs l of None \<Rightarrow> None | Some l1 \<Rightarrow> edit_loop i k ys l1)"
  by (induction xs arbitrary: l) (auto split: option.split)

lemma pasted_line:
  assumes "\<forall>b\<in>set bs. text_byte b" and "\<not> quotenext l"
  shows "\<exists>l'. edit_loop False 0 (bs @ [13]) l = Some l' \<and> buf l' = [] \<and> \<not> quotenext l' \<and> same_setup l l' \<and>
    backend l' = line_sent l (buf l @ bs)"
proof -
  from edit_text [OF assms(1), of False l] assms(2) obtain l1 where l1: "edit_loop False 0 bs l = Some l1"
    "buf l1 = buf l @ bs" "backend l1 = backend l" "same_setup l l1" "\<not> quotenext l1" by blast
  have "edit_byte False 0 13 l1 = Some (send_line l1)" using l1(5) by (simp add: edit_byte_def key_code_def edit_code_def Let_def)
  then have "edit_loop False 0 (bs @ [13]) l = Some (send_line l1)" by (simp add: edit_loop_append l1(1))
  then show ?thesis
    using send_line_facts [of l1] l1 same_setup_trans [OF l1(4)] line_sent_setup [OF l1(4,3)] by simp
qed

text \<open>A line typed key by key: every key in a call of its own, then the Return key.\<close>

fun type_keys :: "byte list \<Rightarrow> 'b ld \<Rightarrow> 'b ld option" where
  "type_keys [] l = ldisc_send [13, 0] (-1) True l"
| "type_keys (b # bs) l = (case ldisc_send [b] 1 True l of None \<Rightarrow> None | Some l1 \<Rightarrow> type_keys bs l1)"

lemma ld_emit_setup [simp]: "same_setup l (ld_emit e l')  = same_setup l l'"
  by (simp add: same_setup_def)

lemma EDITING_setup: "same_setup l l' \<Longrightarrow> backend l' = backend l \<Longrightarrow> EDITING l' = EDITING l"
  by (simp add: same_setup_def EDITING_def)

lemma EDITING_emit [simp]: "EDITING (ld_emit e l) = EDITING l"
  by (simp add: EDITING_def)

lemma typed_line:
  assumes "\<forall>b\<in>set bs. text_byte b" and "EDITING l" and "ld_term l" and "\<not> quotenext l"
  shows "\<exists>l'. type_keys bs l = Some l' \<and> buf l' = [] \<and> \<not> quotenext l' \<and> same_setup l l' \<and>
    backend l' = line_sent l (buf l @ bs)"
  using assms
proof (induction bs arbitrary: l)
  case Nil
  let ?l = "ld_emit LNopaste (if rutty l then ld_emit (LScript [13, 0] (- 1)) l else l)"
  have "ldisc_send [13, 0] (-1) True l = Some (send_line ?l)"
    using Nil.prems by (simp add: ldisc_send_def ldisc_data_def edit_byte_def key_code_def edit_code_def Let_def)
  moreover have "same_setup l ?l" "backend ?l = backend l" "buf ?l = buf l" "\<not> quotenext ?l" using Nil.prems by simp_all
  ultimately show ?case
    using send_line_facts [of ?l] same_setup_trans [of l ?l] line_sent_setup [of l ?l] by simp
next
  case (Cons b bs)
  let ?l = "ld_emit LNopaste (if rutty l then ld_emit (LScript [b] 1) l else l)"
  obtain l1 where l1: "l1 = insert_char b ?l" by simp
  have k: "ldisc_send [b] 1 True l = Some l1"
    using Cons.prems by (simp add: ldisc_send_def ldisc_data_def edit_text_byte Let_def l1)
  have s: "same_setup l l1" unfolding l1 using same_setup_trans [of l ?l "insert_char b ?l"] by simp
  have b: "backend l1 = backend l" "buf l1 = buf l @ [b]" "\<not> quotenext l1" by (simp_all add: l1)
  have "EDITING l1" "ld_term l1"
    using Cons.prems EDITING_setup [OF s b(1)] s by (simp_all add: same_setup_def)
  with Cons.IH [of l1] b(3) Cons.prems(1) obtain l' where "type_keys bs l1 = Some l'" "buf l' = []" "\<not> quotenext l'"
    "same_setup l1 l'" "backend l' = line_sent l1 (buf l1 @ bs)" by auto
  then show ?case using k b same_setup_trans [OF s] line_sent_setup [OF s b(1)] by simp
qed

text \<open>C30: entering a line. With local editing on, text pasted with a carriage return at its end, or typed
  key by key and ended with Return, goes to the backend as one block together with what was already
  in the line, followed by the line ending the protocol asks for; the line is then empty. Nothing else
  reaches the backend.\<close>

theorem ldisc_enter_line:
  assumes "EDITING l" and "ld_term l" and "\<not> quotenext l" and "\<forall>b\<in>set bs. text_byte b"
  shows "(\<exists>l'. ldisc_send (bs @ [13]) (int (length bs) + 1) False l = Some l' \<and> buf l' = [] \<and>
      backend l' = line_sent l (buf l @ bs)) \<and>
    (\<exists>l'. type_keys bs l = Some l' \<and> buf l' = [] \<and> backend l' = line_sent l (buf l @ bs))"
proof -
  let ?l = "if rutty l then ld_emit (LScript (bs @ [13]) (int (length bs) + 1)) l else l"
  have s: "same_setup l ?l" "backend ?l = backend l" "buf ?l = buf l" "\<not> quotenext ?l" "EDITING ?l" using assms by simp_all
  from pasted_line [OF assms(4) s(4)] obtain l' where l': "edit_loop False 0 (bs @ [13]) ?l = Some l'" "buf l' = []"
    "backend l' = line_sent l (buf l @ bs)" using line_sent_setup [OF s(1,2)] s(3) by auto
  have "nat (int (length bs) + 1) = Suc (length bs)" by simp
  then have "ldisc_data (bs @ [13]) (int (length bs) + 1) = Some (bs @ [13], 0)" by (simp add: ldisc_data_def)
  with l'(1) s(5) assms(2) have "ldisc_send (bs @ [13]) (int (length bs) + 1) False l = Some l'"
    by (simp add: ldisc_send_def Let_def)
  with l' typed_line [OF assms(4,1-3)] show ?thesis by blast
qed

text \<open>A line discipline on a Telnet connection.\<close>

definition telnet_vt :: "telnet backend_vt" where
  "telnet_vt = \<lparr>be_send = (\<lambda>d t. snd (telnet_send d t)), be_special = telnet_special,
     be_option = telnet_ldisc, be_provide = telnet_provide_ldisc\<rparr>"

definition example_ldisc :: "telnet ld" where
  "example_ldisc = \<lparr>ld_term = True, ld_utf = True, rutty = False, backend = example_telnet, vt = telnet_vt,
     telnet_keyboard = False, telnet_newline = True, protocol = PROT_TELNET, localecho = FORCE_ON, localedit = AUTO,
     buf = [], quotenext = False, ld_out = []\<rparr>"

lemma example_ldisc [simp]:
  "EDITING example_ldisc" "ld_term example_ldisc" "\<not> quotenext example_ldisc" "buf example_ldisc = []"
  by (simp_all add: example_ldisc_def EDITING_def telnet_vt_def telnet_ldisc_def example_telnet_def)

theorem ldisc_enter_line_witness:
  "\<exists>l'. type_keys [108, 115] example_ldisc = Some l' \<and> backend l' = line_sent example_ldisc [108, 115]"
  using ldisc_enter_line [of example_ldisc "[108, 115]"] by (auto simp: text_byte_def)

subsection \<open>The line discipline over Telnet\<close>

lemma telnet_send_wire:
  assumes "sock t"
  shows "wire (snd (telnet_send d t)) = wire t @ concat (List.map (escape (we_bin t)) d) \<and>
    opt_states (snd (telnet_send d t)) = opt_states t"
  using telnet_send_loop_wire [of d t] assms by (simp add: telnet_send_def Let_def)

lemma send_unwritable_sock: "sock (snd (send_unwritable p t)) = sock t"
  by (induction p t rule: send_unwritable.induct) auto

lemma telnet_send_loop_sock: "sock (telnet_send_loop p t) = sock t"
proof (induction p t rule: telnet_send_loop.induct)
  case (1 p t)
  show ?case
  proof (cases "p = []")
    case False
    from "1.IH" [OF False refl refl refl] show ?thesis
      by (subst telnet_send_loop.simps) (simp add: False Let_def send_unwritable_sock)
  qed (simp add: telnet_send_loop.simps)
qed

lemma telnet_send_sock [simp]: "sock (snd (telnet_send d t)) = sock t"
  by (simp add: telnet_send_def Let_def telnet_send_loop_sock)

lemma line_sent_wire:
  assumes "vt l = telnet_vt" and "protocol l = PROT_TELNET" and "telnet_newline l" and "sock (backend l)"
    and "\<not> we_bin (backend l)"
  shows "wire (line_sent l line) = wire (backend l) @ concat (List.map (escape False) line) @ [CR, LF]"
proof -
  have p: "PROT_TELNET \<noteq> PROT_RAW" by (simp add: PROT_TELNET_def PROT_RAW_def)
  have b: "opt_state (backend l) o_we_bin \<noteq> ACTIVE" using assms(5) by (simp add: we_bin_def)
  show ?thesis
    using telnet_send_wire [OF assms(4), of line] assms b p
    by (auto simp: line_sent_def line_end_def telnet_vt_def telnet_special_def we_bin_def)
qed

lemma read_crlf:
  assumes "at_top False s"
  shows "delivered (telnet_read_loop [CR, LF] s) = delivered s @ [CR, LF]"
proof -
  obtain t out where s: "s = (t, out)" by fastforce
  with assms have st: "state t = TOP_LEVEL" "\<not> in_synch t" "opt_state t o_they_bin \<noteq> ACTIVE" by (simp_all add: at_top_def)
  have cr: "CR \<noteq> IAC" "LF \<noteq> IAC" "LF \<noteq> CR" "LF \<noteq> 0" "CR \<noteq> 0" by simp_all
  have 1: "telnet_read_byte CR (t, out) = (t\<lparr>state := SEENCR\<rparr>, out @ [CR])"
    using st cr by (simp add: telnet_read_byte_def)
  obtain t1 o1 where f: "flush_out (t\<lparr>state := SEENCR\<rparr>, out @ [CR]) = (t1, o1)" by fastforce
  note q = flush_out_eq [OF f]
  have "telnet_read_byte LF (t1, o1) = (t1\<lparr>state := TOP_LEVEL\<rparr>, o1 @ [LF])"
    using st cr q by (simp add: telnet_read_byte_def)
  then show ?thesis using q(5) [of "[LF]"] by (simp add: s 1 f delivered_def)
qed

text \<open>C28: a typed line reaches the peer. When the line discipline edits locally on an open Telnet
  connection that is not in binary mode, and Return is sent as the Telnet new line, then whatever text
  is typed key by key, IAC bytes included, a receiver at top level that agrees on the binary option
  delivers exactly what was in the line, the text, CR and LF, to its terminal.\<close>

theorem ldisc_telnet_line:
  assumes "vt l = telnet_vt" and "protocol l = PROT_TELNET" and "telnet_newline l"
    and "sock (backend l)" and "opt_state (backend l) o_we_bin \<noteq> ACTIVE"
    and "EDITING l" and "ld_term l" and "\<not> quotenext l" and "\<forall>b\<in>set bs. text_byte b"
    and "state r = TOP_LEVEL" and "\<not> in_synch r" and "opt_state r o_they_bin \<noteq> ACTIVE"
  shows "\<exists>l' msg. type_keys bs l = Some l' \<and> wire (backend l') = wire (backend l) @ msg \<and>
    seat_data (do_telnet_read msg r) = seat_data r @ buf l @ bs @ [CR, LF]"
proof -
  have b: "\<not> we_bin (backend l)" using assms(5) by (simp add: we_bin_def)
  let ?m = "concat (List.map (escape False) (buf l @ bs)) @ [CR, LF]"
  from typed_line [OF assms(9,6-8)] obtain l' where l': "type_keys bs l = Some l'"
    "wire (backend l') = wire (backend l) @ ?m" using line_sent_wire [OF assms(1-4) b, of "buf l @ bs"] by auto
  have "at_top False (r, [])" using assms(10-12) by (simp add: at_top_def)
  from read_escapes [OF this, of "buf l @ bs"] have
    "at_top False (telnet_read_loop (concat (List.map (escape False) (buf l @ bs))) (r, []))"
    "delivered (telnet_read_loop (concat (List.map (escape False) (buf l @ bs))) (r, [])) = seat_data r @ buf l @ bs"
    by (simp_all add: delivered_def)
  then have "seat_data (do_telnet_read ?m r) = seat_data r @ buf l @ bs @ [CR, LF]"
    using do_telnet_read_out [of ?m r] read_crlf
    by (simp add: telnet_read_loop_append)
  with l' show ?thesis by blast
qed

theorem ldisc_telnet_line_witness:
  "\<exists>l' msg. type_keys [104, 255] example_ldisc = Some l' \<and> wire (backend l') = msg \<and>
    seat_data (do_telnet_read msg example_telnet) = [104, 255, 13, 10]"
proof -
  have "seat_data example_telnet = []" "wire (backend example_ldisc) = []"
    by (simp_all add: seat_data_def wire_def example_telnet_def example_ldisc_def)
  then show ?thesis
    using ldisc_telnet_line [of example_ldisc "[104, 255]" example_telnet] example_ldisc
    by (auto simp: text_byte_def example_ldisc_def example_telnet_def)
qed

subsection \<open>Deleting never leaves the buffer\<close>

text \<open>In UTF-8 mode a line that is not empty starts with the start of a character.\<close>

definition line_ok :: "bool \<Rightarrow> byte list \<Rightarrow> bool" where
  "line_ok utf line \<longleftrightarrow> (utf \<longrightarrow> line = [] \<or> char_start True (hd line))"

text \<open>Input in which a UTF-8 continuation byte only ever follows another byte outside ASCII.\<close>

fun follows :: "bool \<Rightarrow> byte list \<Rightarrow> bool" where
  "follows prev [] \<longleftrightarrow> True"
| "follows prev (b # bs) \<longleftrightarrow> (\<not> char_start True b \<longrightarrow> prev) \<and> follows (b \<ge> 0x80) bs"

lemma line_ok_butlast [simp]: "line_ok utf line \<Longrightarrow> line_ok utf (butlast line)"
  by (cases line) (auto simp: line_ok_def)

lemma line_ok_append: "line_ok utf line \<Longrightarrow> (utf \<longrightarrow> \<not> char_start True c \<longrightarrow> line \<noteq> []) \<Longrightarrow> line_ok utf (line @ [c])"
  by (cases line) (auto simp: line_ok_def)

lemma line_ok_Nil [simp]: "line_ok utf []"
  by (simp add: line_ok_def)

lemma rubbed_setup [simp]: "same_setup l (rubbed c l)" "quotenext (rubbed c l) = quotenext l"
  "backend (rubbed c l) = backend l"
  by (simp_all add: rubbed_def same_setup_def Let_def)

text \<open>Backspace stays in the buffer when the line starts with the start of a character; the other loops always.\<close>

lemma backspace_loop_step:
  "buf l \<noteq> [] \<Longrightarrow> backspace_loop l = (let l1 = rubbed (last (buf l)) l in
    if char_start (ld_utf l) (last (buf l)) then Some l1 else backspace_loop l1)"
  using rubbed_setup(1) [of l "last (buf l)"] by (subst backspace_loop.simps) (simp add: Let_def same_setup_def)

lemma kill_word_step:
  "buf l \<noteq> [] \<Longrightarrow> kill_word l = (let l1 = rubbed (last (buf l)) l in
    if buf l1 \<noteq> [] \<and> isspace (last (buf l1)) \<and> \<not> isspace (last (buf l)) then Some l1 else kill_word l1)"
  by (subst kill_word.simps) (simp add: last_byte_def Let_def)

lemma kill_line_step: "buf l \<noteq> [] \<Longrightarrow> kill_line l = kill_line (rubbed (last (buf l)) l)"
  by (subst kill_line.simps) simp

lemma buf_induct [case_names Nil step]:
  assumes "\<And>l :: 'b ld. buf l = [] \<Longrightarrow> P l"
    and "\<And>l :: 'b ld. buf l \<noteq> [] \<Longrightarrow> P (rubbed (last (buf l)) l) \<Longrightarrow> P l"
  shows "P (l :: 'b ld)"
proof (induction "length (buf l)" arbitrary: l rule: less_induct)
  case less
  then show ?case by (cases "buf l = []") (auto intro: assms)
qed

lemma backspace_ok:
  "line_ok (ld_utf l) (buf l) \<Longrightarrow> buf l \<noteq> [] \<Longrightarrow>
   \<exists>l'. backspace_loop l = Some l' \<and> line_ok (ld_utf l) (buf l') \<and> same_setup l l' \<and> quotenext l' = quotenext l \<and>
     backend l' = backend l"
proof (induction l rule: buf_induct)
  case (step l)
  let ?c = "last (buf l)"
  let ?l1 = "rubbed ?c l"
  have s: "same_setup l ?l1" by simp
  then have u: "ld_utf ?l1 = ld_utf l" by (simp add: same_setup_def)
  show ?case
  proof (cases "char_start (ld_utf l) ?c")
    case True
    then show ?thesis using step by (simp add: backspace_loop_step Let_def)
  next
    case False
    then have utf: "ld_utf l" by (auto simp: char_start_def split: if_splits)
    have "buf ?l1 \<noteq> []"
    proof
      assume "buf ?l1 = []"
      then have "buf l = [?c]" using step(4) by (metis append_butlast_last_id append_Nil rubbed_buf)
      then have "hd (buf l) = ?c" by (metis list.sel(1))
      with step(3,4) utf False show False by (simp add: line_ok_def)
    qed
    with step(2,3) u obtain l' where "backspace_loop ?l1 = Some l'" "line_ok (ld_utf l) (buf l')"
      "same_setup ?l1 l'" "quotenext l' = quotenext l" "backend l' = backend l" by auto
    then show ?thesis using step(4) False same_setup_trans [OF s] by (simp add: backspace_loop_step Let_def)
  qed
qed simp

lemma kill_word_ok:
  "\<exists>l'. kill_word l = Some l' \<and> (line_ok (ld_utf l) (buf l) \<longrightarrow> line_ok (ld_utf l) (buf l')) \<and> same_setup l l'"
proof (induction l rule: buf_induct)
  case (step l)
  let ?l1 = "rubbed (last (buf l)) l"
  have s: "same_setup l ?l1" by simp
  then have u: "ld_utf ?l1 = ld_utf l" by (simp add: same_setup_def)
  from step(2) u s same_setup_trans [OF s] show ?case by (auto simp: kill_word_step [OF step(1)] Let_def)
qed (simp add: kill_word.simps)

lemma kill_line_ok:
  "\<exists>l'. kill_line l = Some l' \<and> buf l' = [] \<and> same_setup l l' \<and> quotenext l' = quotenext l"
proof (induction l rule: buf_induct)
  case (step l)
  have s: "same_setup l (rubbed (last (buf l)) l)" by simp
  from step(2) same_setup_trans [OF s] show ?case by (auto simp: kill_line_step [OF step(1)])
qed (simp add: kill_line.simps)

lemma pwrite_all_facts [simp]: "buf (pwrite_all cs l) = buf l" "same_setup l (pwrite_all cs l)"
  "quotenext (pwrite_all cs l) = quotenext l"
  by (induction cs arbitrary: l) (auto simp: same_setup_def)

lemma insert_char_line:
  assumes "line_ok (ld_utf l) (buf l)" and "ld_utf l \<longrightarrow> \<not> char_start True c \<longrightarrow> buf l \<noteq> []"
  shows "line_ok (ld_utf l) (buf (insert_char c l))"
  using line_ok_append [OF assms] by simp

text \<open>A byte outside ASCII is always text.\<close>

lemma edit_high_byte:
  assumes "b \<ge> 0x80" and "k = 0 \<or> k = 256"
  shows "edit_byte i k b l = Some (insert_char b l)"
proof -
  have u: "unat b \<ge> 128" using assms(1) by (simp add: word_le_nat_alt)
  have "word_of_nat (unat b + k) = b" using assms(2) by (auto simp: of_nat_add)
  then show ?thesis using u assms(2) unfolding edit_byte_def key_code_def edit_code_def Let_def by auto
qed

lemma key_code_byte: "k = 0 \<or> k = 256 \<Longrightarrow> (word_of_nat (key_code i k b) :: byte) = b"
  by (auto simp: key_code_def Let_def of_nat_add) (simp_all add: word_unat_eq_iff)

lemma edit_code_ok:
  assumes "line_ok (ld_utf l) (buf l)" and "char_start True (word_of_nat c)"
  shows "\<exists>l'. edit_code c l = Some l' \<and> line_ok (ld_utf l) (buf l') \<and> ld_utf l' = ld_utf l"
proof -
  define w :: byte where "w = word_of_nat c"
  have ins: "line_ok (ld_utf l) (buf (insert_char w l0)) \<and> ld_utf (insert_char w l0) = ld_utf l"
    if "line_ok (ld_utf l) (buf l0)" "ld_utf l0 = ld_utf l" for l0
    using insert_char_line [of l0 w] that assms(2) insert_char_facts(4) [of l0 w]
    by (simp add: same_setup_def w_def)
  obtain lb where lb: "backspace l = Some lb" "line_ok (ld_utf l) (buf lb)" "ld_utf lb = ld_utf l"
  proof (cases "buf l = []")
    case True
    then show ?thesis using that [of l] assms(1) by (simp add: backspace_def)
  next
    case False
    from backspace_ok [OF assms(1) False] False that show ?thesis by (auto simp: backspace_def same_setup_def)
  qed
  obtain lk where lk: "kill_line l = Some lk" "buf lk = []" "ld_utf lk = ld_utf l"
    using kill_line_ok [of l] by (auto simp: same_setup_def)
  obtain lw where lw: "kill_word l = Some lw" "line_ok (ld_utf l) (buf lw)" "ld_utf lw = ld_utf l"
    using kill_word_ok [of l] assms(1) by (auto simp: same_setup_def)
  have pw: "ld_utf (pwrite_all cs l0) = ld_utf l0" for cs l0 using pwrite_all_facts(2) [of l0 cs] by (simp add: same_setup_def)
  have sl: "buf (send_line l0) = []" "ld_utf (send_line l0) = ld_utf l0" for l0
    using send_line_facts [of l0] by (simp_all add: same_setup_def)
  have el: "ld_utf (rubbed d l) = ld_utf l" for d using rubbed_setup(1) [of l d] by (simp add: same_setup_def)
  have "\<exists>cr. ends_with_cr l = Some cr \<and> (cr \<longrightarrow> buf l \<noteq> [])"
    by (auto simp: ends_with_cr_def last_byte_def)
  then obtain cr where cr: "ends_with_cr l = Some cr" "cr \<longrightarrow> buf l \<noteq> []" by blast
  note i1 = ins [OF assms(1) refl] and i2 = ins [of "backend_special SS_EL lk"]
  show ?thesis
    using lb lw lk cr assms(1) i1 i2 unfolding edit_code_def Let_def w_def [symmetric]
    by (cases cr) (simp_all add: pw sl el del: insert_char_facts)
qed

lemma edit_byte_ok:
  assumes "line_ok (ld_utf l) (buf l)" and "ld_utf l \<longrightarrow> \<not> char_start True b \<longrightarrow> buf l \<noteq> []" and k: "k = 0 \<or> k = 256"
  shows "\<exists>l'. edit_byte i k b l = Some l' \<and> line_ok (ld_utf l) (buf l') \<and> ld_utf l' = ld_utf l \<and>
    (b \<ge> 0x80 \<longrightarrow> buf l' \<noteq> [])"
proof (cases "b \<ge> 0x80")
  case True
  then show ?thesis using edit_high_byte [OF True k, of i l] insert_char_line [OF assms(1,2)] insert_char_facts(4) [of l b]
    by (simp add: same_setup_def)
next
  case False
  then have "char_start True b" by (simp add: char_start_def not_le)
  with edit_code_ok [OF assms(1), of "key_code i k b"] key_code_byte [OF k] False show ?thesis by (simp add: edit_byte_def)
qed

lemma edit_loop_ok:
  "line_ok (ld_utf l) (buf l) \<Longrightarrow> ld_utf l \<longrightarrow> follows prev bs \<Longrightarrow> prev \<longrightarrow> buf l \<noteq> [] \<Longrightarrow> k = 0 \<or> k = 256 \<Longrightarrow>
   \<exists>l'. edit_loop i k bs l = Some l' \<and> line_ok (ld_utf l) (buf l') \<and> ld_utf l' = ld_utf l"
proof (induction bs arbitrary: l prev)
  case (Cons b bs)
  have "ld_utf l \<longrightarrow> \<not> char_start True b \<longrightarrow> buf l \<noteq> []" using Cons.prems by auto
  from edit_byte_ok [OF Cons.prems(1) this Cons.prems(4), of i] obtain l1 where l1: "edit_byte i k b l = Some l1"
    "line_ok (ld_utf l) (buf l1)" "ld_utf l1 = ld_utf l" "b \<ge> 0x80 \<longrightarrow> buf l1 \<noteq> []" by blast
  from Cons.IH [of l1 "b \<ge> 0x80"] l1 Cons.prems show ?case by simp
qed simp

lemma rub_out_ok: "\<exists>l'. rub_out l = Some l' \<and> buf l' = [] \<and> same_setup l l' \<and> backend l' = backend l"
proof (induction l rule: rub_out.induct)
  case (1 l)
  let ?l1 = "(bsb (plen (ld_utf l) (last (buf l))) l)\<lparr>buf := butlast (buf l)\<rparr>"
  show ?case
  proof (cases "buf l = []")
    case False
    have s: "same_setup l ?l1" by (simp add: same_setup_def)
    have "last_byte l = Some (last (buf l))" using False by (simp add: last_byte_def)
    from 1 [OF False this] same_setup_trans [OF s] show ?thesis
      by (subst rub_out.simps) (auto simp: False last_byte_def)
  qed (simp add: rub_out.simps)
qed

lemma send_key_facts: "buf (send_key d l) = buf l" "ld_utf (send_key d l) = ld_utf l"
  by (simp_all add: send_key_def Let_def)

lemma send_raw_ok: "\<exists>l'. send_raw k d l = Some l' \<and> buf l' = [] \<and> ld_utf l' = ld_utf l"
proof -
  obtain l1 where l1: "rub_out (backend_send (buf l) l) = Some l1" "buf l1 = []" "same_setup (backend_send (buf l) l) l1"
    using rub_out_ok [of "backend_send (buf l) l"] by blast
  define l2 where "l2 = (if buf l \<noteq> [] then l1 else l)"
  have "buf l2 = []" "ld_utf l2 = ld_utf l" using l1(2,3) by (simp_all add: l2_def same_setup_def)
  moreover have "(if buf l \<noteq> [] then rub_out (backend_send (buf l) l) else Some l) = Some l2" by (simp add: l1(1) l2_def)
  ultimately show ?thesis unfolding send_raw_def by (simp add: Let_def send_key_facts)
qed

lemma ldisc_data_flag: "ldisc_data vbuf len = Some (data, k) \<Longrightarrow> k = 0 \<or> k = 256"
  by (auto simp: ldisc_data_def split: if_splits)

text \<open>C29: the line buffer is never read or decremented past its start. From a line that starts with the
  start of a character, and outside UTF-8 mode from any line, every call on any data, editing or not,
  with any control keys in it, returns, and leaves such a line; in UTF-8 mode the data must not hold a
  continuation byte that follows an ASCII byte or comes first.\<close>

theorem ldisc_send_safe:
  assumes "ld_term l" and "line_ok (ld_utf l) (buf l)" and "ldisc_data vbuf len = Some (data, keyflag)"
    and "ld_utf l \<longrightarrow> follows False data"
  shows "\<exists>l'. ldisc_send vbuf len interactive l = Some l' \<and> line_ok (ld_utf l') (buf l')"
proof -
  let ?l1 = "if rutty l then ld_emit (LScript vbuf len) l else l"
  let ?l2 = "if interactive then ld_emit LNopaste ?l1 else ?l1"
  have s: "buf ?l2 = buf l" "ld_utf ?l2 = ld_utf l" by simp_all
  show ?thesis
  proof (cases "EDITING ?l2")
    case True
    from edit_loop_ok [of ?l2 False data keyflag interactive] s assms(2,4) ldisc_data_flag [OF assms(3)] obtain l' where
      "edit_loop interactive keyflag data ?l2 = Some l'" "line_ok (ld_utf l') (buf l')" by auto
    then show ?thesis using assms(1,3) True by (simp add: ldisc_send_def Let_def)
  next
    case False
    then show ?thesis using assms(1,3) send_raw_ok [of keyflag data ?l2] by (auto simp: ldisc_send_def Let_def)
  qed
qed

theorem ldisc_send_safe_witness:
  "\<exists>l'. ldisc_send [0xC3, 0xA9, 8, 0] (-1) True example_ldisc = Some l'"
proof -
  have "ldisc_data [0xC3, 0xA9, 8, 0] (-1) = Some ([0xC3, 0xA9, 8], 256)" by (simp add: ldisc_data_def)
  from ldisc_send_safe [OF _ _ this, of example_ldisc True] show ?thesis by (auto simp: char_start_def)
qed

text \<open>Without that proviso: a lone continuation byte, then Backspace.\<close>

lemma backspace_underflow:
  "\<exists>l. ldisc_send [0x80] 1 True example_ldisc = Some l \<and> ldisc_send [8, 0] (-1) True l = None"
proof -
  let ?l = "insert_char 0x80 (ld_emit LNopaste example_ldisc)"
  have "ldisc_send [0x80] 1 True example_ldisc = Some ?l"
    using edit_text_byte [where b = "0x80" and l = "ld_emit LNopaste example_ldisc"]
    by (simp add: ldisc_send_def ldisc_data_def text_byte_def) (simp add: example_ldisc_def)
  moreover have utf: "ld_utf (ld_emit LNopaste ?l)" "EDITING ?l" "ld_term ?l" "\<not> rutty ?l" "\<not> quotenext ?l"
    by (simp_all add: example_ldisc_def insert_char_def Let_def EDITING_def telnet_vt_def telnet_ldisc_def example_telnet_def)
  have "backspace_loop (ld_emit LNopaste ?l) = None"
    using utf(1) by (simp add: backspace_loop_step backspace_loop.simps [of "rubbed c x" for c x] Let_def char_start_def)
  with utf have "ldisc_send [8, 0] (-1) True ?l = None"
    by (simp add: ldisc_send_def ldisc_data_def edit_byte_def key_code_def edit_code_def backspace_def Let_def)
  ultimately show ?thesis by blast
qed

subsection \<open>Rubbing out never touches the prompt\<close>

text \<open>The column of the cursor after an event, from what is shown: backspace-space-backspace takes one
  back, CR LF at the end goes to the first column, a printing byte takes one forward.\<close>

definition width :: "bool \<Rightarrow> byte \<Rightarrow> int" where
  "width utf c = (if (c \<ge> 32 \<and> c \<le> 126) \<or> (\<not> utf \<and> c \<ge> 160) \<or> (utf \<and> c \<ge> 0xC0) then 1 else 0)"

definition newline_at_end :: "byte list \<Rightarrow> bool" where
  "newline_at_end d \<longleftrightarrow> drop (length d - 2) d = [13, 10]"

definition shown :: "bool \<Rightarrow> byte list \<Rightarrow> int \<Rightarrow> int" where
  "shown utf d col =
     (if d = [8, 32, 8] then col - 1
      else if newline_at_end d then 0
      else col + sum_list (List.map (width utf) d))"

text \<open>The column of the cursor and the column where the line being typed begins: the first one after a new
  line, else where the cursor was when the line before it was sent. Neither looks at \<open>plen\<close> or at \<open>buf\<close>.\<close>

fun cursor_step :: "bool \<Rightarrow> int \<times> int \<Rightarrow> ldisc_event \<Rightarrow> int \<times> int" where
  "cursor_step utf (col, beg) (LStdout d) = (shown utf d col, if newline_at_end d then 0 else beg)"
| "cursor_step utf (col, beg) (LStdoutLocal d) = (shown utf d col, if newline_at_end d then 0 else beg)"
| "cursor_step utf (col, beg) (LSend d) = (col, col)"
| "cursor_step utf (col, beg) _ = (col, beg)"

definition cursor :: "'b ld \<Rightarrow> int \<times> int" where
  "cursor l = foldl (cursor_step (ld_utf l)) (0, 0) (ld_out l)"

abbreviation column :: "'b ld \<Rightarrow> int" where
  "column l \<equiv> fst (cursor l)"

abbreviation line_begin :: "'b ld \<Rightarrow> int" where
  "line_begin l \<equiv> snd (cursor l)"

text \<open>What rubbing out the whole line byte by byte takes back.\<close>

definition line_width :: "'b ld \<Rightarrow> int" where
  "line_width l = sum_list (List.map (\<lambda>c. int (plen (ld_utf l) c)) (buf l))"

definition aligned :: "'b ld \<Rightarrow> bool" where
  "aligned l \<longleftrightarrow> column l = line_begin l + line_width l \<and> 0 \<le> line_begin l"

lemma cursor_simps [simp]:
  "cursor (ld_write d l) = (shown (ld_utf l) d (column l), if newline_at_end d then 0 else line_begin l)"
  "cursor (l\<lparr>buf := bs\<rparr>) = cursor l" "cursor (l\<lparr>quotenext := q\<rparr>) = cursor l"
  "cursor (backend_send d l) = (column l, column l)" "cursor (backend_special c l) = cursor l"
  "cursor (ld_emit LNopaste l) = cursor l" "cursor (ld_emit (LScript x y) l) = cursor l"
  by (cases "cursor l"; simp add: cursor_def ld_write_def backend_send_def backend_special_def)+

lemma line_width_simps [simp]:
  "line_width (ld_write d l) = line_width l" "line_width (l\<lparr>quotenext := q\<rparr>) = line_width l"
  "line_width (backend_send d l) = line_width l" "line_width (backend_special s l) = line_width l"
  "line_width (ld_emit e l) = line_width l" "line_width (pwrite c l) = line_width l"
  "line_width (l\<lparr>buf := []\<rparr>) = 0"
  "line_width (l\<lparr>buf := bs @ [c]\<rparr>) = line_width (l\<lparr>buf := bs\<rparr>) + int (plen (ld_utf l) c)"
  by (simp_all add: line_width_def)

lemma line_width_nonneg [simp]: "0 \<le> line_width l"
  by (auto simp: line_width_def intro!: sum_list_nonneg)

lemma hex_digit_shown: "d < 16 \<Longrightarrow> 32 \<le> hex_digit d \<and> hex_digit d \<le> 126"
proof -
  assume "d < 16"
  then have "unat d < 16" by (simp add: word_less_nat_alt)
  then show ?thesis by (auto simp: hex_digit_def word_less_nat_alt word_le_nat_alt unat_word_ariths)
qed

lemma caret_shown: "c < 32 \<Longrightarrow> 32 \<le> c + (0x40 :: byte) \<and> c + (0x40 :: byte) \<le> 126"
  by (auto simp: word_less_nat_alt word_le_nat_alt unat_word_ariths)

lemma nibbles: "drop_bit 4 (c :: byte) < 16" "c AND (15 :: byte) < 16"
proof -
  have "unat c div 16 < 16" by (rule less_mult_imp_div_less) (use byte_bound [of c] in linarith)
  then show "drop_bit 4 c < 16" by (simp add: word_less_nat_alt drop_bit_eq_div unat_div)
  have "c AND (15 :: byte) \<le> 15" by (rule word_and_le1)
  then show "c AND (15 :: byte) < 16" by (simp add: word_le_nat_alt word_less_nat_alt)
qed

lemma shown_pwrite:
  "shown utf (pwrite_text utf c) col = col + int (plen utf c) \<and> \<not> newline_at_end (pwrite_text utf c)"
proof -
  consider (plain) "(c \<ge> 32 \<and> c \<le> 126) \<or> (\<not> utf \<and> c \<ge> 0xA0) \<or> (utf \<and> c \<ge> 0x80)"
    | (caret) "c < 32 \<or> c = 127"
    | (hex) "\<not> utf" "c \<ge> 128" "c < 160"
  proof -
    have "32 \<le> unat c \<and> unat c \<le> 126 \<or> unat c < 32 \<or> unat c = 127 \<or> (128 \<le> unat c \<and> (utf \<or> 160 \<le> unat c \<or> unat c < 160))"
      by linarith
    with that show thesis by (auto simp: word_less_nat_alt word_le_nat_alt word_unat_eq_iff not_le)
  qed
  then show ?thesis
  proof cases
    case plain
    then have "pwrite_text utf c = [c]" by (simp add: pwrite_text_def)
    moreover have "width utf c = int (plen utf c)" using plain
      by (auto simp: width_def plen_def not_le not_less word_less_nat_alt word_le_nat_alt)
    ultimately show ?thesis by (simp add: shown_def newline_at_end_def)
  next
    case caret
    then have "pwrite_text utf c = [94, if c = 127 then 63 else c + 0x40]" "plen utf c = 2"
      by (auto simp: pwrite_text_def plen_def word_less_nat_alt word_le_nat_alt)
    moreover have "width utf (if c = 127 then 63 else c + 0x40) = 1" using caret caret_shown [of c]
      by (auto simp: width_def)
    ultimately show ?thesis by (simp add: shown_def width_def newline_at_end_def)
  next
    case hex
    then have "pwrite_text utf c = [60, hex_digit (drop_bit 4 c), hex_digit (c AND 15), 62]" "plen utf c = 4"
      by (auto simp: pwrite_text_def plen_def word_less_nat_alt word_le_nat_alt)
    moreover have "width utf (hex_digit (drop_bit 4 c)) = 1" "width utf (hex_digit (c AND 15)) = 1"
      using hex_digit_shown [OF nibbles(1)] hex_digit_shown [OF nibbles(2)] by (simp_all add: width_def)
    ultimately show ?thesis by (simp add: shown_def width_def newline_at_end_def)
  qed
qed

lemma cursor_pwrite [simp]: "cursor (pwrite c l) = (column l + int (plen (ld_utf l) c), line_begin l)"
  by (simp add: pwrite_def shown_pwrite)

lemma cursor_bsb [simp]: "cursor (bsb n l) = (column l - int n, line_begin l)"
  by (induction n arbitrary: l) (simp_all add: shown_def newline_at_end_def)

lemma line_width_bsb [simp]: "line_width (bsb n l) = line_width l"
  by (induction n arbitrary: l) simp_all

lemma cursor_pwrite_all [simp]:
  "cursor (pwrite_all cs l) = (column l + sum_list (List.map (\<lambda>c. int (plen (ld_utf l) c)) cs), line_begin l)"
  by (induction cs arbitrary: l) simp_all

lemma line_width_pwrite_all [simp]: "line_width (pwrite_all cs l) = line_width l"
  by (induction cs arbitrary: l) simp_all

lemma newlines [simp]: "newline_at_end [13, 10]" "newline_at_end [94, 82, 13, 10]"
  "shown utf [13, 10] col = 0" "shown utf [94, 82, 13, 10] col = 0"
  by (simp_all add: shown_def newline_at_end_def)

text \<open>With echo on, inserting and rubbing out keep the line aligned, and so does every key.\<close>

lemma ECHOING_forced: "localecho l = FORCE_ON \<Longrightarrow> ECHOING l"
  by (simp add: ECHOING_def)

lemma aligned_simps [simp]:
  "aligned (backend_special s l) = aligned l" "aligned (l\<lparr>quotenext := q\<rparr>) = aligned l"
  "aligned (ld_emit LNopaste l) = aligned l" "aligned (ld_emit (LScript x y) l) = aligned l"
  by (simp_all add: aligned_def)

lemma aligned_insert: "localecho l = FORCE_ON \<Longrightarrow> aligned l \<Longrightarrow> aligned (insert_char c l)"
  by (simp add: insert_char_def Let_def aligned_def ECHOING_forced)

lemma line_width_snoc: "buf l = bs @ [c] \<Longrightarrow> line_width l = line_width (l\<lparr>buf := bs\<rparr>) + int (plen (ld_utf l) c)"
  by (simp add: line_width_def)

lemma rubbed_echo [simp]: "localecho (rubbed c l) = localecho l"
  by (simp add: rubbed_def Let_def)

lemma aligned_rubbed:
  assumes "localecho l = FORCE_ON" and "buf l \<noteq> []" and "aligned l"
  shows "aligned (rubbed (last (buf l)) l)"
proof -
  have "line_width l = line_width (l\<lparr>buf := butlast (buf l)\<rparr>) + int (plen (ld_utf l) (last (buf l)))"
    by (rule line_width_snoc) (use assms(2) in simp)
  moreover have "line_width (rubbed c l) = line_width (l\<lparr>buf := butlast (buf l)\<rparr>)" for c
    by (simp add: rubbed_def line_width_def Let_def)
  moreover have "cursor (rubbed (last (buf l)) l) = (column l - int (plen (ld_utf l) (last (buf l))), line_begin l)"
    using assms(1) by (simp add: rubbed_def Let_def ECHOING_forced)
  ultimately show ?thesis using assms(3) by (simp add: aligned_def)
qed

lemma aligned_backspace_loop:
  "localecho l = FORCE_ON \<Longrightarrow> aligned l \<Longrightarrow> backspace_loop l = Some l' \<Longrightarrow> aligned l' \<and> same_setup l l'"
proof (induction l rule: buf_induct)
  case (Nil l)
  then show ?case by (simp add: backspace_loop.simps)
next
  case (step l)
  have s: "same_setup l (rubbed (last (buf l)) l)" by simp
  from step same_setup_trans [OF s] aligned_rubbed [OF step(3,1,4)] show ?case
    by (auto simp: backspace_loop_step Let_def split: if_splits)
qed

lemma aligned_kill_word: "localecho l = FORCE_ON \<Longrightarrow> aligned l \<Longrightarrow> kill_word l = Some l' \<Longrightarrow> aligned l'"
proof (induction l rule: buf_induct)
  case (step l)
  then show ?case using aligned_rubbed [OF step(3,1,4)] by (auto simp: kill_word_step Let_def split: if_splits)
qed (simp add: kill_word.simps)

lemma aligned_kill_line: "localecho l = FORCE_ON \<Longrightarrow> aligned l \<Longrightarrow> kill_line l = Some l' \<Longrightarrow> aligned l'"
proof (induction l rule: buf_induct)
  case (step l)
  then show ?case using aligned_rubbed [OF step(3,1,4)] by (simp add: kill_line_step)
qed (simp add: kill_line.simps)

lemma aligned_send_line: "localecho l = FORCE_ON \<Longrightarrow> aligned (send_line l)"
  by (simp add: send_line_def Let_def aligned_def ECHOING_forced)

lemma aligned_redraw: "aligned (pwrite_all (buf l) (ld_write [94, 82, 13, 10] l))"
  by (simp add: aligned_def) (simp add: line_width_def)

lemma aligned_sent: "aligned l \<Longrightarrow> aligned ((backend_send d l)\<lparr>buf := []\<rparr>)"
  using line_width_nonneg [of l] by (simp add: aligned_def del: line_width_nonneg)

lemma edit_code_aligned:
  assumes "localecho l = FORCE_ON" and "aligned l" and "edit_code c l = Some l'"
  shows "aligned l' \<and> same_setup l l'"
proof -
  define w :: byte where "w = word_of_nat c"
  have ins: "aligned (insert_char w l0) \<and> same_setup l (insert_char w l0)" if "aligned l0" "same_setup l l0" for l0
    using that same_setup_trans [OF that(2) insert_char_facts(4)] aligned_insert [of l0 w] assms(1)
    by (simp add: same_setup_def)
  have sp: "same_setup l (backend_special x l0)" if "same_setup l l0" for l0 x using that by (simp add: same_setup_def)
  have sl: "aligned (send_line l0) \<and> same_setup l (send_line l0)" if "same_setup l l0" for l0
    using that same_setup_trans [OF that send_line_facts(4)] aligned_send_line [of l0] assms(1) by (simp add: same_setup_def)
  have bl: "aligned lb \<and> same_setup l lb" if "backspace l = Some lb" for lb
    using that aligned_backspace_loop [OF assms(1,2)] assms(2) by (auto simp: backspace_def split: if_splits)
  have kw: "aligned lb \<and> same_setup l lb" if "kill_word l = Some lb" for lb
    using that aligned_kill_word [OF assms(1,2)] kill_word_ok [of l] by auto
  have kl: "aligned lb \<and> same_setup l lb" if "kill_line l = Some lb" for lb
    using that aligned_kill_line [OF assms(1,2)] kill_line_ok [of l] by auto
  have rd: "aligned (pwrite_all (buf l) (ld_write [94, 82, 13, 10] l)) \<and>
      same_setup l (pwrite_all (buf l) (ld_write [94, 82, 13, 10] l))"
    using pwrite_all_facts(2) [of "ld_write [94, 82, 13, 10] l" "buf l"] by (simp add: aligned_redraw same_setup_def)
  have clr: "aligned ((backend_send (buf l) l)\<lparr>buf := []\<rparr>) \<and> same_setup l ((backend_send (buf l) l)\<lparr>buf := []\<rparr>)"
    using aligned_sent [OF assms(2)] by (simp add: same_setup_def)
  have el: "aligned (send_line lb) \<and> same_setup l (send_line lb)" if "erase_last l = Some (d, lb)" for d lb
    using that sl [OF rubbed_setup(1)] by (simp add: erase_last_Some)
  have qt: "same_setup l (l\<lparr>quotenext := True\<rparr>)" by (simp add: same_setup_def)
  show ?thesis
  proof (cases "kill_line l")
    case None
    with kill_line_ok [of l] show ?thesis by simp
  next
    case (Some lk)
    note k = kl [OF Some, THEN conjunct1] sp [OF kl [OF Some, THEN conjunct2]]
    note facts = ins [of "backend_special SS_EL lk", simplified, OF k] sp [OF k(2)] ins [OF assms(2) same_setup_refl]
    from assms(3) show ?thesis
      unfolding edit_code_def Let_def w_def [symmetric] Some
      using facts k assms(2) bl kw el qt clr rd sl [OF same_setup_refl] sp [OF same_setup_refl]
      by (auto split: if_splits option.splits)
  qed
qed

lemma edit_loop_aligned:
  "localecho l = FORCE_ON \<Longrightarrow> aligned l \<Longrightarrow> edit_loop i k bs l = Some l' \<Longrightarrow> aligned l'"
proof (induction bs arbitrary: l)
  case (Cons b bs)
  from Cons.prems(3) obtain l1 where l1: "edit_byte i k b l = Some l1" "edit_loop i k bs l1 = Some l'"
    by (auto split: option.splits)
  from edit_code_aligned [OF Cons.prems(1,2) l1(1) [unfolded edit_byte_def]] Cons.prems(1) have
    p: "aligned l1" "localecho l1 = FORCE_ON" by (simp_all add: same_setup_def)
  from Cons.IH [OF p(2,1) l1(2)] show ?case .
qed simp

text \<open>C31: local echo and rubbing out agree. With echo and editing forced on, the invariant that the cursor
  stands exactly as far right of where the line begins as rubbing out the whole line byte by byte takes it
  back is kept by every call on any data, typed or pasted, control keys, redraws and ends of lines included; the
  beginning of the line is never left of the first column. Where the cursor stands and where the line
  begins are computed from what was written to the screen and sent, one column for each multi-byte
  character.\<close>

theorem ldisc_echo_aligned:
  assumes "localecho l = FORCE_ON" and "localedit l = FORCE_ON"
    and "column l = line_begin l + line_width l" and "0 \<le> line_begin l"
    and "ldisc_send vbuf len interactive l = Some l'"
  shows "column l' = line_begin l' + line_width l' \<and> 0 \<le> line_begin l'"
proof -
  let ?l1 = "if rutty l then ld_emit (LScript vbuf len) l else l"
  let ?l2 = "if interactive then ld_emit LNopaste ?l1 else ?l1"
  have l2: "EDITING ?l2" "localecho ?l2 = FORCE_ON" "aligned ?l2" using assms(1-4) by (simp_all add: EDITING_def aligned_def)
  from assms(5) l2(1) obtain data k where "edit_loop interactive k data ?l2 = Some l'"
    by (auto simp: ldisc_send_def Let_def split: if_splits option.splits)
  from edit_loop_aligned [OF l2(2,3) this] show ?thesis by (simp add: aligned_def)
qed

definition example_local :: "telnet ld" where
  "example_local = example_ldisc\<lparr>localedit := FORCE_ON\<rparr>"

theorem ldisc_echo_aligned_witness:
  "\<exists>l'. ldisc_send [65, 1] 2 True example_local = Some l' \<and> column l' = 3 \<and> line_begin l' = 0 \<and> line_width l' = 3"
proof -
  let ?l = "ld_emit LNopaste example_local"
  let ?l' = "insert_char 1 (insert_char 65 ?l)"
  have s: "ldisc_send [65, 1] 2 True example_local = Some ?l'"
    using edit_text_byte [where b = 65 and l = ?l] edit_text_byte [where b = 1 and l = "insert_char 65 ?l"]
    by (simp add: ldisc_send_def ldisc_data_def text_byte_def EDITING_def example_local_def)
      (simp add: example_ldisc_def)
  have e: "column example_local = 0" "line_begin example_local = 0" "line_width example_local = 0"
    by (simp_all add: cursor_def line_width_def example_local_def example_ldisc_def)
  have "line_width ?l' = 3" by (simp add: line_width_def insert_char_def Let_def plen_def word_le_nat_alt example_local_def example_ldisc_def)
  moreover have "line_begin ?l' = 0" using e by (simp add: insert_char_def Let_def)
  moreover have "column ?l' = line_begin ?l' + line_width ?l' \<and> 0 \<le> line_begin ?l'"
    by (rule ldisc_echo_aligned [OF _ _ _ _ s]) (use e in \<open>simp_all add: example_local_def example_ldisc_def\<close>)
  ultimately show ?thesis using s by auto
qed

end
