(* ===== verification/Mpint.thy ===== *)
theory Mpint
  imports Prelude
begin

text \<open>
  Multiprecision integers (\<open>crypto/mpint.c\<close>, \<open>crypto/mpint_i.h\<close>), in the configuration with 64-bit
  words. An \<open>mp_int\<close> is the list of its words, the lowest first; its value is \<open>mpv\<close>. A function
  \<open>mp_..._into\<close> takes the number of words of its destination and returns the words it stores there; the
  loops of these functions read each position of their sources before they write the same position of
  the destination, so a destination that is one of the sources gives the same result. Sizes are natural
  numbers; allocation succeeds. A failed assertion is \<open>None\<close>.
\<close>

type_synonym BignumInt = "64 word"
type_synonym mp_int = "BignumInt list"

subsection \<open>Words\<close>

definition BIGNUM_INT_BITS_BITS :: nat where "BIGNUM_INT_BITS_BITS = 6"
definition BIGNUM_INT_BITS :: nat where "BIGNUM_INT_BITS = 64"
definition BIGNUM_INT_BYTES :: nat where "BIGNUM_INT_BYTES = 8"

lemmas bignum_sizes [simp] = BIGNUM_INT_BITS_BITS_def BIGNUM_INT_BITS_def BIGNUM_INT_BYTES_def

text \<open>The word-arithmetic macros, through the double-length type. The results are \<open>(ret, retc)\<close> and
  \<open>(rh, rl)\<close>.\<close>

type_synonym BignumDblInt = "128 word"

definition BignumADC :: "BignumInt \<Rightarrow> BignumInt \<Rightarrow> BignumInt \<Rightarrow> BignumInt \<times> BignumInt" where
  "BignumADC a b c =
     (let ADC_temp = (ucast a :: BignumDblInt) + ucast b + ucast c
      in (ucast ADC_temp, ucast (drop_bit 64 ADC_temp)))"

definition BignumMULADD :: "BignumInt \<Rightarrow> BignumInt \<Rightarrow> BignumInt \<Rightarrow> BignumInt \<times> BignumInt" where
  "BignumMULADD a b addend =
     (let MUL_temp = (ucast a :: BignumDblInt) * ucast b + ucast addend
      in (ucast (drop_bit 64 MUL_temp), ucast MUL_temp))"

definition BignumMULADD2 :: "BignumInt \<Rightarrow> BignumInt \<Rightarrow> BignumInt \<Rightarrow> BignumInt \<Rightarrow> BignumInt \<times> BignumInt" where
  "BignumMULADD2 a b addend1 addend2 =
     (let MUL_temp = (ucast a :: BignumDblInt) * ucast b + ucast addend1 + ucast addend2
      in (ucast (drop_bit 64 MUL_temp), ucast MUL_temp))"

lemma unat_bignum: "unat (x :: BignumInt) < 2 ^ 64"
  using unsigned_less [of x] by simp

lemma dbl_split:
  "unat (ucast t :: BignumInt) + 2 ^ 64 * unat (ucast (drop_bit 64 t) :: BignumInt) = unat (t :: BignumDblInt)"
proof -
  have t: "unat t < 2 ^ 128" using unsigned_less [of t] by simp
  then have "unat t div 2 ^ 64 < 2 ^ 64" by (intro less_mult_imp_div_less) simp
  then show ?thesis by (simp add: unsigned_ucast_eq drop_bit_eq_div unat_div take_bit_eq_mod)
qed

lemma unat_dbl_of: "n < 2 ^ 128 \<Longrightarrow> unat (word_of_nat n :: BignumDblInt) = n"
  by (simp add: unat_of_nat take_bit_nat_eq_self)

lemma unat_ucast_dbl: "unat (ucast (a :: BignumInt) :: BignumDblInt) = unat a"
  using unat_bignum [of a] by (simp add: unsigned_ucast_eq take_bit_nat_eq_self)

lemma BignumADC_eq:
  assumes "BignumADC a b c = (r, k)"
  shows "unat r + 2 ^ 64 * unat k = unat a + unat b + unat c"
proof -
  let ?t = "(ucast a :: BignumDblInt) + ucast b + ucast c"
  have "unat a + unat b + unat c < 2 ^ 128" using unat_bignum [of a] unat_bignum [of b] unat_bignum [of c] by simp
  moreover have "?t = word_of_nat (unat a + unat b + unat c)"
    by simp
  ultimately have "unat ?t = unat a + unat b + unat c" by (simp only: unat_dbl_of)
  then show ?thesis using assms dbl_split [of ?t] by (auto simp: BignumADC_def Let_def)
qed

lemma mult_words_bound: "x < 2 ^ 64 \<Longrightarrow> y < 2 ^ 64 \<Longrightarrow> c < 2 ^ 64 \<Longrightarrow> d < 2 ^ 64 \<Longrightarrow> x * y + c + d < (2 :: nat) ^ 128"
proof -
  assume a: "x < 2 ^ 64" "y < 2 ^ 64" "c < 2 ^ 64" "d < (2 :: nat) ^ 64"
  then have "x * y \<le> (2 ^ 64 - 1) * (2 ^ 64 - 1)" by (intro mult_mono) simp_all
  with a show ?thesis by simp
qed

lemma BignumMULADD2_eq:
  assumes "BignumMULADD2 a b c d = (h, l)"
  shows "unat l + 2 ^ 64 * unat h = unat a * unat b + unat c + unat d"
proof -
  let ?t = "(ucast a :: BignumDblInt) * ucast b + ucast c + ucast d"
  have "unat a * unat b + unat c + unat d < 2 ^ 128" by (intro mult_words_bound unat_bignum)
  moreover have "?t = word_of_nat (unat a * unat b + unat c + unat d)" by simp
  ultimately have "unat ?t = unat a * unat b + unat c + unat d" by (simp only: unat_dbl_of)
  then show ?thesis using assms dbl_split [of ?t] by (auto simp: BignumMULADD2_def Let_def)
qed

lemma BignumMULADD_eq:
  assumes "BignumMULADD a b c = (h, l)"
  shows "unat l + 2 ^ 64 * unat h = unat a * unat b + unat c"
  using BignumMULADD2_eq [of a b c 0 h l] assms by (simp add: BignumMULADD_def BignumMULADD2_def)

subsection \<open>Numbers\<close>

fun mpv :: "mp_int \<Rightarrow> nat" where
  "mpv [] = 0"
| "mpv (w # ws) = unat w + 2 ^ 64 * mpv ws"

definition mp_word :: "mp_int \<Rightarrow> nat \<Rightarrow> BignumInt" where
  "mp_word x i = (if i < length x then x ! i else 0)"

definition shift_right_by_one_word :: "u64 \<Rightarrow> u64" where
  "shift_right_by_one_word n =
     (let shift_too_big = (BIGNUM_INT_BYTES \<ge> 8)
      in if shift_too_big then 0 else drop_bit (if shift_too_big then 0 else BIGNUM_INT_BITS) n)"

definition shift_left_by_one_word :: "u64 \<Rightarrow> u64" where
  "shift_left_by_one_word n =
     (let shift_too_big = (BIGNUM_INT_BYTES \<ge> 8)
      in if shift_too_big then 0 else push_bit (if shift_too_big then 0 else BIGNUM_INT_BITS) n)"

text \<open>A \<open>for\<close> loop over \<open>n\<close> words from \<open>i\<close> on, which stores a word at each position and carries a value.\<close>

fun for_words :: "(nat \<Rightarrow> 'c \<Rightarrow> BignumInt \<times> 'c) \<Rightarrow> nat \<Rightarrow> nat \<Rightarrow> 'c \<Rightarrow> mp_int \<times> 'c" where
  "for_words f i 0 c = ([], c)"
| "for_words f i (Suc n) c =
     (let (w, c1) = f i c; (ws, c2) = for_words f (Suc i) n c1 in (w # ws, c2))"

definition mp_make_sized :: "nat \<Rightarrow> mp_int option" where
  "mp_make_sized nw = (if nw = 0 then None else Some (replicate nw 0))"

definition mp_new :: "nat \<Rightarrow> mp_int option" where
  "mp_new maxbits = mp_make_sized ((maxbits + BIGNUM_INT_BITS - 1) div BIGNUM_INT_BITS)"

definition mp_from_integer :: "u64 \<Rightarrow> mp_int" where
  "mp_from_integer n =
     List.map (\<lambda>i. drop_bit (i * BIGNUM_INT_BITS) n) [0..<(8 + BIGNUM_INT_BYTES - 1) div BIGNUM_INT_BYTES]"

definition mp_max_bytes :: "mp_int \<Rightarrow> nat" where "mp_max_bytes x = length x * BIGNUM_INT_BYTES"
definition mp_max_bits :: "mp_int \<Rightarrow> nat" where "mp_max_bits x = length x * BIGNUM_INT_BITS"

definition mp_copy_into :: "nat \<Rightarrow> mp_int \<Rightarrow> mp_int" where
  "mp_copy_into nw src =
     (let copy_nw = min nw (length src) in take copy_nw src @ replicate (nw - copy_nw) 0)"

definition mp_copy_integer_into :: "nat \<Rightarrow> u64 \<Rightarrow> mp_int" where
  "mp_copy_integer_into nw n = fst (for_words (\<lambda>i n. (n, shift_right_by_one_word n)) 0 nw n)"

definition mp_select_into :: "nat \<Rightarrow> mp_int \<Rightarrow> mp_int \<Rightarrow> u32 \<Rightarrow> mp_int" where
  "mp_select_into nw src0 src1 which =
     (let mask = - (ucast (1 AND which) :: BignumInt)
      in List.map (\<lambda>i. let srcword0 = mp_word src0 i; srcword1 = mp_word src1 i
                       in srcword0 XOR ((srcword1 XOR srcword0) AND mask)) [0..<nw])"

definition mp_cond_swap :: "mp_int \<Rightarrow> mp_int \<Rightarrow> u32 \<Rightarrow> (mp_int \<times> mp_int) option" where
  "mp_cond_swap x0 x1 swap =
     (if length x0 \<noteq> length x1 then None
      else
        let mask = - (ucast (1 AND swap) :: BignumInt);
            diff = (\<lambda>i. (x0 ! i XOR x1 ! i) AND mask)
        in Some (List.map (\<lambda>i. x0 ! i XOR diff i) [0..<length x0], List.map (\<lambda>i. x1 ! i XOR diff i) [0..<length x0]))"

definition mp_clear :: "mp_int \<Rightarrow> mp_int" where "mp_clear x = replicate (length x) 0"

definition mp_cond_clear :: "mp_int \<Rightarrow> u32 \<Rightarrow> mp_int" where
  "mp_cond_clear x clear =
     (let mask = NOT (- (ucast (1 AND clear) :: BignumInt)) in List.map (\<lambda>w. w AND mask) x)"

definition mp_from_words :: "mp_int \<Rightarrow> mp_int option" where
  "mp_from_words w = map_option (\<lambda>_. w) (mp_make_sized (length w))"

definition mp_copy :: "mp_int \<Rightarrow> mp_int option" where
  "mp_copy x = mp_from_words x"

definition mp_make_alias :: "mp_int \<Rightarrow> nat \<Rightarrow> nat \<Rightarrow> mp_int" where
  "mp_make_alias x offset len =
     (let offset = (if offset > length x then length x else offset);
          len = (if len > length x - offset then length x - offset else len)
      in take len (drop offset x))"

definition normalise_to_1 :: "BignumInt \<Rightarrow> u32" where
  "normalise_to_1 n =
     (let n = drop_bit 1 n OR (n AND 1); n = drop_bit (BIGNUM_INT_BITS - 1) (- n) in ucast n)"

subsection \<open>Adding and subtracting\<close>

definition mp_add_masked_into ::
    "nat \<Rightarrow> mp_int \<Rightarrow> mp_int \<Rightarrow> BignumInt \<Rightarrow> BignumInt \<Rightarrow> BignumInt \<Rightarrow> mp_int \<times> BignumInt" where
  "mp_add_masked_into rw a b b_and b_xor carry =
     for_words
       (\<lambda>i carry. let aword = mp_word a i; bword = mp_word b i; bword = (bword AND b_and) XOR b_xor
                  in BignumADC aword bword carry) 0 rw carry"

definition mp_add_into_internal :: "nat \<Rightarrow> mp_int \<Rightarrow> mp_int \<Rightarrow> mp_int \<times> BignumInt" where
  "mp_add_into_internal rw a b = mp_add_masked_into rw a b (NOT 0) 0 0"

definition mp_add_into :: "nat \<Rightarrow> mp_int \<Rightarrow> mp_int \<Rightarrow> mp_int" where
  "mp_add_into rw a b = fst (mp_add_into_internal rw a b)"

definition mp_sub_into :: "nat \<Rightarrow> mp_int \<Rightarrow> mp_int \<Rightarrow> mp_int" where
  "mp_sub_into rw a b = fst (mp_add_masked_into rw a b (NOT 0) (NOT 0) 1)"

definition mp_and_into :: "nat \<Rightarrow> mp_int \<Rightarrow> mp_int \<Rightarrow> mp_int" where
  "mp_and_into rw a b = List.map (\<lambda>i. mp_word a i AND mp_word b i) [0..<rw]"

definition mp_or_into :: "nat \<Rightarrow> mp_int \<Rightarrow> mp_int \<Rightarrow> mp_int" where
  "mp_or_into rw a b = List.map (\<lambda>i. mp_word a i OR mp_word b i) [0..<rw]"

definition mp_xor_into :: "nat \<Rightarrow> mp_int \<Rightarrow> mp_int \<Rightarrow> mp_int" where
  "mp_xor_into rw a b = List.map (\<lambda>i. mp_word a i XOR mp_word b i) [0..<rw]"

definition mp_bic_into :: "nat \<Rightarrow> mp_int \<Rightarrow> mp_int \<Rightarrow> mp_int" where
  "mp_bic_into rw a b = List.map (\<lambda>i. mp_word a i AND NOT (mp_word b i)) [0..<rw]"

definition mp_cond_negate :: "nat \<Rightarrow> mp_int \<Rightarrow> u32 \<Rightarrow> mp_int" where
  "mp_cond_negate rw x yes =
     (let flip = - (ucast yes :: BignumInt)
      in fst (for_words (\<lambda>i carry. let xword = mp_word x i XOR flip in BignumADC 0 xword carry) 0 rw (ucast yes)))"

definition mp_add_masked_integer_into ::
    "nat \<Rightarrow> mp_int \<Rightarrow> u64 \<Rightarrow> BignumInt \<Rightarrow> BignumInt \<Rightarrow> BignumInt \<Rightarrow> mp_int \<times> BignumInt" where
  "mp_add_masked_integer_into rw a b b_and b_xor carry =
     (let (ws, c) =
        for_words
          (\<lambda>i (b, carry). let bword = (b XOR b_xor) AND b_and; (w, k) = BignumADC (mp_word a i) bword carry
                          in (w, (shift_right_by_one_word b, k))) 0 rw (b, carry)
      in (ws, snd c))"

definition mp_add_integer_into :: "nat \<Rightarrow> mp_int \<Rightarrow> u64 \<Rightarrow> mp_int" where
  "mp_add_integer_into rw a n = fst (mp_add_masked_integer_into rw a n (NOT 0) 0 0)"

definition mp_sub_integer_into :: "nat \<Rightarrow> mp_int \<Rightarrow> u64 \<Rightarrow> mp_int" where
  "mp_sub_integer_into rw a n = fst (mp_add_masked_integer_into rw a n (NOT 0) (NOT 0) 1)"

definition mp_add_integer_into_shifted_by_words :: "nat \<Rightarrow> mp_int \<Rightarrow> u64 \<Rightarrow> nat \<Rightarrow> mp_int" where
  "mp_add_integer_into_shifted_by_words rw a n word_index =
     fst (for_words
       (\<lambda>i (n, indicator, carry).
          let indicator = indicator OR (1 XOR normalise_to_1 (word_of_nat i XOR word_of_nat word_index));
              bword = n AND - (ucast indicator);
              new_n = shift_right_by_one_word n;
              n = n XOR ((n XOR new_n) AND - (ucast indicator));
              (out, carry) = BignumADC (mp_word a i) bword carry
          in (out, (n, indicator, carry))) 0 rw (n, 0 :: u32, 0))"

definition mp_mul_integer_into :: "nat \<Rightarrow> mp_int \<Rightarrow> u16 \<Rightarrow> mp_int option" where
  "mp_mul_integer_into rw a n =
     (let (ws, carry) =
        for_words (\<lambda>i carry. let (h, l) = BignumMULADD (mp_word a i) (ucast n) carry in (l, h)) 0 rw 0
      in if carry \<noteq> 0 then None else Some ws)"

definition mp_cond_add_into :: "nat \<Rightarrow> mp_int \<Rightarrow> mp_int \<Rightarrow> u32 \<Rightarrow> mp_int" where
  "mp_cond_add_into rw a b yes =
     (let mask = - (ucast (yes AND 1) :: BignumInt) in fst (mp_add_masked_into rw a b mask 0 0))"

definition mp_cond_sub_into :: "nat \<Rightarrow> mp_int \<Rightarrow> mp_int \<Rightarrow> u32 \<Rightarrow> mp_int" where
  "mp_cond_sub_into rw a b yes =
     (let mask = - (ucast (yes AND 1) :: BignumInt) in fst (mp_add_masked_into rw a b mask mask (1 AND mask)))"

definition mp_cmp_hs :: "mp_int \<Rightarrow> mp_int \<Rightarrow> u32" where
  "mp_cmp_hs a b = ucast (snd (mp_add_masked_into (max (length a) (length b)) a b (NOT 0) (NOT 0) 1))"

definition mp_hs_integer :: "mp_int \<Rightarrow> u64 \<Rightarrow> u32" where
  "mp_hs_integer x n =
     (let nwords = 8 div BIGNUM_INT_BYTES;
          (_, (_, carry)) =
            for_words
              (\<lambda>i (n, carry). let (w, k) = BignumADC (mp_word x i) (NOT n) carry
                              in (w, (shift_right_by_one_word n, k))) 0 (max (length x) nwords) (n, 1)
      in ucast carry)"

definition mp_cmp_eq :: "mp_int \<Rightarrow> mp_int \<Rightarrow> u32" where
  "mp_cmp_eq a b =
     1 XOR normalise_to_1
       (fold (\<lambda>i diff. diff OR (mp_word a i XOR mp_word b i)) [0..<max (length a) (length b)] 0)"

definition mp_eq_integer :: "mp_int \<Rightarrow> u64 \<Rightarrow> u32" where
  "mp_eq_integer x n =
     (let nwords = 8 div BIGNUM_INT_BYTES;
          (n, diff) =
            fold (\<lambda>i (n, diff). (shift_right_by_one_word n, diff OR (mp_word x i XOR n)))
              [0..<max (length x) nwords] (n, 0)
      in 1 XOR normalise_to_1 diff)"

definition mp_neg_into :: "nat \<Rightarrow> mp_int \<Rightarrow> mp_int" where
  "mp_neg_into rw a = mp_sub_into rw [] a"

definition mp_add :: "mp_int \<Rightarrow> mp_int \<Rightarrow> mp_int option" where
  "mp_add x y =
     (case mp_make_sized (max (length x) (length y) + 1) of
        None \<Rightarrow> None | Some r \<Rightarrow> Some (mp_add_into (length r) x y))"

definition mp_sub :: "mp_int \<Rightarrow> mp_int \<Rightarrow> mp_int option" where
  "mp_sub x y =
     (case mp_make_sized (max (length x) (length y)) of
        None \<Rightarrow> None | Some r \<Rightarrow> Some (mp_sub_into (length r) x y))"

definition mp_min_into :: "nat \<Rightarrow> mp_int \<Rightarrow> mp_int \<Rightarrow> mp_int" where
  "mp_min_into rw x y = mp_select_into rw x y (mp_cmp_hs x y)"

definition mp_max_into :: "nat \<Rightarrow> mp_int \<Rightarrow> mp_int \<Rightarrow> mp_int" where
  "mp_max_into rw x y = mp_select_into rw y x (mp_cmp_hs x y)"

definition mp_min :: "mp_int \<Rightarrow> mp_int \<Rightarrow> mp_int option" where
  "mp_min x y =
     (case mp_make_sized (min (length x) (length y)) of None \<Rightarrow> None | Some r \<Rightarrow> Some (mp_min_into (length r) x y))"

definition mp_max :: "mp_int \<Rightarrow> mp_int \<Rightarrow> mp_int option" where
  "mp_max x y =
     (case mp_make_sized (max (length x) (length y)) of None \<Rightarrow> None | Some r \<Rightarrow> Some (mp_max_into (length r) x y))"

subsection \<open>Values\<close>

lemma mpv_append [simp]: "mpv (xs @ ys) = mpv xs + 2 ^ (64 * length xs) * mpv ys"
  by (induction xs) (simp_all add: power_add algebra_simps)

lemma mpv_bound: "mpv xs < 2 ^ (64 * length xs)"
proof (induction xs)
  case (Cons x xs)
  then have "mpv xs + 1 \<le> 2 ^ (64 * length xs)" by simp
  then have "2 ^ 64 * (mpv xs + 1) \<le> 2 ^ 64 * (2 :: nat) ^ (64 * length xs)" by (rule mult_le_mono2)
  moreover have "2 ^ (64 * length (x # xs)) = 2 ^ 64 * (2 :: nat) ^ (64 * length xs)" by (simp add: power_add)
  ultimately show ?case using unat_bignum [of x] by simp
qed simp

lemma mpv_replicate [simp]: "mpv (replicate n 0) = 0"
  by (induction n) simp_all

lemma mpv_split: "mpv x = mpv (take n x) + 2 ^ (64 * min n (length x)) * mpv (drop n x)"
proof -
  have "mpv (take n x @ drop n x) = mpv (take n x) + 2 ^ (64 * length (take n x)) * mpv (drop n x)" by (rule mpv_append)
  then show ?thesis by (simp add: min.commute)
qed

lemma mpv_take: "mpv (take n x) = mpv x mod 2 ^ (64 * n)"
proof (cases "n \<le> length x")
  case True
  then have "mpv (take n x) < 2 ^ (64 * n)" using mpv_bound [of "take n x"] by simp
  then show ?thesis using mpv_split [of x n] True by (simp add: min_absorb1)
next
  case False
  then have "mpv x < 2 ^ (64 * n)"
    by (intro less_le_trans [OF mpv_bound] power_increasing) simp_all
  then show ?thesis using False by simp
qed

lemma mpv_drop: "mpv (drop n x) = mpv x div 2 ^ (64 * n)"
proof (cases "n \<le> length x")
  case True
  then have "mpv (take n x) < 2 ^ (64 * n)" using mpv_bound [of "take n x"] by simp
  then show ?thesis using mpv_split [of x n] True by (simp add: min_absorb1)
next
  case False
  then have "mpv x < 2 ^ (64 * n)"
    by (intro less_le_trans [OF mpv_bound] power_increasing) simp_all
  then show ?thesis using False by simp
qed

lemma mp_word_Nil [simp]: "mp_word [] i = 0"
  by (simp add: mp_word_def)

lemma mp_words: "List.map (mp_word x) [0..<n] = take n x @ replicate (n - length x) 0"
  by (rule nth_equalityI) (auto simp: mp_word_def nth_append)

lemma mpv_mp_words [simp]: "mpv (List.map (mp_word x) [0..<n]) = mpv x mod 2 ^ (64 * n)"
  by (simp add: mp_words mpv_take)

lemma mpv_mod_self [simp]: "length x \<le> n \<Longrightarrow> mpv x mod 2 ^ (64 * n) = mpv x"
  using mpv_take [of n x] by simp

lemma mp_make_alias_eq [simp]: "mp_make_alias x offset len = take len (drop offset x)"
  by (simp add: mp_make_alias_def Let_def)

lemma mp_copy_into_facts [simp]: "length (mp_copy_into nw x) = nw" "mpv (mp_copy_into nw x) = mpv x mod 2 ^ (64 * nw)"
proof -
  have "mp_copy_into nw x = take nw x @ replicate (nw - length x) 0"
    by (cases "nw \<le> length x") (simp_all add: mp_copy_into_def Let_def min_def)
  then show "length (mp_copy_into nw x) = nw" "mpv (mp_copy_into nw x) = mpv x mod 2 ^ (64 * nw)"
    by (simp_all add: mpv_take)
qed

lemma mp_make_sized_Some: "mp_make_sized nw = Some r \<longleftrightarrow> nw \<noteq> 0 \<and> r = replicate nw 0"
  by (auto simp: mp_make_sized_def)

lemma length_for_words [simp]: "length (fst (for_words f i n c)) = n"
  by (induction n arbitrary: i c) (simp_all split: prod.split, metis fst_conv)

lemma uint_NOT: "uint (NOT (x :: BignumInt)) = 2 ^ 64 - 1 - uint x"
proof -
  have "uint (NOT x) = (- uint x - 1) mod 2 ^ 64"
  proof -
    have "NOT x = - x - 1" by (simp add: minus_eq_not_plus_1)
    then show ?thesis by (simp add: uint_word_ariths mod_diff_left_eq)
  qed
  also have "\<dots> = (- uint x - 1 + 2 ^ 64) mod 2 ^ 64" by (simp only: mod_add_self2)
  also have "\<dots> = - uint x - 1 + 2 ^ 64"
  proof -
    have "- 1 < uint x" using uint_ge_0 [of x] by linarith
    then show ?thesis using uint_lt2p [of x] by (intro mod_pos_pos_trivial) simp_all
  qed
  finally show ?thesis by simp
qed

lemma unat_NOT: "unat (NOT (x :: BignumInt)) = 2 ^ 64 - 1 - unat x"
proof -
  have "int (unat (NOT x)) = int (2 ^ 64 - 1 - unat x)"
    using uint_NOT [of x] unat_bignum [of x] by (simp add: of_nat_diff)
  then show ?thesis by (simp only: of_nat_eq_iff)
qed

lemma unat_uminus: "x \<noteq> 0 \<Longrightarrow> unat (- (x :: BignumInt)) = 2 ^ 64 - unat x"
proof -
  assume "x \<noteq> 0"
  then have p: "0 < uint x" by (metis uint_0_iff uint_ge_0 order_le_less)
  have "uint (- x) = (- uint x + 2 ^ 64) mod 2 ^ 64" by (simp add: uint_word_ariths)
  also have "\<dots> = - uint x + 2 ^ 64" using p uint_lt2p [of x] by (intro mod_pos_pos_trivial) simp_all
  finally have "int (unat (- x)) = int (2 ^ 64 - unat x)" using unat_bignum [of x] by (simp add: of_nat_diff)
  then show ?thesis by (simp only: of_nat_eq_iff)
qed

lemma mpv_complement: "mpv (List.map (\<lambda>i. NOT (f i)) [i..<i + n]) + mpv (List.map f [i..<i + n]) + 1 = 2 ^ (64 * n)"
proof (induction n)
  case (Suc n)
  have "2 ^ (64 * n) * unat (NOT (f (i + n))) + 2 ^ (64 * n) * unat (f (i + n)) = 2 ^ (64 * n) * (2 ^ 64 - 1)"
    using unat_bignum [of "f (i + n)"] by (simp add: unat_NOT flip: distrib_left)
  moreover have "(2 :: nat) ^ (64 * Suc n) = 2 ^ (64 * n) * (2 ^ 64 - 1) + 2 ^ (64 * n)"
    by (simp add: power_add)
  ultimately show ?case using Suc.IH by simp
qed simp

subsection \<open>Masks\<close>

lemma bit_mask: "x XOR ((y XOR x) AND - (0 :: BignumInt)) = x" "x XOR ((y XOR x) AND - (1 :: BignumInt)) = y"
  by (simp_all add: xor.assoc xor.commute [of y x] flip: xor.assoc)

lemma unat_le_63: "bit (x :: BignumInt) 63 \<longleftrightarrow> 2 ^ 63 \<le> unat x"
proof -
  have "bit x 63 \<longleftrightarrow> bit (unat x) 63" by (simp add: bit_unsigned_iff)
  then have "bit x 63 \<longleftrightarrow> odd (unat x div 2 ^ 63)" by (simp only: bit_iff_odd)
  moreover have "unat x div 2 ^ 63 < 2" using unat_bignum [of x] by (intro less_mult_imp_div_less) simp
  ultimately show ?thesis by (cases "unat x div 2 ^ 63 = 0") (auto simp: div_eq_0_iff less_2_cases_iff)
qed

lemma drop_bit_63: "drop_bit 63 (x :: BignumInt) = (if 2 ^ 63 \<le> unat x then 1 else 0)"
proof -
  have "unat x div 2 ^ 63 < 2" using unat_bignum [of x] by (intro less_mult_imp_div_less) simp
  moreover have "unat (drop_bit 63 x) = unat x div 2 ^ 63" by (simp add: drop_bit_eq_div unat_div)
  moreover have "unat x div 2 ^ 63 = 0 \<longleftrightarrow> \<not> 2 ^ 63 \<le> unat x" by (simp add: div_eq_0_iff not_le)
  ultimately show ?thesis by (auto simp: word_unat_eq_iff)
qed

lemma top_bit_neg: "unat x < 2 ^ 63 \<Longrightarrow> drop_bit 63 (- x :: BignumInt) = (if x = 0 then 0 else 1)"
  by (auto simp: drop_bit_63 unat_uminus)

lemma normalise_to_1: "normalise_to_1 n = (if n = 0 then 0 else 1)"
proof -
  let ?m = "drop_bit 1 n OR (n AND 1)"
  have "\<not> bit ?m 63" by (auto simp: bit_or_iff bit_drop_bit_eq bit_and_iff bit_1_iff dest: bit_imp_le_length)
  then have "unat ?m < 2 ^ 63" by (simp add: unat_le_63 not_le)
  moreover have "?m = 0 \<longleftrightarrow> n = 0"
  proof
    assume "?m = 0"
    then have "\<not> bit ?m k" for k by simp
    then have *: "\<not> bit (drop_bit 1 n) k \<and> \<not> bit (n AND 1) k" for k by (metis bit_or_iff)
    have "\<not> bit n k" for k using * [of "k - 1"] * [of 0] by (cases k) (auto simp: bit_drop_bit_eq bit_and_iff)
    then show "n = 0" by (intro bit_eqI) simp
  qed simp
  ultimately show ?thesis by (simp add: normalise_to_1_def Let_def top_bit_neg)
qed

subsection \<open>Sums and differences\<close>

lemma for_words_adc:
  assumes "for_words (\<lambda>i c. BignumADC (g i) (h i) c) i n c = (ws, k)"
  shows "mpv ws + 2 ^ (64 * n) * unat k = mpv (List.map g [i..<i + n]) + mpv (List.map h [i..<i + n]) + unat c"
  using assms
proof (induction n arbitrary: i c ws)
  case (Suc n)
  obtain w c1 where w: "BignumADC (g i) (h i) c = (w, c1)" by fastforce
  obtain ws1 where ws1: "for_words (\<lambda>i c. BignumADC (g i) (h i) c) (Suc i) n c1 = (ws1, k)" "ws = w # ws1"
    using Suc.prems by (auto simp: w split: prod.splits)
  from Suc.IH [OF ws1(1)] have ih: "mpv ws1 + 2 ^ (64 * n) * unat k =
      mpv (List.map g [Suc i..<i + Suc n]) + mpv (List.map h [Suc i..<i + Suc n]) + unat c1" by simp
  have u: "[i..<i + Suc n] = i # [Suc i..<i + Suc n]" by (simp add: upt_conv_Cons)
  have "mpv ws + 2 ^ (64 * Suc n) * unat k = unat w + 2 ^ 64 * (mpv ws1 + 2 ^ (64 * n) * unat k)"
    by (simp add: ws1(2) power_add algebra_simps)
  also have "\<dots> = unat w + 2 ^ 64 * unat c1 +
      2 ^ 64 * (mpv (List.map g [Suc i..<i + Suc n]) + mpv (List.map h [Suc i..<i + Suc n]))"
    unfolding ih by (simp add: algebra_simps)
  finally show ?case unfolding BignumADC_eq [OF w] u by (simp add: algebra_simps)
qed simp

lemma carry_bound:
  assumes "x + 2 ^ n * k = a + b + (c :: nat)" and "x < 2 ^ n" and "a < 2 ^ n" and "b < 2 ^ n" and "c \<le> 1"
  shows "k \<le> 1" and "x = (a + b + c) mod 2 ^ n" and "k = (a + b + c) div 2 ^ n"
proof -
  show "x = (a + b + c) mod 2 ^ n" "k = (a + b + c) div 2 ^ n" using assms(2) unfolding assms(1) [symmetric] by simp_all
  have "2 ^ n * k < 2 ^ n * 2" using assms by linarith
  then show "k \<le> 1" by simp
qed

lemma mpv_map_bound: "mpv (List.map f [i..<i + n]) < 2 ^ (64 * n)"
  using mpv_bound [of "List.map f [i..<i + n]"] by simp

text \<open>The words of \<open>b\<close> after masking: \<open>b\<close> itself, its complement, or nothing.\<close>

lemma masked_add:
  assumes "mp_add_masked_into rw a b m x c = (ws, k)" and "unat c \<le> 1"
    and "mpv (List.map (\<lambda>i. (mp_word b i AND m) XOR x) [0..<rw]) = v"
  shows "length ws = rw" and "mpv ws = (mpv a + v + unat c) mod 2 ^ (64 * rw)"
    and "unat k = (mpv a mod 2 ^ (64 * rw) + v + unat c) div 2 ^ (64 * rw)" and "unat k \<le> 1"
proof -
  let ?h = "\<lambda>i. (mp_word b i AND m) XOR x"
  from assms(1) have f: "for_words (\<lambda>i c. BignumADC (mp_word a i) (?h i) c) 0 rw c = (ws, k)"
    by (simp add: mp_add_masked_into_def Let_def)
  from length_for_words [of "\<lambda>i c. BignumADC (mp_word a i) (?h i) c" 0 rw c] show l: "length ws = rw"
    unfolding f by simp
  have e: "mpv ws + 2 ^ (64 * rw) * unat k = mpv a mod 2 ^ (64 * rw) + v + unat c"
    using for_words_adc [OF f] assms(3) by simp
  have v: "v < 2 ^ (64 * rw)" using mpv_map_bound [of ?h 0 rw] assms(3) by simp
  have w: "mpv ws < 2 ^ (64 * rw)" using mpv_bound [of ws] l by simp
  note cb = carry_bound [OF e w _ v assms(2)]
  show "unat k \<le> 1" "unat k = (mpv a mod 2 ^ (64 * rw) + v + unat c) div 2 ^ (64 * rw)" using cb by simp_all
  show "mpv ws = (mpv a + v + unat c) mod 2 ^ (64 * rw)"
    using cb(2) by (simp add: add.assoc mod_add_left_eq)
qed

lemma masked_none: "mpv (List.map (\<lambda>i. (mp_word b i AND 0) XOR 0) [0..<rw]) = 0"
  by (induction rw) simp_all

lemma masked_all: "mpv (List.map (\<lambda>i. (mp_word b i AND NOT 0) XOR 0) [0..<rw]) = mpv b mod 2 ^ (64 * rw)"
proof -
  have "(\<lambda>i. (mp_word b i AND NOT 0) XOR 0) = mp_word b" by simp
  then show ?thesis by (simp only: mpv_mp_words)
qed

lemma masked_flip: "mpv (List.map (\<lambda>i. (mp_word b i AND NOT 0) XOR NOT 0) [0..<rw]) = 2 ^ (64 * rw) - 1 - mpv b mod 2 ^ (64 * rw)"
proof -
  have "(\<lambda>i. (mp_word b i AND NOT 0) XOR NOT 0) = (\<lambda>i. NOT (mp_word b i))" by simp
  then show ?thesis using mpv_complement [of "mp_word b" 0 rw] by simp
qed

lemma mp_add_into: "length (mp_add_into rw a b) = rw" "mpv (mp_add_into rw a b) = (mpv a + mpv b) mod 2 ^ (64 * rw)"
proof -
  obtain ws k where w: "mp_add_masked_into rw a b (NOT 0) 0 0 = (ws, k)" by fastforce
  note m = masked_add [OF w _ masked_all]
  show "length (mp_add_into rw a b) = rw" using m(1) unfolding mp_add_into_def mp_add_into_internal_def w by simp
  show "mpv (mp_add_into rw a b) = (mpv a + mpv b) mod 2 ^ (64 * rw)"
    using m(2) unfolding mp_add_into_def mp_add_into_internal_def w by (simp add: mod_add_right_eq)
qed

lemma neg_carry: "0 < (N :: nat) \<Longrightarrow> a < N \<Longrightarrow> b < N \<Longrightarrow> (a + (N - 1 - b) + 1) div N = (if b \<le> a then 1 else 0)"
proof -
  assume n: "0 < N" "a < N" "b < N"
  show ?thesis
  proof (cases "b \<le> a")
    case True
    then have "a + (N - 1 - b) + 1 = (a - b) + N" using n by simp
    moreover have "((a - b) + N) div N = 1" using n by (simp only: div_add_self2) simp
    ultimately show ?thesis using True by (simp only: if_True)
  next
    case False
    then show ?thesis using n by simp
  qed
qed

lemma sub_value: "0 < (N :: nat) \<Longrightarrow> int ((a + (N - 1 - b mod N) + 1) mod N) = (int a - int b) mod int N"
proof -
  assume n: "0 < N"
  then have "b mod N < N" by simp
  then have "int (N - 1 - b mod N) = int N - 1 - int (b mod N)" by linarith
  then have "int (a + (N - 1 - b mod N) + 1) = int a + int N - int (b mod N)" by simp
  then have "int ((a + (N - 1 - b mod N) + 1) mod N) = (int a - int b mod int N + int N) mod int N"
    by (simp only: zmod_int) (simp add: algebra_simps)
  also have "\<dots> = (int a - int b mod int N) mod int N" by (rule mod_add_self2)
  finally show ?thesis by (simp add: mod_diff_right_eq)
qed

lemma mp_sub_into:
  "length (mp_sub_into rw a b) = rw" "int (mpv (mp_sub_into rw a b)) = (int (mpv a) - int (mpv b)) mod 2 ^ (64 * rw)"
proof -
  obtain ws k where w: "mp_add_masked_into rw a b (NOT 0) (NOT 0) 1 = (ws, k)" by fastforce
  note m = masked_add [OF w _ masked_flip]
  show "length (mp_sub_into rw a b) = rw" using m(1) unfolding mp_sub_into_def w by simp
  show "int (mpv (mp_sub_into rw a b)) = (int (mpv a) - int (mpv b)) mod 2 ^ (64 * rw)"
    using m(2) sub_value [of "2 ^ (64 * rw)" "mpv a" "mpv b"] unfolding mp_sub_into_def w by simp
qed

lemma mp_sub_into_le: "mpv b \<le> mpv a \<Longrightarrow> mpv (mp_sub_into rw a b) = (mpv a - mpv b) mod 2 ^ (64 * rw)"
proof -
  assume "mpv b \<le> mpv a"
  then have "int (mpv (mp_sub_into rw a b)) = int ((mpv a - mpv b) mod 2 ^ (64 * rw))"
    by (simp add: mp_sub_into(2) of_nat_diff zmod_int)
  then show ?thesis by (simp only: of_nat_eq_iff)
qed

lemma unat_le_1: "unat (k :: BignumInt) \<le> 1 \<Longrightarrow> unat k = (if P then 1 else 0) \<Longrightarrow> k = (if P then 1 else 0)"
  by (auto simp: word_unat_eq_iff split: if_splits)

lemma mp_cmp_hs: "mp_cmp_hs a b = (if mpv b \<le> mpv a then 1 else 0)"
proof -
  let ?n = "max (length a) (length b)"
  obtain ws k where w: "mp_add_masked_into ?n a b (NOT 0) (NOT 0) 1 = (ws, k)" by fastforce
  note m = masked_add [OF w _ masked_flip]
  have "mpv a < 2 ^ (64 * ?n)" "mpv b < 2 ^ (64 * ?n)"
    by (intro less_le_trans [OF mpv_bound] power_increasing; simp)+
  then have "unat k = (if mpv b \<le> mpv a then 1 else 0)"
    using m(3) neg_carry [of "2 ^ (64 * ?n)" "mpv a" "mpv b"] by simp
  with m(4) have "k = (if mpv b \<le> mpv a then 1 else 0)" by (intro unat_le_1) simp_all
  then show ?thesis unfolding mp_cmp_hs_def w by simp
qed

text \<open>The masks made of a condition.\<close>

lemma and_one_cases: "(y AND 1 = (0 :: u32)) \<or> (y AND 1 = (1 :: u32))"
  by (simp add: and_one_eq mod2_eq_if)

lemma mp_cond_add_into:
  "length (mp_cond_add_into rw a b yes) = rw"
  "mpv (mp_cond_add_into rw a b yes) = (mpv a + (if yes AND 1 = 1 then mpv b else 0)) mod 2 ^ (64 * rw)"
proof -
  let ?m = "- (ucast (yes AND 1) :: BignumInt)"
  obtain ws k where w: "mp_add_masked_into rw a b ?m 0 0 = (ws, k)" by fastforce
  have "length ws = rw \<and> mpv ws = (mpv a + (if yes AND 1 = 1 then mpv b else 0)) mod 2 ^ (64 * rw)"
  proof (cases "yes AND 1 = 1")
    case True
    then have "?m = NOT 0" by simp
    with masked_add [OF w, of "mpv b mod 2 ^ (64 * rw)"] masked_all [of b rw] True show ?thesis
      by (simp add: mod_add_right_eq)
  next
    case False
    with and_one_cases [of yes] have "yes AND 1 = 0" by simp
    with masked_add [OF w, of 0] masked_none [of b rw] False show ?thesis by simp
  qed
  then show "length (mp_cond_add_into rw a b yes) = rw"
    "mpv (mp_cond_add_into rw a b yes) = (mpv a + (if yes AND 1 = 1 then mpv b else 0)) mod 2 ^ (64 * rw)"
    by (simp_all add: mp_cond_add_into_def w)
qed

lemma mp_cond_sub_into:
  "length (mp_cond_sub_into rw a b yes) = rw"
  "int (mpv (mp_cond_sub_into rw a b yes)) = (int (mpv a) - (if yes AND 1 = 1 then int (mpv b) else 0)) mod 2 ^ (64 * rw)"
proof -
  let ?m = "- (ucast (yes AND 1) :: BignumInt)"
  obtain ws k where w: "mp_add_masked_into rw a b ?m ?m (1 AND ?m) = (ws, k)" by fastforce
  have "length ws = rw \<and> int (mpv ws) = (int (mpv a) - (if yes AND 1 = 1 then int (mpv b) else 0)) mod 2 ^ (64 * rw)"
  proof (cases "yes AND 1 = 1")
    case True
    then have "?m = NOT 0" by simp
    with masked_add [OF w, of "2 ^ (64 * rw) - 1 - mpv b mod 2 ^ (64 * rw)"] masked_flip [of b rw] True
      sub_value [of "2 ^ (64 * rw)" "mpv a" "mpv b"] show ?thesis by simp
  next
    case False
    with and_one_cases [of yes] have "yes AND 1 = 0" by simp
    with masked_add [OF w, of 0] masked_none [of b rw] False show ?thesis by (simp add: zmod_int)
  qed
  then show "length (mp_cond_sub_into rw a b yes) = rw"
    "int (mpv (mp_cond_sub_into rw a b yes)) = (int (mpv a) - (if yes AND 1 = 1 then int (mpv b) else 0)) mod 2 ^ (64 * rw)"
    by (simp_all add: mp_cond_sub_into_def w)
qed

lemma mp_neg_into: "length (mp_neg_into rw a) = rw" "int (mpv (mp_neg_into rw a)) = (- int (mpv a)) mod 2 ^ (64 * rw)"
  using mp_sub_into [of rw "[]" a] by (simp_all add: mp_neg_into_def)

lemma xor_swap: "x XOR (y XOR x) = (y :: BignumInt)" "(x XOR y) XOR x = (y :: BignumInt)"
  by (rule bit_eqI; auto simp: bit_xor_iff)+

lemma mp_select_into: "mp_select_into nw a b which = mp_copy_into nw (if which AND 1 = 1 then b else a)"
proof -
  have e: "mp_copy_into nw x = List.map (mp_word x) [0..<nw]" for x
    by (cases "nw \<le> length x") (simp_all add: mp_copy_into_def mp_words Let_def min_def)
  have a: "1 AND which = which AND 1" by (rule and.commute)
  show ?thesis
    using and_one_cases [of which] by (auto simp: mp_select_into_def e a xor_swap Let_def)
qed

subsection \<open>Properties\<close>

lemma fold_diff: "fold (\<lambda>i d. d OR (f i :: BignumInt)) is d = 0 \<longleftrightarrow> d = 0 \<and> (\<forall>i \<in> set is. f i = 0)"
  by (induction "is" arbitrary: d) (auto simp: or_eq_0_iff)

lemma mpv_eq_words: "mpv x = mpv y \<longleftrightarrow> (\<forall>i < max (length x) (length y). mp_word x i = mp_word y i)"
proof -
  have inj: "length u = length v \<Longrightarrow> mpv u = mpv v \<longleftrightarrow> u = v" for u v
  proof (induction u v rule: list_induct2)
    case (Cons a u b v)
    have "mpv (a # u) = mpv (b # v) \<longleftrightarrow> unat a = unat b \<and> mpv u = mpv v"
    proof
      assume e: "mpv (a # u) = mpv (b # v)"
      have "mpv (a # u) mod 2 ^ 64 = unat a" "mpv (b # v) mod 2 ^ 64 = unat b" using unat_bignum by simp_all
      then have "unat a = unat b" using e by metis
      then show "unat a = unat b \<and> mpv u = mpv v" using e by simp
    qed simp
    then show ?case using Cons.IH by (simp add: word_unat_eq_iff)
  qed simp
  let ?n = "max (length x) (length y)"
  have "mpv x = mpv y \<longleftrightarrow> mpv (List.map (mp_word x) [0..<?n]) = mpv (List.map (mp_word y) [0..<?n])"
    unfolding mpv_mp_words by (simp only: mpv_mod_self max.cobounded1 max.cobounded2)
  also have "\<dots> \<longleftrightarrow> List.map (mp_word x) [0..<?n] = List.map (mp_word y) [0..<?n]" by (rule inj) simp
  also have "\<dots> \<longleftrightarrow> (\<forall>i < ?n. mp_word x i = mp_word y i)" by (simp only: map_eq_conv set_upt Ball_def atLeastLessThan_iff le0 simp_thms)
  finally show ?thesis .
qed

lemma xor_eq_0: "x XOR y = 0 \<longleftrightarrow> x = (y :: BignumInt)"
proof
  assume "x XOR y = 0"
  then have "(x XOR y) XOR y = 0 XOR y" by simp
  then show "x = y" by (simp add: xor.assoc)
qed simp

lemma mp_cmp_eq: "mp_cmp_eq a b = (if mpv a = mpv b then 1 else 0)"
proof -
  let ?d = "fold (\<lambda>i d. d OR (mp_word a i XOR mp_word b i)) [0..<max (length a) (length b)] 0"
  have "?d = 0 \<longleftrightarrow> mpv a = mpv b" by (auto simp: fold_diff mpv_eq_words xor_eq_0)
  then show ?thesis by (simp add: mp_cmp_eq_def normalise_to_1)
qed

text \<open>C33: Addition and subtraction of multiprecision integers agree with the numbers: \<open>mp_add\<close> always
  returns the exact sum (its result has a word more than the longer operand, so the last carry is never
  lost), subtracting an operand from it gives back the value of the other, and the constant-time
  comparisons \<open>mp_cmp_hs\<close> and \<open>mp_cmp_eq\<close> decide the order and the equality of the values, whatever the
  lengths of the operands.\<close>

theorem mp_add_sub_cmp:
  "\<exists>r s. mp_add x y = Some r \<and> length r = max (length x) (length y) + 1 \<and> mpv r = mpv x + mpv y \<and>
     mp_sub r y = Some s \<and> mpv s = mpv x \<and>
     mp_cmp_hs x y = (if mpv y \<le> mpv x then 1 else 0) \<and> mp_cmp_eq x y = (if mpv x = mpv y then 1 else 0)"
proof -
  let ?n = "max (length x) (length y) + 1"
  let ?r = "mp_add_into ?n x y"
  have b: "mpv x < 2 ^ (64 * max (length x) (length y))" "mpv y < 2 ^ (64 * max (length x) (length y))"
    by (intro less_le_trans [OF mpv_bound] power_increasing; simp)+
  then have "mpv x + mpv y < 2 * 2 ^ (64 * max (length x) (length y))" by simp
  also have "\<dots> \<le> 2 ^ (64 * ?n)" by (simp flip: power_Suc)
  finally have lt: "mpv x + mpv y < 2 ^ (64 * ?n)" .
  then have r: "length ?r = ?n" "mpv ?r = mpv x + mpv y" by (simp_all only: mp_add_into mod_less)
  have add: "mp_add x y = Some ?r" by (simp add: mp_add_def mp_make_sized_def)
  have m: "max ?n (length y) = ?n" by simp
  have sub: "mp_sub ?r y = Some (mp_sub_into ?n ?r y)" unfolding mp_sub_def r m by (simp add: mp_make_sized_def)
  have "mpv (mp_sub_into ?n ?r y) = mpv x"
    using lt r(2) mpv_bound [of x] by (subst mp_sub_into_le) (simp_all only: le_add2 add_diff_cancel_right' mod_less)
  with add r sub show ?thesis by (auto simp only: mp_cmp_hs mp_cmp_eq)
qed

end
