(* ===== verification/MpMul.thy ===== *)
theory MpMul
  imports Mpint
begin

text \<open>
  Multiplication and shifts of multiprecision integers (\<open>crypto/mpint.c\<close>): the schoolbook loops,
  Karatsuba with its scratch space, and the fixed shifts. Scratch space is the number of words that
  are left; the assertions that check it are modelled.
\<close>

subsection \<open>Schoolbook multiplication\<close>

text \<open>One pass of the outer loop, on the words of \<open>r\<close> from \<open>rp\<close> on.\<close>

fun mul_row :: "BignumInt \<Rightarrow> mp_int \<Rightarrow> mp_int \<Rightarrow> BignumInt \<Rightarrow> mp_int" where
  "mul_row adata (bdata # bs) (rq # rs) carry =
     (let (carry, w) = BignumMULADD2 adata bdata rq carry in w # mul_row adata bs rs carry)"
| "mul_row adata [] (rq # rs) carry =
     (let (w, carry) = BignumADC carry rq 0 in w # mul_row adata [] rs carry)"
| "mul_row adata bs [] carry = []"

fun mp_mul_add_simple :: "mp_int \<Rightarrow> mp_int \<Rightarrow> mp_int \<Rightarrow> mp_int" where
  "mp_mul_add_simple (r # rs) (adata # as) b =
     (let row = mul_row adata b (r # rs) 0 in hd row # mp_mul_add_simple (tl row) as b)"
| "mp_mul_add_simple r as b = r"

definition mp_mul_scratchspace_unary :: "nat \<Rightarrow> nat" where
  "mp_mul_scratchspace_unary n = n * 6"

definition mp_mul_scratchspace :: "nat \<Rightarrow> nat \<Rightarrow> nat \<Rightarrow> nat" where
  "mp_mul_scratchspace rw aw bw = (let inlen = min rw (max aw bw) in mp_mul_scratchspace_unary inlen)"

definition KARATSUBA_THRESHOLD :: nat where "KARATSUBA_THRESHOLD = 24"

text \<open>\<open>mp_alloc_from_scratch\<close>, as far as the size of the pool goes.\<close>

definition mp_alloc_from_scratch :: "nat \<Rightarrow> nat \<Rightarrow> nat option" where
  "mp_alloc_from_scratch pool len = (if len \<le> pool then Some (pool - len) else None)"

text \<open>Adding a number to the words of \<open>r\<close> from \<open>offset\<close> on, through an alias.\<close>

definition add_at :: "mp_int \<Rightarrow> nat \<Rightarrow> mp_int \<Rightarrow> mp_int" where
  "add_at r offset s =
     (let r1 = mp_make_alias r offset (length r) in take offset r @ mp_add_into (length r1) r1 s)"

lemma karatsuba_smaller:
  assumes "inlen = min rw (max la lb)" and "\<not> (inlen < KARATSUBA_THRESHOLD \<or> la = 0 \<or> lb = 0)"
    and "toplen = inlen div 2" and "botlen = inlen - toplen" and "max la' lb' \<le> botlen + 1"
  shows "min rw' (max la' lb') < min rw (max la lb)"
proof -
  have "24 \<le> inlen" using assms(2) by (simp add: KARATSUBA_THRESHOLD_def)
  then have "botlen + 1 < inlen" using assms(3,4) by simp
  then show ?thesis using assms(1,5) by linarith
qed

lemma length_mp_make_alias_le: "length (mp_make_alias x i n) \<le> n"
  by (simp add: mp_make_alias_def Let_def)

lemma alias_lengths:
  assumes "x = mp_make_alias a i k" and "y = mp_make_alias b j l" and "k \<le> n" and "l \<le> n"
  shows "max (length x) (length y) \<le> n + 1"
  using length_mp_make_alias_le [of a i k] length_mp_make_alias_le [of b j l] assms(3,4) unfolding assms(1,2) by linarith

lemma sum_lengths:
  assumes "x = mp_add_into (n + 1) a b" and "y = mp_add_into (n + 1) c d"
  shows "max (length x) (length y) \<le> n + 1"
  by (simp add: assms mp_add_into)

lemma botlen_ge: "toplen = inlen div 2 \<Longrightarrow> botlen = inlen - toplen \<Longrightarrow> toplen \<le> (botlen :: nat)"
  by simp

function mp_mul_internal :: "nat \<Rightarrow> mp_int \<Rightarrow> mp_int \<Rightarrow> nat \<Rightarrow> mp_int option" where
  "mp_mul_internal rw a b scratch =
     (let inlen = min rw (max (length a) (length b)) in
      if \<not> scratch \<ge> mp_mul_scratchspace_unary inlen then None
      else if inlen < KARATSUBA_THRESHOLD \<or> length a = 0 \<or> length b = 0
      then Some (mp_mul_add_simple (replicate rw 0) a b)
      else
        let toplen = inlen div 2; botlen = inlen - toplen;
            a0 = mp_make_alias a 0 botlen; b0 = mp_make_alias b 0 botlen;
            a1 = mp_make_alias a botlen toplen; b1 = mp_make_alias b botlen toplen;
            r0w = min rw (botlen * 2); r1w = rw - botlen; r2w = rw - botlen * 2
        in case mp_mul_internal r0w a0 b0 scratch of None \<Rightarrow> None | Some r0 \<Rightarrow>
          (case mp_mul_internal r2w a1 b1 scratch of None \<Rightarrow> None | Some r2 \<Rightarrow>
            if rw < inlen * 2 then
              let sw = min (botlen + toplen) r1w in
              case mp_alloc_from_scratch scratch sw of None \<Rightarrow> None | Some scratch \<Rightarrow>
              (case mp_mul_internal sw a0 b1 scratch of None \<Rightarrow> None | Some s \<Rightarrow>
                let r = add_at (r0 @ r2) botlen s in
                (case mp_mul_internal sw a1 b0 scratch of None \<Rightarrow> None | Some s \<Rightarrow>
                  Some (add_at r botlen s)))
            else
              (case mp_alloc_from_scratch scratch (botlen + 1) of None \<Rightarrow> None | Some scratch \<Rightarrow>
              (case mp_alloc_from_scratch scratch (botlen + 1) of None \<Rightarrow> None | Some scratch \<Rightarrow>
                let asum = mp_add_into (botlen + 1) a0 a1; bsum = mp_add_into (botlen + 1) b0 b1 in
                case mp_alloc_from_scratch scratch (botlen * 2 + 1) of None \<Rightarrow> None | Some scratch \<Rightarrow>
                (case mp_mul_internal (botlen * 2 + 1) asum bsum scratch of None \<Rightarrow> None | Some product \<Rightarrow>
                  let product = mp_sub_into (botlen * 2 + 1) product r0;
                      product = mp_sub_into (botlen * 2 + 1) product r2
                  in Some (add_at (r0 @ r2) botlen product))))))"
  by pat_completeness auto
termination
  by (relation "measure (\<lambda>(rw, a, b, s). min rw (max (length a) (length b)))"; (unfold in_measure prod.case)?)
    (simp, (rule karatsuba_smaller, assumption+, (erule (1) sum_lengths |
       (rule alias_lengths, assumption, assumption; (rule order_refl | erule (1) botlen_ge))))+)

declare mp_mul_internal.simps [simp del]

definition mp_mul_into :: "nat \<Rightarrow> mp_int \<Rightarrow> mp_int \<Rightarrow> mp_int option" where
  "mp_mul_into rw a b =
     (case mp_make_sized (mp_mul_scratchspace rw (length a) (length b)) of
        None \<Rightarrow> None
      | Some scratch \<Rightarrow> mp_mul_internal rw a b (length scratch))"

definition mp_mul :: "mp_int \<Rightarrow> mp_int \<Rightarrow> mp_int option" where
  "mp_mul x y =
     (case mp_make_sized (length x + length y) of None \<Rightarrow> None | Some r \<Rightarrow> mp_mul_into (length r) x y)"

subsection \<open>Fixed shifts\<close>

definition mp_lshift_fixed_into :: "nat \<Rightarrow> mp_int \<Rightarrow> nat \<Rightarrow> mp_int" where
  "mp_lshift_fixed_into rw a bits =
     (let words = bits div BIGNUM_INT_BITS; bitoff = bits mod BIGNUM_INT_BITS
      in List.map (\<lambda>i.
           if i < words then 0
           else
             let w = mp_word a (i - words)
             in if bitoff \<noteq> 0 then
                  let w = push_bit bitoff w
                  in if i > words then w OR drop_bit (BIGNUM_INT_BITS - bitoff) (mp_word a (i - words - 1)) else w
                else w) [0..<rw])"

definition mp_rshift_fixed_into :: "nat \<Rightarrow> mp_int \<Rightarrow> nat \<Rightarrow> mp_int" where
  "mp_rshift_fixed_into rw a bits =
     (let words = bits div BIGNUM_INT_BITS; bitoff = bits mod BIGNUM_INT_BITS
      in List.map (\<lambda>i.
           let w = mp_word a (i + words)
           in if bitoff \<noteq> 0
              then drop_bit bitoff w OR push_bit (BIGNUM_INT_BITS - bitoff) (mp_word a (i + words + 1))
              else w) [0..<rw])"

definition mp_lshift_fixed :: "mp_int \<Rightarrow> nat \<Rightarrow> mp_int option" where
  "mp_lshift_fixed x bits =
     (let words = (bits + BIGNUM_INT_BITS - 1) div BIGNUM_INT_BITS
      in case mp_make_sized (length x + words) of
           None \<Rightarrow> None | Some r \<Rightarrow> Some (mp_lshift_fixed_into (length r) x bits))"

definition mp_rshift_fixed :: "mp_int \<Rightarrow> nat \<Rightarrow> mp_int option" where
  "mp_rshift_fixed x bits =
     (let words = bits div BIGNUM_INT_BITS; nw = length x - min (length x) words
      in case mp_make_sized (max nw 1) of
           None \<Rightarrow> None | Some r \<Rightarrow> Some (mp_rshift_fixed_into (length r) x bits))"

text \<open>\<open>mp_reduce_mod_2to\<close>, with \<open>size_t\<close> of 64 bits.\<close>

definition mp_reduce_mod_2to :: "mp_int \<Rightarrow> nat \<Rightarrow> mp_int" where
  "mp_reduce_mod_2to x p =
     (let word = p div BIGNUM_INT_BITS; mask = push_bit (p mod BIGNUM_INT_BITS) (1 :: 64 word) - 1
      in take word x @ fst (for_words (\<lambda>i mask. (mp_word x i AND mask, 0)) word (length x - word) mask))"

subsection \<open>Products\<close>

lemma mod_step: "w < 2 ^ 64 \<Longrightarrow> w + 2 ^ 64 * (x mod 2 ^ (64 * n)) = (w + 2 ^ 64 * x) mod (2 :: nat) ^ (64 * Suc n)"
proof -
  assume w: "w < 2 ^ 64"
  have "(w + 2 ^ 64 * x) mod (2 ^ 64 * 2 ^ (64 * n)) = 2 ^ 64 * ((w + 2 ^ 64 * x) div 2 ^ 64 mod 2 ^ (64 * n)) + (w + 2 ^ 64 * x) mod 2 ^ 64"
    by (rule mod_mult2_eq)
  moreover have "(2 :: nat) ^ (64 * Suc n) = 2 ^ 64 * 2 ^ (64 * n)" by (simp add: power_add)
  ultimately show ?thesis using w by simp
qed

lemma mul_row: "length (mul_row ad b r c) = length r"
  "mpv (mul_row ad b r c) = (mpv r + unat ad * mpv b + unat c) mod 2 ^ (64 * length r)"
proof (induction ad b r c rule: mul_row.induct)
  case (1 ad bd bs rq rs c)
  { case 1 then show ?case using "1.IH"(1) by (simp split: prod.splits)
  next
    case 2
    obtain k w where w: "BignumMULADD2 ad bd rq c = (k, w)" by fastforce
    have "mpv (mul_row ad (bd # bs) (rq # rs) c) = unat w + 2 ^ 64 * mpv (mul_row ad bs rs k)" by (simp add: w)
    also have "\<dots> = (unat w + 2 ^ 64 * (mpv rs + unat ad * mpv bs + unat k)) mod 2 ^ (64 * Suc (length rs))"
      unfolding "1.IH"(2) [OF w [symmetric] refl] by (rule mod_step [OF unat_bignum])
    also have "unat w + 2 ^ 64 * (mpv rs + unat ad * mpv bs + unat k) =
        (unat w + 2 ^ 64 * unat k) + 2 ^ 64 * (mpv rs + unat ad * mpv bs)" by (simp add: algebra_simps)
    also have "\<dots> = mpv (rq # rs) + unat ad * mpv (bd # bs) + unat c"
      unfolding BignumMULADD2_eq [OF w] by (simp add: algebra_simps)
    finally show ?case by simp }
next
  case (2 ad rq rs c)
  { case 1 then show ?case using "2.IH"(1) by (simp split: prod.splits)
  next
    case 2
    obtain k w where w: "BignumADC c rq 0 = (w, k)" by fastforce
    have "mpv (mul_row ad [] (rq # rs) c) = unat w + 2 ^ 64 * mpv (mul_row ad [] rs k)" by (simp add: w)
    also have "\<dots> = (unat w + 2 ^ 64 * (mpv rs + unat k)) mod 2 ^ (64 * Suc (length rs))"
      using mod_step [OF unat_bignum] "2.IH"(2) [OF w [symmetric] refl] by simp
    also have "unat w + 2 ^ 64 * (mpv rs + unat k) = (unat w + 2 ^ 64 * unat k) + 2 ^ 64 * mpv rs"
      by (simp add: algebra_simps)
    also have "\<dots> = mpv (rq # rs) + unat ad * mpv [] + unat c"
      unfolding BignumADC_eq [OF w] by simp
    finally show ?case by simp }
qed simp_all

lemma mp_mul_add_simple: "length (mp_mul_add_simple r a b) = length r"
  "mpv (mp_mul_add_simple r a b) = (mpv r + mpv a * mpv b) mod 2 ^ (64 * length r)"
proof (induction r a b rule: mp_mul_add_simple.induct)
  case (1 r rs ad as b)
  obtain w ws where row: "mul_row ad b (r # rs) 0 = w # ws" "length ws = length rs"
    using mul_row(1) [of ad b "r # rs" 0] by (cases "mul_row ad b (r # rs) 0") auto
  note ih = "1.IH" [OF refl, unfolded row list.sel]
  { case 1 then show ?case using ih(1) row by simp
  next
    case 2
    have "mpv (mp_mul_add_simple (r # rs) (ad # as) b) = unat w + 2 ^ 64 * mpv (mp_mul_add_simple ws as b)"
      by (simp add: row)
    also have "\<dots> = (unat w + 2 ^ 64 * (mpv ws + mpv as * mpv b)) mod 2 ^ (64 * Suc (length rs))"
      unfolding ih(2) row(2) by (rule mod_step [OF unat_bignum])
    also have "unat w + 2 ^ 64 * (mpv ws + mpv as * mpv b) = mpv (w # ws) + 2 ^ 64 * (mpv as * mpv b)"
      by (simp add: algebra_simps)
    also have "\<dots> mod 2 ^ (64 * Suc (length rs)) =
        (mpv (r # rs) + unat ad * mpv b + 2 ^ 64 * (mpv as * mpv b)) mod 2 ^ (64 * Suc (length rs))"
      unfolding row(1) [symmetric] mul_row(2) by (simp add: mod_add_left_eq)
    finally show ?case by (simp add: algebra_simps) }
qed simp_all

lemma add_at_value:
  assumes "k \<le> length r"
  shows "length (add_at r k s) = length r" "mpv (add_at r k s) = (mpv r + 2 ^ (64 * k) * mpv s) mod 2 ^ (64 * length r)"
proof -
  let ?m = "length r - k"
  have e: "add_at r k s = take k r @ mp_add_into ?m (drop k r) s" by (simp add: add_at_def Let_def)
  show "length (add_at r k s) = length r" using assms by (simp add: e mp_add_into)
  have p: "2 ^ (64 * length r) = 2 ^ (64 * k) * (2 :: nat) ^ (64 * ?m)"
    using assms by (simp flip: power_add)
  have t: "mpv (take k r) < 2 ^ (64 * k)" using mpv_bound [of "take k r"] assms by (simp add: min_absorb2)
  let ?x = "mpv (drop k r) + mpv s"
  have "mpv (add_at r k s) = mpv (take k r) + 2 ^ (64 * k) * (?x mod 2 ^ (64 * ?m))"
    using assms by (simp add: e mp_add_into min_absorb2)
  also have "\<dots> = (mpv (take k r) + 2 ^ (64 * k) * ?x) mod 2 ^ (64 * length r)"
    using mod_mult2_eq [of "mpv (take k r) + 2 ^ (64 * k) * ?x" "2 ^ (64 * k)" "2 ^ (64 * ?m)"] t by (simp add: p)
  also have "mpv (take k r) + 2 ^ (64 * k) * ?x = mpv r + 2 ^ (64 * k) * mpv s"
    using mpv_split [of r k] assms by (simp add: min_absorb1 algebra_simps)
  finally show "mpv (add_at r k s) = (mpv r + 2 ^ (64 * k) * mpv s) mod 2 ^ (64 * length r)" .
qed


text \<open>The two halves of an operand, and the arithmetic of putting the partial products together.\<close>

lemma halves:
  assumes "botlen \<le> inlen"
  shows "mpv (take botlen a) + 2 ^ (64 * botlen) * mpv (take (inlen - botlen) (drop botlen a)) = mpv (take inlen a)"
proof -
  have "take inlen a = take botlen a @ take (inlen - botlen) (drop botlen a)"
    using assms by (metis le_add_diff_inverse take_add)
  moreover have "length (take botlen a) = botlen \<or> drop botlen a = []" by (cases "botlen \<le> length a") simp_all
  ultimately show ?thesis by auto
qed

lemma take_inlen: "n = rw \<or> length a \<le> n \<Longrightarrow> mpv (take n a) mod 2 ^ (64 * rw) = mpv a mod 2 ^ (64 * rw)"
  by (auto simp: mpv_take)

lemma mod_shifted: "k + n = rw \<Longrightarrow> 2 ^ (64 * k) * (x mod 2 ^ (64 * n)) = (2 ^ (64 * k) * x) mod (2 :: nat) ^ (64 * rw)"
proof -
  assume "k + n = rw"
  then have "(2 :: nat) ^ (64 * rw) = 2 ^ (64 * k) * 2 ^ (64 * n)" by (auto simp: distrib_left power_add)
  then show ?thesis by (simp only: mult_mod_right)
qed

lemma outer_products:
  assumes "length r0 = min rw k" and "mpv r0 = x mod 2 ^ (64 * min rw k)" and "x < 2 ^ (64 * k)"
    and "length r2 = rw - k" and "mpv r2 = y mod 2 ^ (64 * (rw - k))"
  shows "length (r0 @ r2) = rw" and "mpv (r0 @ r2) = (x + 2 ^ (64 * k) * y) mod 2 ^ (64 * rw)"
proof -
  show "length (r0 @ r2) = rw" using assms(1,4) by simp
  show "mpv (r0 @ r2) = (x + 2 ^ (64 * k) * y) mod 2 ^ (64 * rw)"
  proof (cases "k \<le> rw")
    case True
    then have p: "2 ^ (64 * rw) = 2 ^ (64 * k) * (2 :: nat) ^ (64 * (rw - k))" by (simp flip: power_add)
    have "mpv (r0 @ r2) = x + 2 ^ (64 * k) * (y mod 2 ^ (64 * (rw - k)))"
      using True assms by (simp add: min_absorb2)
    also have "\<dots> = (x + 2 ^ (64 * k) * y) mod 2 ^ (64 * rw)"
      using mod_mult2_eq [of "x + 2 ^ (64 * k) * y" "2 ^ (64 * k)" "2 ^ (64 * (rw - k))"] assms(3) by (simp add: p)
    finally show ?thesis .
  next
    case False
    then have "(2 :: nat) ^ (64 * rw) dvd 2 ^ (64 * k)" by (intro le_imp_power_dvd) simp
    then have "(x + 2 ^ (64 * k) * y) mod 2 ^ (64 * rw) = x mod 2 ^ (64 * rw)"
      by (metis dvd_imp_mod_0 mod_add_right_eq mod_mult_left_eq add_0_right mult_0 mod_0)
    then show ?thesis using False assms by (simp add: min_absorb1)
  qed
qed

lemma half_product:
  assumes "k \<le> rw" and "sw = min n (rw - k)" and "x < 2 ^ (64 * n)"
  shows "(2 ^ (64 * k) * (x mod 2 ^ (64 * sw))) mod 2 ^ (64 * rw) = (2 ^ (64 * k) * x) mod (2 :: nat) ^ (64 * rw)"
proof (cases "n \<le> rw - k")
  case True then show ?thesis using assms by (simp add: min_absorb1)
next
  case False
  then have "k + sw = rw" using assms by simp
  from mod_shifted [OF this, of x] show ?thesis by simp
qed

lemma karatsuba_value:
  assumes "a = a0 + D * a1" and "b = b0 + D * b1"
  shows "a * b = (a0 * b0 + D * D * (a1 * b1)) + D * (a0 * b1) + D * (a1 * (b0 :: nat))"
    and "(a0 + a1) * (b0 + b1) = a0 * b0 + (a1 * b1 + (a0 * b1 + a1 * b0))"
  unfolding assms by (simp_all add: algebra_simps)

lemma words_mult_less: "x < 2 ^ (64 * m) \<Longrightarrow> y < 2 ^ (64 * n) \<Longrightarrow> m + n \<le> k \<Longrightarrow> x * y < (2 :: nat) ^ (64 * k)"
proof -
  assume "x < 2 ^ (64 * m)" "y < 2 ^ (64 * n)" "m + n \<le> k"
  then have "x * y < 2 ^ (64 * m) * (2 :: nat) ^ (64 * n)" by (intro mult_strict_mono) simp_all
  also have "\<dots> \<le> 2 ^ (64 * k)" using \<open>m + n \<le> k\<close> by (simp flip: power_add)
  finally show ?thesis .
qed

lemma sum_fits: "x < 2 ^ (64 * n) \<Longrightarrow> y < 2 ^ (64 * n) \<Longrightarrow> x + y < (2 :: nat) ^ (64 * n + 1)"
  by simp

lemma mpv_take_less: "mpv (take n x) < 2 ^ (64 * n)"
  by (simp add: mpv_take)

lemma sub_sub:
  assumes "mpv p = x + (y + z)" and "mpv u = x" and "mpv v = y" and "mpv p < 2 ^ (64 * n)"
  shows "mpv (mp_sub_into n (mp_sub_into n p u) v) = z"
proof -
  have "mpv (mp_sub_into n p u) = y + z" using assms by (subst mp_sub_into_le) simp_all
  then show ?thesis using assms by (subst mp_sub_into_le) simp_all
qed

lemma scratch_enough:
  assumes "inlen * 6 \<le> (scratch :: nat)" and "24 \<le> inlen" and "botlen = inlen - inlen div 2" and "m \<le> botlen"
  shows "m * 6 \<le> scratch" and "m * 6 + inlen \<le> scratch" and "(botlen + 1) * 6 + (botlen + 1) + (botlen + 1) + (botlen * 2 + 1) \<le> scratch"
  using assms by simp_all


text \<open>The two ways of putting the partial products together. \<open>a0\<close>, \<open>a1\<close> are the halves of one operand,
  of at most \<open>m\<close> and \<open>t\<close> words.\<close>

lemma mpv_less: "length x \<le> n \<Longrightarrow> mpv x < 2 ^ (64 * n)"
  by (intro less_le_trans [OF mpv_bound] power_increasing) simp_all

lemma karatsuba_short:
  assumes len: "length a0 \<le> m" "length b0 \<le> m" "length a1 \<le> t" "length b1 \<le> t" "m \<le> rw"
    and r0: "length r0 = min rw (m * 2)" "mpv r0 = mpv a0 * mpv b0 mod 2 ^ (64 * min rw (m * 2))"
    and r2: "length r2 = rw - m * 2" "mpv r2 = mpv a1 * mpv b1 mod 2 ^ (64 * (rw - m * 2))"
    and sw: "sw = min (m + t) (rw - m)"
    and u: "mpv u = mpv a0 * mpv b1 mod 2 ^ (64 * sw)" and v: "mpv v = mpv a1 * mpv b0 mod 2 ^ (64 * sw)"
    and r: "r = add_at (add_at (r0 @ r2) m u) m v"
  shows "length r = rw"
    and "mpv r = (mpv a0 + 2 ^ (64 * m) * mpv a1) * (mpv b0 + 2 ^ (64 * m) * mpv b1) mod 2 ^ (64 * rw)"
proof -
  let ?D = "(2 :: nat) ^ (64 * m)"
  define M where "M = (2 :: nat) ^ (64 * rw)"
  have small: "mpv a0 * mpv b0 < 2 ^ (64 * (m * 2))" by (rule words_mult_less [OF mpv_less [OF len(1)] mpv_less [OF len(2)]]) simp
  have D2: "2 ^ (64 * (m * 2)) = ?D * ?D" by (simp flip: power_add)
  note outer = outer_products [OF r0 small r2, unfolded D2]
  have bot: "m \<le> length (r0 @ r2)" using outer(1) len(5) by simp
  show "length r = rw" using bot outer(1) by (simp add: r add_at_value)
  have half: "(?D * mpv u) mod M = (?D * (mpv a0 * mpv b1)) mod M" "(?D * mpv v) mod M = (?D * (mpv a1 * mpv b0)) mod M"
    unfolding u v M_def
    by (rule half_product [OF len(5) sw], rule words_mult_less [OF mpv_less mpv_less], rule len, rule len, simp)+
  have "mpv r = (mpv (r0 @ r2) + ?D * mpv u + ?D * mpv v) mod M"
    using bot outer(1) by (simp only: r add_at_value M_def mod_add_left_eq)
  also have "\<dots> = (mpv a0 * mpv b0 + ?D * ?D * (mpv a1 * mpv b1) + ?D * (mpv a0 * mpv b1) + ?D * (mpv a1 * mpv b0)) mod M"
    unfolding outer(2) M_def [symmetric] by (intro mod_add_cong half) simp_all
  finally show "mpv r = (mpv a0 + ?D * mpv a1) * (mpv b0 + ?D * mpv b1) mod 2 ^ (64 * rw)"
    unfolding M_def [symmetric] karatsuba_value(1) [OF refl refl] .
qed

lemma karatsuba_full:
  assumes len: "length a0 \<le> m" "length b0 \<le> m" "length a1 \<le> t" "length b1 \<le> t" "t \<le> m" "(m + t) * 2 \<le> rw"
    and r0: "length r0 = min rw (m * 2)" "mpv r0 = mpv a0 * mpv b0 mod 2 ^ (64 * min rw (m * 2))"
    and r2: "length r2 = rw - m * 2" "mpv r2 = mpv a1 * mpv b1 mod 2 ^ (64 * (rw - m * 2))"
    and p: "length p = m * 2 + 1" 
      "mpv p = mpv (mp_add_into (m + 1) a0 a1) * mpv (mp_add_into (m + 1) b0 b1) mod 2 ^ (64 * (m * 2 + 1))"
    and r: "r = add_at (r0 @ r2) m (mp_sub_into (m * 2 + 1) (mp_sub_into (m * 2 + 1) p r0) r2)"
  shows "length r = rw"
    and "mpv r = (mpv a0 + 2 ^ (64 * m) * mpv a1) * (mpv b0 + 2 ^ (64 * m) * mpv b1) mod 2 ^ (64 * rw)"
proof -
  let ?D = "(2 :: nat) ^ (64 * m)"
  have small: "mpv a0 * mpv b0 < 2 ^ (64 * (m * 2))" by (rule words_mult_less [OF mpv_less [OF len(1)] mpv_less [OF len(2)]]) simp
  have D2: "2 ^ (64 * (m * 2)) = ?D * ?D" by (simp flip: power_add)
  note outer = outer_products [OF r0 small r2, unfolded D2]
  have bot: "m \<le> length (r0 @ r2)" using outer(1) len(6) by simp
  show "length r = rw" using bot outer(1) by (simp add: r add_at_value)
  have two: "mpv a0 + mpv a1 < 2 ^ (64 * m + 1)" "mpv b0 + mpv b1 < 2 ^ (64 * m + 1)"
    by (rule sum_fits [OF mpv_less [OF len(1)] mpv_less [OF le_trans [OF len(3,5)]]],
        rule sum_fits [OF mpv_less [OF len(2)] mpv_less [OF le_trans [OF len(4,5)]]])
  have more: "(2 :: nat) ^ (64 * m + 1) \<le> 2 ^ (64 * (m + 1))" by (intro power_increasing) simp_all
  have sums: "mpv (mp_add_into (m + 1) a0 a1) = mpv a0 + mpv a1" "mpv (mp_add_into (m + 1) b0 b1) = mpv b0 + mpv b1"
    using less_le_trans [OF two(1) more] less_le_trans [OF two(2) more] by (simp_all only: mp_add_into mod_less)
  have "(mpv a0 + mpv a1) * (mpv b0 + mpv b1) < 2 ^ (64 * m + 1) * 2 ^ (64 * m + 1)"
    using two by (intro mult_strict_mono) simp_all
  also have "\<dots> = 2 ^ (64 * m + 1 + (64 * m + 1))" by (simp only: power_add)
  also have "\<dots> \<le> (2 :: nat) ^ (64 * (m * 2 + 1))" by (intro power_increasing) simp_all
  finally have pv: "mpv p = mpv a0 * mpv b0 + (mpv a1 * mpv b1 + (mpv a0 * mpv b1 + mpv a1 * mpv b0))"
    unfolding p(2) sums by (simp only: mod_less karatsuba_value(2) [OF refl refl])
  have rv0: "mpv r0 = mpv a0 * mpv b0" using r0(2) small len(6) by (simp add: min_absorb2)
  have rv2: "mpv r2 = mpv a1 * mpv b1"
    unfolding r2(2) using len by (intro mod_less words_mult_less [OF mpv_less [OF len(3)] mpv_less [OF len(4)]]) simp
  have pb: "mpv p < 2 ^ (64 * (m * 2 + 1))" using mpv_bound [of p] p(1) by simp
  have "mpv r = (mpv (r0 @ r2) + ?D * (mpv a0 * mpv b1 + mpv a1 * mpv b0)) mod 2 ^ (64 * rw)"
    using bot outer(1) by (simp only: r add_at_value sub_sub [OF pv rv0 rv2 pb])
  also have "\<dots> = (mpv a0 * mpv b0 + ?D * ?D * (mpv a1 * mpv b1) + ?D * (mpv a0 * mpv b1 + mpv a1 * mpv b0)) mod 2 ^ (64 * rw)"
    unfolding outer(2) by (simp only: mod_add_left_eq)
  finally show "mpv r = (mpv a0 + ?D * mpv a1) * (mpv b0 + ?D * mpv b1) mod 2 ^ (64 * rw)"
    unfolding karatsuba_value(1) [OF refl refl] by (simp only: distrib_left add.assoc)
qed

text \<open>Karatsuba computes the product, cut to the words of the destination, and never runs out of scratch
  space.\<close>

lemma mp_mul_internal:
  assumes "min rw (max (length a) (length b)) * 6 \<le> scratch"
  shows "\<exists>r. mp_mul_internal rw a b scratch = Some r \<and> length r = rw \<and> mpv r = mpv a * mpv b mod 2 ^ (64 * rw)"
  using assms
proof (induction "min rw (max (length a) (length b))" arbitrary: rw a b scratch rule: less_induct)
  case less
  define inlen where "inlen = min rw (max (length a) (length b))"
  have sc: "inlen * 6 \<le> scratch" using less.prems by (simp add: inlen_def)
  show ?case
  proof (cases "inlen < KARATSUBA_THRESHOLD \<or> length a = 0 \<or> length b = 0")
    case True
    then show ?thesis using sc
      by (subst mp_mul_internal.simps)
        (simp add: Let_def mp_mul_scratchspace_unary_def mp_mul_add_simple flip: inlen_def)
  next
    case False
    define toplen where "toplen = inlen div 2"
    define botlen where "botlen = inlen - toplen"
    have big: "24 \<le> inlen" using False by (simp add: KARATSUBA_THRESHOLD_def)
    have tb: "toplen \<le> botlen" "inlen - botlen = toplen" "botlen + 1 < inlen" "botlen \<le> inlen" "botlen + toplen = inlen"
      using big by (simp_all add: toplen_def botlen_def)
    have inrw: "inlen \<le> rw" by (simp add: inlen_def)
    let ?a0 = "take botlen a" and ?b0 = "take botlen b"
    let ?a1 = "take toplen (drop botlen a)" and ?b1 = "take toplen (drop botlen b)"
    note se = scratch_enough [OF sc big botlen_def [unfolded toplen_def]]
    have rec: "\<exists>r. mp_mul_internal w x y s = Some r \<and> length r = w \<and> mpv r = mpv x * mpv y mod 2 ^ (64 * w)"
      if "length x \<le> n" "length y \<le> n" "n \<le> botlen + 1" "n * 6 \<le> s" for w x y s n
    proof (rule less.hyps)
      have le: "min w (max (length x) (length y)) \<le> n" using that by simp
      then show "min w (max (length x) (length y)) < min rw (max (length a) (length b))"
        using tb(3) that(3) by (simp flip: inlen_def)
      show "min w (max (length x) (length y)) * 6 \<le> s" using le that(4) by linarith
    qed
    have lt: "length ?a0 \<le> botlen" "length ?b0 \<le> botlen" "length ?a1 \<le> toplen" "length ?b1 \<le> toplen" by simp_all
    note ls = lt(1,2) lt(3,4) [THEN le_trans, OF tb(1)]
    have goal: "(mpv ?a0 + 2 ^ (64 * botlen) * mpv ?a1) * (mpv ?b0 + 2 ^ (64 * botlen) * mpv ?b1) mod 2 ^ (64 * rw) =
        mpv a * mpv b mod 2 ^ (64 * rw)"
      unfolding halves [OF tb(4), unfolded tb(2)]
      by (intro mod_mult_cong take_inlen; auto simp: inlen_def min_def split: if_splits)
    obtain r0 where r0: "mp_mul_internal (min rw (botlen * 2)) ?a0 ?b0 scratch = Some r0"
      "length r0 = min rw (botlen * 2)" "mpv r0 = mpv ?a0 * mpv ?b0 mod 2 ^ (64 * min rw (botlen * 2))"
      using rec [OF ls(1,2), of scratch "min rw (botlen * 2)"] se(1) [of botlen] by auto
    obtain r2 where r2: "mp_mul_internal (rw - botlen * 2) ?a1 ?b1 scratch = Some r2"
      "length r2 = rw - botlen * 2" "mpv r2 = mpv ?a1 * mpv ?b1 mod 2 ^ (64 * (rw - botlen * 2))"
      using rec [OF ls(3,4), of scratch "rw - botlen * 2"] se(1) [of botlen] by auto
    show ?thesis
    proof (cases "rw < inlen * 2")
      case True
      define sw where "sw = min (botlen + toplen) (rw - botlen)"
      define s1 where "s1 = scratch - sw"
      have sw: "sw \<le> inlen" using tb(5) by (simp add: sw_def)
      have alloc: "mp_alloc_from_scratch scratch sw = Some s1"
        using sw se(2) [of 0] by (simp add: mp_alloc_from_scratch_def s1_def)
      have s1: "botlen * 6 \<le> s1" using sw se(2) [of botlen] by (simp add: s1_def)
      obtain u where u: "mp_mul_internal sw ?a0 ?b1 s1 = Some u" "mpv u = mpv ?a0 * mpv ?b1 mod 2 ^ (64 * sw)"
        using rec [OF ls(1,4), of s1 sw] s1 by auto
      obtain v where v: "mp_mul_internal sw ?a1 ?b0 s1 = Some v" "mpv v = mpv ?a1 * mpv ?b0 mod 2 ^ (64 * sw)"
        using rec [OF ls(3,2), of s1 sw] s1 by auto
      define r where "r = add_at (add_at (r0 @ r2) botlen u) botlen v"
      have run: "mp_mul_internal rw a b scratch = Some r"
        using False True sc r0(1) r2(1) alloc u(1) v(1)
        by (subst mp_mul_internal.simps)
          (simp add: Let_def mp_mul_scratchspace_unary_def r_def
            flip: inlen_def toplen_def botlen_def sw_def)
      show ?thesis
        using run karatsuba_short [OF lt le_trans [OF tb(4) inrw] r0(2,3) r2(2,3) sw_def u(2) v(2) r_def] goal by simp
    next
      case full: False
      define s3 where "s3 = scratch - (botlen + 1) - (botlen + 1) - (botlen * 2 + 1)"
      have alloc: "mp_alloc_from_scratch scratch (botlen + 1) = Some (scratch - (botlen + 1))"
        "mp_alloc_from_scratch (scratch - (botlen + 1)) (botlen + 1) = Some (scratch - (botlen + 1) - (botlen + 1))"
        "mp_alloc_from_scratch (scratch - (botlen + 1) - (botlen + 1)) (botlen * 2 + 1) = Some s3"
        using se(3) [of 0] by (simp_all add: mp_alloc_from_scratch_def s3_def)
      have s3: "(botlen + 1) * 6 \<le> s3" using se(3) [of 0] by (simp add: s3_def)
      define asum bsum where "asum = mp_add_into (botlen + 1) ?a0 ?a1" and "bsum = mp_add_into (botlen + 1) ?b0 ?b1"
      have "length asum = botlen + 1" "length bsum = botlen + 1" by (simp_all add: asum_def bsum_def mp_add_into)
      then obtain p where p: "mp_mul_internal (botlen * 2 + 1) asum bsum s3 = Some p" "length p = botlen * 2 + 1"
        "mpv p = mpv asum * mpv bsum mod 2 ^ (64 * (botlen * 2 + 1))"
        using rec [of asum "botlen + 1" bsum s3 "botlen * 2 + 1"] s3 by auto
      define r where "r = add_at (r0 @ r2) botlen (mp_sub_into (botlen * 2 + 1) (mp_sub_into (botlen * 2 + 1) p r0) r2)"
      have run: "mp_mul_internal rw a b scratch = Some r"
        using False full sc r0(1) r2(1) alloc p(1)
        by (subst mp_mul_internal.simps, unfold Let_def mp_mul_scratchspace_unary_def mp_make_alias_eq drop_0,
            fold inlen_def, fold toplen_def, fold botlen_def, fold asum_def bsum_def)
          (simp only: r_def option.case if_False not_not simp_thms)
      have "(botlen + toplen) * 2 \<le> rw" using full tb(5) by simp
      then show ?thesis
        using run karatsuba_full [OF lt tb(1) _ r0(2,3) r2(2,3) p(2) p(3) [unfolded asum_def bsum_def] r_def] goal by simp
    qed
  qed
qed

text \<open>C32: Multiplication of multiprecision integers never fails: for operands of any length at least one of
  which has a word, \<open>mp_mul\<close> (Karatsuba above 24 words, in scratch space whose size is asserted at every
  level of the recursion) returns a number of as many words as both operands together, and its value is
  exactly the product.\<close>

theorem mp_mul_product:
  assumes "x \<noteq> [] \<or> y \<noteq> []"
  shows "\<exists>r. mp_mul x y = Some r \<and> length r = length x + length y \<and> mpv r = mpv x * mpv y"
proof -
  let ?n = "length x + length y" and ?s = "min (length x + length y) (max (length x) (length y)) * 6"
  have m: "mp_make_sized ?n = Some (replicate ?n 0)" using assms by (auto simp: mp_make_sized_def)
  have sc: "mp_make_sized ?s = Some (replicate ?s 0)" using assms by (auto simp: mp_make_sized_def)
  have "mpv x * mpv y < 2 ^ (64 * ?n)" by (rule words_mult_less [OF mpv_bound mpv_bound]) simp
  with mp_mul_internal [of ?n x y ?s] obtain r where
    "mp_mul_internal ?n x y ?s = Some r" "length r = ?n" "mpv r = mpv x * mpv y" by auto
  with sc show ?thesis
    by (simp add: mp_mul_def m mp_mul_into_def mp_mul_scratchspace_def mp_mul_scratchspace_unary_def Let_def
      del: replicate_add)
qed

lemma mp_mul_product_witness:
  "([0xffffffffffffffff] :: mp_int) \<noteq> [] \<and> (\<exists>r. mp_mul [0xffffffffffffffff] [3, 1] = Some r \<and> length r = 3 \<and>
     mpv r = 0xffffffffffffffff * (3 + 2 ^ 64))"
  using mp_mul_product [of "[0xffffffffffffffff]" "[3, 1]"] by (simp flip: numeral_3_eq_3)

end
