(* ===== verification/MpWire.thy ===== *)
theory MpWire
  imports Mpint Marshal
begin

text \<open>
  The bytes and bits of multiprecision integers and their wire formats (\<open>crypto/mpint.c\<close>): reading
  numbers from bytes, single bytes and bits, the bit length, and the SSH-1 and SSH-2 encodings on a
  \<open>BinarySink\<close> and a \<open>BinarySource\<close>.
\<close>

subsection \<open>Bytes and bits\<close>

text \<open>\<open>mp_from_bytes_int\<close> reads the bytes in an arithmetic progression of \<open>size_t\<close> indices.\<close>

definition mp_from_bytes_int :: "byte list \<Rightarrow> u64 \<Rightarrow> u64 \<Rightarrow> mp_int option" where
  "mp_from_bytes_int bytes m c =
     (let nw = (length bytes + BIGNUM_INT_BYTES - 1) div BIGNUM_INT_BYTES; nw = max nw 1
      in case mp_make_sized nw of None \<Rightarrow> None | Some n \<Rightarrow>
        Some (fold (\<lambda>i n.
          n[i div BIGNUM_INT_BYTES := n ! (i div BIGNUM_INT_BYTES) OR
              push_bit (8 * (i mod BIGNUM_INT_BYTES)) (ucast (bytes ! unat (m * word_of_nat i + c)) :: BignumInt)])
          [0..<length bytes] n))"

definition mp_from_bytes_le :: "byte list \<Rightarrow> mp_int option" where
  "mp_from_bytes_le bytes = mp_from_bytes_int bytes 1 0"

definition mp_from_bytes_be :: "byte list \<Rightarrow> mp_int option" where
  "mp_from_bytes_be bytes = mp_from_bytes_int bytes (- 1) (word_of_nat (length bytes) - 1)"

definition mp_get_byte :: "mp_int \<Rightarrow> nat \<Rightarrow> byte" where
  "mp_get_byte x b =
     ucast (0xFF AND drop_bit (8 * (b mod BIGNUM_INT_BYTES)) (mp_word x (b div BIGNUM_INT_BYTES)))"

definition mp_get_bit :: "mp_int \<Rightarrow> nat \<Rightarrow> u32" where
  "mp_get_bit x b = ucast (1 AND drop_bit (b mod BIGNUM_INT_BITS) (mp_word x (b div BIGNUM_INT_BITS)))"

definition mp_get_integer :: "mp_int \<Rightarrow> u64" where
  "mp_get_integer x = fold (\<lambda>i toret. shift_left_by_one_word toret OR x ! i) (rev [0..<length x]) 0"

definition mp_set_bit :: "mp_int \<Rightarrow> nat \<Rightarrow> u32 \<Rightarrow> mp_int option" where
  "mp_set_bit x b val =
     (let word = b div BIGNUM_INT_BITS; shift = b mod BIGNUM_INT_BITS
      in if \<not> word < length x then None
         else Some (x[word := (x ! word AND NOT (push_bit shift 1)) OR push_bit shift (ucast (val AND 1))]))"

subsection \<open>The bit length\<close>

text \<open>An output variable whose address is \<open>NULL\<close> is \<open>None\<close>.\<close>

definition mp_find_highest_nonzero_word_pair ::
    "mp_int \<Rightarrow> nat \<Rightarrow> u64 option \<Rightarrow> u64 option \<Rightarrow> u64 option \<Rightarrow> u64 option \<times> u64 option \<times> u64 option" where
  "mp_find_highest_nonzero_word_pair x shift_wanted index hi lo =
     snd (snd (fold (\<lambda>curr_index (curr_hi, curr_lo, index, hi, lo).
       let curr_word = x ! curr_index; indicator = normalise_to_1 curr_word;
           curr_lo = (if BIGNUM_INT_BITS < 64 then drop_bit BIGNUM_INT_BITS curr_lo else 0) OR
                     push_bit (64 - BIGNUM_INT_BITS) curr_hi;
           curr_hi = (if BIGNUM_INT_BITS < 64 then drop_bit BIGNUM_INT_BITS curr_hi else 0) OR
                     push_bit shift_wanted (ucast curr_word :: u64);
           set = (\<lambda>curr v. v XOR ((curr XOR v) AND - (ucast indicator :: u64)))
       in (curr_hi, curr_lo, map_option (set (word_of_nat curr_index)) index, map_option (set curr_hi) hi,
           map_option (set curr_lo) lo))
       [0..<length x] (0, 0, index, hi, lo)))"

function hibit_loop :: "nat \<Rightarrow> BignumInt \<Rightarrow> BignumInt \<Rightarrow> BignumInt" where
  "hibit_loop i hiword hibit_index =
     (if i = 0 then hibit_index
      else
        let shifted_word = drop_bit i hiword;
            indicator = drop_bit (BIGNUM_INT_BITS - 1) (- shifted_word);
            hiword = hiword XOR ((shifted_word XOR hiword) AND - indicator);
            hibit_index = hibit_index + (word_of_nat i AND - indicator)
        in hibit_loop (i div 2) hiword hibit_index)"
  by pat_completeness auto
termination by (relation "measure (\<lambda>(i, _). i)") auto

declare hibit_loop.simps [simp del]

definition mp_get_nbits :: "mp_int \<Rightarrow> u64" where
  "mp_get_nbits x =
     (case mp_find_highest_nonzero_word_pair x 0 (Some (- 1)) (Some (NOT 0)) None of
        (index, hi, _) \<Rightarrow>
          let hiword_index = the index; hiword64 = the hi;
              hibit_index = hibit_loop (2 ^ (BIGNUM_INT_BITS_BITS - 1)) hiword64 0
          in push_bit BIGNUM_INT_BITS_BITS hiword_index + hibit_index + 1)"

subsection \<open>Wire formats\<close>

text \<open>The loop that writes the bytes \<open>n - 1\<close> down to \<open>0\<close>.\<close>

fun put_mp_bytes :: "'s sink_write \<Rightarrow> 's \<Rightarrow> mp_int \<Rightarrow> nat \<Rightarrow> 's option" where
  "put_mp_bytes wr bs x 0 = Some bs"
| "put_mp_bytes wr bs x (Suc i) =
     (case BinarySink_put_byte wr bs (mp_get_byte x i) of None \<Rightarrow> None | Some bs \<Rightarrow> put_mp_bytes wr bs x i)"

definition BinarySink_put_mp_ssh1 :: "'s sink_write \<Rightarrow> 's \<Rightarrow> mp_int \<Rightarrow> 's option" where
  "BinarySink_put_mp_ssh1 wr bs x =
     (let bits = mp_get_nbits x; bytes = (bits + 7) div 8
      in if \<not> bits < 0x10000 then None
         else case BinarySink_put_uint16 wr bs (ucast bits) of None \<Rightarrow> None | Some bs \<Rightarrow>
           put_mp_bytes wr bs x (unat bytes))"

definition BinarySink_put_mp_ssh2 :: "'s sink_write \<Rightarrow> 's \<Rightarrow> mp_int \<Rightarrow> 's option" where
  "BinarySink_put_mp_ssh2 wr bs x =
     (let bytes = (mp_get_nbits x + 8) div 8
      in case BinarySink_put_uint32 wr bs (ucast bytes) of None \<Rightarrow> None | Some bs \<Rightarrow>
        put_mp_bytes wr bs x (unat bytes))"

definition BinarySource_get_mp_ssh1 :: "BinarySource \<Rightarrow> (mp_int \<times> BinarySource) option" where
  "BinarySource_get_mp_ssh1 src =
     (case BinarySource_get_uint16 src of (bitc, src) \<Rightarrow>
       (case BinarySource_get_data src (unat ((bitc + 7) div 8)) of (bytes, src) \<Rightarrow>
         if src_err src \<noteq> BSE_NO_ERROR then Some (mp_from_integer 0, src)
         else case mp_from_bytes_be bytes of None \<Rightarrow> None | Some toret \<Rightarrow>
           if mp_get_nbits toret > ucast bitc then Some (mp_from_integer 0, src\<lparr>src_err := BSE_INVALID\<rparr>)
           else Some (toret, src)))"

definition BinarySource_get_mp_ssh2 :: "BinarySource \<Rightarrow> (mp_int \<times> BinarySource) option" where
  "BinarySource_get_mp_ssh2 src =
     (case BinarySource_get_string src of (p, src) \<Rightarrow>
       if src_err src \<noteq> BSE_NO_ERROR then Some (mp_from_integer 0, src)
       else if length p > 0 \<and>
         (p ! 0 AND 0x80 \<noteq> 0 \<or> (p ! 0 = 0 \<and> (length p \<le> 1 \<or> \<not> p ! 1 AND 0x80 \<noteq> 0)))
       then Some (mp_from_integer 0, src\<lparr>src_err := BSE_INVALID\<rparr>)
       else map_option (\<lambda>x. (x, src)) (mp_from_bytes_be p))"

subsection \<open>Bits of a number\<close>

lemma bit_mpv: "bit (mpv x) k \<longleftrightarrow> bit (mp_word x (k div 64)) (k mod 64)"
proof (induction x arbitrary: k)
  case (Cons w x)
  show ?case
  proof (cases "k < 64")
    case True
    have "bit (mpv (w # x)) k \<longleftrightarrow> bit (take_bit 64 (mpv (w # x))) k" using True by (simp add: bit_take_bit_iff)
    also have "take_bit 64 (mpv (w # x)) = unat w" using unat_bignum [of w] by (simp add: take_bit_eq_mod)
    finally show ?thesis using True by (simp add: bit_unsigned_iff mp_word_def)
  next
    case False
    then obtain m where m: "k = 64 + m" using le_Suc_ex [of 64 k] by auto
    have "bit (mpv (w # x)) k \<longleftrightarrow> bit (drop_bit 64 (mpv (w # x))) m" by (simp add: bit_drop_bit_eq m)
    also have "drop_bit 64 (mpv (w # x)) = mpv x" using unat_bignum [of w] by (simp add: drop_bit_eq_div)
    finally have "bit (mpv (w # x)) k \<longleftrightarrow> bit (mp_word x (m div 64)) (m mod 64)" using Cons.IH [of m] by simp
    moreover have "mp_word (w # x) (k div 64) = mp_word x (m div 64)" "k mod 64 = m mod 64"
      using div_add_self1 [of 64 m] by (simp_all add: m mp_word_def)
    ultimately show ?thesis by simp
  qed
qed (simp add: mp_word_def)

lemma byte_position: "k < 8 \<Longrightarrow> (8 * b + k) div 64 = b div 8" "k < 8 \<Longrightarrow> (8 * b + k) mod 64 = 8 * (b mod 8) + (k :: nat)"
proof -
  assume k: "k < 8"
  have "8 * b + k = 64 * (b div 8) + (8 * (b mod 8) + k)" using div_mult_mod_eq [of b 8] by linarith
  moreover have "8 * (b mod 8) + k < 64" using k by (simp add: mod_less_divisor [of 8 b, simplified])
  ultimately show "(8 * b + k) div 64 = b div 8" "(8 * b + k) mod 64 = 8 * (b mod 8) + k"
    using div_mult_self4 [of 64 "b div 8" "8 * (b mod 8) + k"] by (simp_all only: mod_mult_self4 mod_less div_less)
qed

lemma bit_mp_get_byte: "bit (mp_get_byte x b) k \<longleftrightarrow> k < 8 \<and> bit (mp_word x (b div 8)) (8 * (b mod 8) + k)"
proof -
  have "bit (0xFF :: BignumInt) k \<longleftrightarrow> k < 8"
  proof -
    have "(0xFF :: BignumInt) = mask 8" by (simp add: mask_eq_exp_minus_1)
    then show ?thesis by (simp only: bit_mask_iff) auto
  qed
  then show ?thesis by (auto simp: mp_get_byte_def bit_ucast_iff bit_and_iff bit_drop_bit_eq)
qed

lemma mp_get_byte: "unat (mp_get_byte x b) = mpv x div 256 ^ b mod 256"
proof (rule bit_eqI)
  fix k
  have p: "mpv x div 256 ^ b mod 256 = take_bit 8 (drop_bit (8 * b) (mpv x))"
    by (simp add: take_bit_eq_mod drop_bit_eq_div power_mult)
  show "bit (unat (mp_get_byte x b)) k \<longleftrightarrow> bit (mpv x div 256 ^ b mod 256) k"
    by (auto simp: p bit_take_bit_iff bit_drop_bit_eq bit_unsigned_iff bit_mp_get_byte bit_mpv byte_position)
qed

lemma mp_get_bit: "mp_get_bit x b = (if bit (mpv x) b then 1 else 0)"
proof -
  have e: "1 AND drop_bit k w = (if bit w k then 1 else (0 :: BignumInt))" for k w
  proof (rule bit_eqI)
    fix j show "bit (1 AND drop_bit k w) j = bit (if bit w k then 1 else 0 :: BignumInt) j"
      by (cases j) (auto simp: bit_and_iff bit_drop_bit_eq bit_1_iff)
  qed
  then show ?thesis by (simp add: mp_get_bit_def e bit_mpv)
qed

text \<open>The number a list of bytes stands for, the lowest first.\<close>

fun le_value :: "byte list \<Rightarrow> nat" where
  "le_value [] = 0"
| "le_value (b # bs) = unat b + 256 * le_value bs"

lemma le_value_append: "le_value (as @ bs) = le_value as + 256 ^ length as * le_value bs"
  by (induction as) (simp_all add: algebra_simps)

lemma le_value_bound: "le_value bs < 256 ^ length bs"
proof (induction bs)
  case (Cons b bs)
  have "le_value (b # bs) < 256 * (le_value bs + 1)"
    using unat_byte_less [of b] unfolding le_value.simps distrib_left by linarith
  also have "\<dots> \<le> 256 * 256 ^ length bs" using Cons by (intro mult_le_mono2) simp
  finally show ?case by simp
qed simp

lemma le_value_zeros: "le_value (replicate n 0) = 0"
  by (induction n) simp_all

lemma le_value_inj: "length as = length bs \<Longrightarrow> le_value as = le_value bs \<Longrightarrow> as = bs"
proof (induction as bs rule: list_induct2)
  case (Cons a as b bs)
  have "le_value (a # as) mod 256 = unat a" "le_value (b # bs) mod 256 = unat b"
    using unat_byte_less [of a] unat_byte_less [of b] by simp_all
  then have "unat a = unat b" using Cons.prems by metis
  with Cons show ?case by (simp add: word_unat_eq_iff)
qed simp

lemma le_value_get_bytes: "le_value (List.map (mp_get_byte x) [0..<n]) = mpv x mod 256 ^ n"
proof (induction n)
  case (Suc n)
  have "mpv x mod (256 ^ n * 256) = 256 ^ n * (mpv x div 256 ^ n mod 256) + mpv x mod 256 ^ n" by (rule mod_mult2_eq)
  with Suc show ?case by (simp add: le_value_append mp_get_byte mult.commute)
qed simp

lemma mpv_bytes: "8 * length x \<le> n \<Longrightarrow> mpv x = le_value (List.map (mp_get_byte x) [0..<n])"
proof -
  assume "8 * length x \<le> n"
  then have "(2 :: nat) ^ (64 * length x) \<le> 2 ^ (8 * n)" by (intro power_increasing) simp_all
  then have "mpv x < 256 ^ n" using mpv_bound [of x] by (simp add: power_mult)
  then show ?thesis by (simp add: le_value_get_bytes)
qed


subsection \<open>Numbers from bytes\<close>

definition or_byte :: "nat \<Rightarrow> byte \<Rightarrow> mp_int \<Rightarrow> mp_int" where
  "or_byte i v n = n[i div 8 := n ! (i div 8) OR push_bit (8 * (i mod 8)) (ucast v :: BignumInt)]"

lemma mp_get_byte_or:
  assumes "i < 8 * length n"
  shows "mp_get_byte (or_byte i v n) j = (if j = i then mp_get_byte n i OR v else mp_get_byte n j)"
proof (rule bit_eqI)
  fix k
  have i: "i div 8 < length n" using assms by (simp add: div_less_iff_less_mult mult.commute)
  have ji: "j = i \<longleftrightarrow> j div 8 = i div 8 \<and> j mod 8 = i mod 8" by (metis div_mult_mod_eq)
  have w: "mp_word (or_byte i v n) (j div 8) =
      (if j div 8 = i div 8 then mp_word n (i div 8) OR push_bit (8 * (i mod 8)) (ucast v) else mp_word n (j div 8))"
    using i by (auto simp: mp_word_def or_byte_def)
  have p: "bit (push_bit (8 * (i mod 8)) (ucast v :: BignumInt)) (8 * (j mod 8) + k) \<longleftrightarrow> j mod 8 = i mod 8 \<and> bit v k"
    if "k < 8"
  proof -
    have lt: "8 * (j mod 8) + k < 64" using that mod_less_divisor [of 8 j] by linarith
    have "bit v (8 * (j mod 8) + k - 8 * (i mod 8)) \<longrightarrow> 8 * (j mod 8) + k - 8 * (i mod 8) < 8"
      using bit_imp_le_length [of v] by auto
    then have "8 * (i mod 8) \<le> 8 * (j mod 8) + k \<and> bit v (8 * (j mod 8) + k - 8 * (i mod 8)) \<longleftrightarrow>
        j mod 8 = i mod 8 \<and> bit v k"
      using that by (cases "j mod 8 = i mod 8") auto
    then show ?thesis using lt by (auto simp: bit_push_bit_iff bit_ucast_iff)
  qed
  show "bit (mp_get_byte (or_byte i v n) j) k = bit (if j = i then mp_get_byte n i OR v else mp_get_byte n j) k"
  proof (cases "k < 8")
    case True
    have "bit (mp_get_byte (or_byte i v n) j) k \<longleftrightarrow> bit (mp_word (or_byte i v n) (j div 8)) (8 * (j mod 8) + k)"
      "bit (mp_get_byte n j) k \<longleftrightarrow> bit (mp_word n (j div 8)) (8 * (j mod 8) + k)"
      using True by (simp_all only: bit_mp_get_byte simp_thms)
    then show ?thesis
      unfolding w using p [OF True] ji by (cases "j div 8 = i div 8"; cases "j = i") (simp_all add: bit_or_iff)
  next
    case False
    then show ?thesis using bit_imp_le_length [of v k] by (auto simp: bit_mp_get_byte bit_or_iff)
  qed
qed

lemma or_bytes:
  "k \<le> 8 * nw \<Longrightarrow> length (fold (\<lambda>i. or_byte i (g i)) [0..<k] (replicate nw 0)) = nw \<and>
    (\<forall>j. mp_get_byte (fold (\<lambda>i. or_byte i (g i)) [0..<k] (replicate nw 0)) j = (if j < k then g j else 0))"
proof (induction k)
  case 0
  have "mp_get_byte (replicate nw 0) j = 0" for j
  proof (rule bit_eqI)
    fix m show "bit (mp_get_byte (replicate nw 0) j) m = bit 0 m" by (simp add: bit_mp_get_byte mp_word_def)
  qed
  then show ?case by simp
next
  case (Suc k)
  then show ?case
    by (auto simp: mp_get_byte_or less_Suc_eq) (simp add: or_byte_def)
qed

lemma mp_from_bytes_int:
  assumes "\<And>i. i < length bytes \<Longrightarrow> bytes ! unat (m * word_of_nat i + c) = g i"
  shows "\<exists>x. mp_from_bytes_int bytes m c = Some x \<and> length x = max ((length bytes + 7) div 8) 1 \<and>
    mpv x = le_value (List.map g [0..<length bytes])"
proof -
  define n nw where "n = length bytes" and "nw = max ((length bytes + 7) div 8) 1"
  define x where "x = fold (\<lambda>i. or_byte i (g i)) [0..<n] (replicate nw 0)"
  have nw: "n \<le> 8 * nw" by (simp add: n_def nw_def)
  from or_bytes [OF nw, of g] have x: "length x = nw" "\<And>j. mp_get_byte x j = (if j < n then g j else 0)"
    unfolding x_def by blast+
  have "fold (\<lambda>i n. n[i div 8 := n ! (i div 8) OR push_bit (8 * (i mod 8)) (ucast (bytes ! unat (m * word_of_nat i + c)))])
      [0..<n] (replicate nw 0) = x"
    unfolding x_def by (rule fold_cong) (auto simp: assms or_byte_def fun_eq_iff n_def)
  then have run: "mp_from_bytes_int bytes m c = Some x"
    by (simp add: mp_from_bytes_int_def mp_make_sized_def Let_def add.commute [of 7] n_def nw_def)
  have "[0..<8 * nw] = [0..<n] @ [n..<8 * nw]" using nw by (metis le_add_diff_inverse upt_add_eq_append zero_le)
  moreover have "List.map (mp_get_byte x) [n..<8 * nw] = replicate (8 * nw - n) 0"
    by (rule nth_equalityI) (simp_all add: x(2))
  moreover have "List.map (mp_get_byte x) [0..<n] = List.map g [0..<n]" by (simp add: x(2))
  ultimately have "mpv x = le_value (List.map g [0..<n])"
    using mpv_bytes [of x "8 * nw"] x(1) by (simp only: map_append le_value_append le_value_zeros le_refl mult_0_right add_0_right)
  with run x(1) show ?thesis unfolding n_def nw_def by blast
qed

lemma mp_from_bytes_le:
  assumes "length bytes < 2 ^ 64"
  shows "\<exists>x. mp_from_bytes_le bytes = Some x \<and> length x = max ((length bytes + 7) div 8) 1 \<and> mpv x = le_value bytes"
  using mp_from_bytes_int [of bytes 1 0 "\<lambda>i. bytes ! i"] assms
  by (simp add: mp_from_bytes_le_def map_nth unat_of_nat take_bit_nat_eq_self)

lemma rev_index: "i < n \<Longrightarrow> n < 2 ^ 64 \<Longrightarrow> unat (- 1 * word_of_nat i + (word_of_nat n - 1) :: u64) = n - 1 - i"
proof -
  assume "i < n" "n < 2 ^ 64"
  then have "- 1 * word_of_nat i + (word_of_nat n - 1) = (word_of_nat (n - 1 - i) :: u64)"
    by (simp add: of_nat_diff)
  then show ?thesis using \<open>n < 2 ^ 64\<close> by (simp add: unat_of_nat take_bit_nat_eq_self)
qed

lemma mp_from_bytes_be:
  assumes "length bytes < 2 ^ 64"
  shows "\<exists>x. mp_from_bytes_be bytes = Some x \<and> length x = max ((length bytes + 7) div 8) 1 \<and> mpv x = le_value (rev bytes)"
proof -
  have "List.map (\<lambda>i. bytes ! (length bytes - 1 - i)) [0..<length bytes] = rev bytes"
    by (rule nth_equalityI) (simp_all add: rev_nth)
  with mp_from_bytes_int [of bytes "- 1" "word_of_nat (length bytes) - 1" "\<lambda>i. bytes ! (length bytes - 1 - i)"]
  show ?thesis using rev_index [OF _ assms] by (simp add: mp_from_bytes_be_def)
qed


subsection \<open>The bit length\<close>

lemma xor_mask: "v XOR ((c XOR v) AND - (if b then 1 else 0 :: BignumInt)) = (if b then c else v)"
  by (simp add: xor_swap)

definition hi_step :: "mp_int \<Rightarrow> nat \<Rightarrow> u64 \<times> u64 \<times> u64 option \<times> u64 option \<times> u64 option \<Rightarrow>
    u64 \<times> u64 \<times> u64 option \<times> u64 option \<times> u64 option" where
  "hi_step x j = (\<lambda>(ch, cl, i, h, l).
     (x ! j, ch, map_option (\<lambda>v. if x ! j \<noteq> 0 then word_of_nat j else v) i,
      map_option (\<lambda>v. if x ! j \<noteq> 0 then x ! j else v) h, map_option (\<lambda>v. if x ! j \<noteq> 0 then ch else v) l))"

lemma find_highest_fold:
  "mp_find_highest_nonzero_word_pair x 0 i h l = snd (snd (fold (hi_step x) [0..<length x] (0, 0, i, h, l)))"
proof -
  have m: "v XOR ((c XOR v) AND - (ucast (normalise_to_1 w) :: u64)) = (if w \<noteq> 0 then c else v)" for v c :: u64 and w
    using xor_mask [of v c "w \<noteq> 0"] by (auto simp: normalise_to_1)
  show ?thesis
    unfolding mp_find_highest_nonzero_word_pair_def
    by (intro arg_cong [of _ _ snd] fold_cong) (auto simp: hi_step_def m Let_def)
qed

lemma find_highest_inv:
  assumes "n \<le> length x"
  shows "\<exists>ch cl i h. fold (hi_step x) [0..<n] (0, 0, Some i0, Some h0, None) = (ch, cl, Some i, Some h, None) \<and>
    ((\<forall>k<n. x ! k = 0) \<and> i = i0 \<and> h = h0 \<or>
     (\<exists>j<n. x ! j \<noteq> 0 \<and> i = word_of_nat j \<and> h = x ! j \<and> (\<forall>k<n. j < k \<longrightarrow> x ! k = 0)))"
  using assms
proof (induction n)
  case (Suc n)
  from Suc.IH [OF Suc_leD [OF Suc.prems]]
  obtain ch cl i h where f: "fold (hi_step x) [0..<n] (0, 0, Some i0, Some h0, None) = (ch, cl, Some i, Some h, None)"
    and c: "(\<forall>k<n. x ! k = 0) \<and> i = i0 \<and> h = h0 \<or>
      (\<exists>j<n. x ! j \<noteq> 0 \<and> i = word_of_nat j \<and> h = x ! j \<and> (\<forall>k<n. j < k \<longrightarrow> x ! k = 0))"
    by (elim exE conjE)
  have st: "fold (hi_step x) [0..<Suc n] (0, 0, Some i0, Some h0, None) =
      (x ! n, ch, Some (if x ! n \<noteq> 0 then word_of_nat n else i), Some (if x ! n \<noteq> 0 then x ! n else h), None)"
    using f by (simp add: hi_step_def [of x n])
  show ?case
  proof (cases "x ! n = 0")
    case True
    then show ?thesis using c unfolding st by (auto simp: less_Suc_eq)
  next
    case False
    then show ?thesis unfolding st by (auto simp: less_Suc_eq)
  qed
qed simp

lemma hibit_step:
  assumes "0 < unat (h :: BignumInt)" and "0 < i" and "i < 64" and "unat h < 2 ^ (i + i)"
    and "s = drop_bit i h" and "b = drop_bit 63 (- s)"
  shows "(s = 0 \<and> b = 0 \<and> unat h < 2 ^ i) \<or> (s \<noteq> 0 \<and> b = 1 \<and> 0 < unat s \<and> unat s < 2 ^ i \<and>
    unat s * 2 ^ i \<le> unat h \<and> unat h < (unat s + 1) * 2 ^ i)"
proof -
  have u: "unat s = unat h div 2 ^ i" unfolding assms(5) unat_drop_bit_eq by (rule drop_bit_eq_div)
  have "unat s < 2 ^ i" unfolding u using assms(4) by (simp add: less_mult_imp_div_less power_add)
  moreover have "unat s < 2 ^ 63"
  proof -
    have "(2 :: nat) ^ 64 \<le> 2 ^ (63 + i)" using assms(2) by (intro power_increasing) simp_all
    with unat_bignum [of h] have "unat h < 2 ^ (63 + i)" by (rule less_le_trans)
    then show ?thesis unfolding u by (simp only: power_add less_mult_imp_div_less)
  qed
  moreover note top_bit_neg [OF calculation(2)]
  moreover have "unat h = unat s * 2 ^ i + unat h mod 2 ^ i" unfolding u by (rule div_mult_mod_eq [symmetric])
  moreover have "unat h < (unat s + 1) * 2 ^ i"
    using dividend_less_div_times [of "2 ^ i" "unat h"] unfolding u by (simp add: add.commute)
  moreover have "s = 0 \<longleftrightarrow> unat s = 0" by (simp add: unat_eq_zero)
  ultimately show ?thesis using assms(6) by (cases "s = 0") auto
qed

lemma hibit_loop_step:
  assumes "0 < unat (h :: BignumInt)" and "0 < i" and "i < 64" and "unat h < 2 ^ (i + i)" and "s = drop_bit i h"
  shows "hibit_loop i h a = hibit_loop (i div 2) (if s = 0 then h else s) (if s = 0 then a else a + word_of_nat i)"
proof -
  from hibit_step [OF assms(1-5) refl] have b: "drop_bit 63 (- s) = (if s \<noteq> 0 then 1 else 0)" by auto
  have m: "- (if s \<noteq> 0 then 1 else 0 :: BignumInt) = (if s \<noteq> 0 then - 1 else 0)" by simp
  show ?thesis
    using assms(2) xor_mask [of h s "s \<noteq> 0"]
    by (subst hibit_loop.simps) (simp add: b Let_def flip: assms(5))
qed

lemma hibit_loop:
  assumes "0 < unat h" and "unat h < 2 ^ (2 ^ Suc n)" and "n \<le> 5"
  shows "\<exists>k. hibit_loop (2 ^ n) h a = a + word_of_nat k \<and> k < 2 ^ Suc n \<and> 2 ^ k \<le> unat h \<and> unat h < 2 ^ Suc k"
  using assms
proof (induction n arbitrary: h a)
  case 0
  define s where "s = drop_bit 1 h"
  have pre: "unat h < 2 ^ (1 + 1)" using 0 by simp
  note st = hibit_step [OF 0(1) _ _ pre s_def refl]
  have "hibit_loop (2 ^ 0) h a = (if s = 0 then a else a + 1)"
    using hibit_loop_step [OF 0(1) _ _ pre s_def, of a] by (simp add: hibit_loop.simps)
  then show ?case using st 0 by (cases "s = 0") (auto intro: exI [of _ 0] exI [of _ 1])
next
  case (Suc n)
  define i s where "i = (2 :: nat) ^ Suc n" and "s = drop_bit i h"
  have i: "0 < i" "i < 64" "i div 2 = 2 ^ n" "i + i = 2 ^ Suc (Suc n)"
    using Suc.prems(3) power_increasing [of "Suc n" 5 "2 :: nat"] by (simp_all add: i_def)
  have pre: "unat h < 2 ^ (i + i)" using Suc.prems by (simp only: i(4))
  note st = hibit_step [OF Suc.prems(1) i(1,2) pre s_def refl]
  have run: "hibit_loop (2 ^ Suc n) h a = hibit_loop (2 ^ n) (if s = 0 then h else s) (if s = 0 then a else a + word_of_nat i)"
    using hibit_loop_step [OF Suc.prems(1) i(1,2) pre s_def, of a] unfolding i(3) unfolding i_def .
  show ?case
  proof (cases "s = 0")
    case True
    with st have "unat h < 2 ^ 2 ^ Suc n" by (simp add: i_def)
    from Suc.IH [OF Suc.prems(1) this, of a] Suc.prems(3) obtain k where
      "hibit_loop (2 ^ n) h a = a + word_of_nat k" "k < 2 ^ Suc n" "2 ^ k \<le> unat h" "unat h < 2 ^ Suc k" by auto
    then show ?thesis using run True by (intro exI [of _ k]) auto
  next
    case False
    with st have s: "0 < unat s" "unat s < 2 ^ 2 ^ Suc n" "unat s * 2 ^ i \<le> unat h" "unat h < (unat s + 1) * 2 ^ i"
      by (simp_all add: i_def)
    from Suc.IH [OF s(1,2), of "a + word_of_nat i"] Suc.prems(3) obtain k where
      k: "hibit_loop (2 ^ n) s (a + word_of_nat i) = a + word_of_nat i + word_of_nat k" "k < 2 ^ Suc n"
        "2 ^ k \<le> unat s" "unat s < 2 ^ Suc k" by auto
    have "2 ^ (i + k) = 2 ^ k * (2 :: nat) ^ i" by (simp add: power_add)
    also have "\<dots> \<le> unat s * 2 ^ i" by (intro mult_le_mono1 k(3))
    also note s(3)
    finally have "2 ^ (i + k) \<le> unat h" .
    moreover have "unat h < 2 ^ Suc (i + k)"
    proof -
      have "(unat s + 1) * 2 ^ i \<le> 2 ^ Suc k * 2 ^ i" using k(4) by (intro mult_le_mono1) simp
      then show ?thesis using s(4) by (simp add: power_add mult.commute mult.left_commute)
    qed
    moreover have "i + k < 2 ^ Suc (Suc n)" using k(2) by (simp add: i_def)
    ultimately show ?thesis using run False k(1) by (intro exI [of _ "i + k"]) (simp add: add.assoc)
  qed
qed

text \<open>\<open>mp_get_nbits\<close> is the bit length.\<close>

lemma mp_get_nbits:
  assumes "length x < 2 ^ 58"
  shows "mpv x < 2 ^ unat (mp_get_nbits x)" and "mpv x \<noteq> 0 \<Longrightarrow> 2 ^ (unat (mp_get_nbits x) - 1) \<le> mpv x"
    and "mpv x \<noteq> 0 \<Longrightarrow> 0 < unat (mp_get_nbits x)" and "mpv x = 0 \<Longrightarrow> mp_get_nbits x = 0"
proof -
  from find_highest_inv [OF order_refl, of x "- 1" "NOT 0"] obtain ch cl i h where
    f: "fold (hi_step x) [0..<length x] (0, 0, Some (- 1), Some (NOT 0), None) = (ch, cl, Some i, Some h, None)"
    and c: "(\<forall>k<length x. x ! k = 0) \<and> i = - 1 \<and> h = NOT 0 \<or>
      (\<exists>j<length x. x ! j \<noteq> 0 \<and> i = word_of_nat j \<and> h = x ! j \<and> (\<forall>k<length x. j < k \<longrightarrow> x ! k = 0))"
    by (elim exE conjE)
  have nb: "mp_get_nbits x = push_bit 6 i + hibit_loop (2 ^ 5) h 0 + 1"
    by (simp only: mp_get_nbits_def find_highest_fold f) simp
  have "mpv x < 2 ^ unat (mp_get_nbits x) \<and> (mpv x \<noteq> 0 \<longrightarrow> 2 ^ (unat (mp_get_nbits x) - 1) \<le> mpv x \<and> 0 < unat (mp_get_nbits x)) \<and>
      (mpv x = 0 \<longrightarrow> mp_get_nbits x = 0)"
    using c
  proof
    assume z: "(\<forall>k<length x. x ! k = 0) \<and> i = - 1 \<and> h = NOT 0"
    then have "x = replicate (length x) 0" by (auto intro: nth_equalityI)
    then have "mpv x = 0" by (metis mpv_replicate)
    moreover have "mp_get_nbits x = 0"
    proof -
      have h: "unat h = 2 ^ 64 - 1" using z unat_NOT [of 0] by simp
      with hibit_loop [of h 5 0] obtain k where
        k: "hibit_loop (2 ^ 5) h 0 = word_of_nat k" "k < 64" "unat h < 2 ^ Suc k" by auto
      have "\<not> Suc k \<le> 63" using k(3) h power_increasing [of "Suc k" 63 "2 :: nat"] by auto
      then have "k = 63" using k(2) by simp
      then show ?thesis using z k(1) by (simp add: nb mask_eq_exp_minus_1 not_eq_complement)
    qed
    ultimately show ?thesis by simp
  next
    assume "\<exists>j<length x. x ! j \<noteq> 0 \<and> i = word_of_nat j \<and> h = x ! j \<and> (\<forall>k<length x. j < k \<longrightarrow> x ! k = 0)"
    then obtain j where j: "j < length x" "x ! j \<noteq> 0" "i = word_of_nat j" "h = x ! j" "\<forall>k<length x. j < k \<longrightarrow> x ! k = 0"
      by blast
    have "0 < unat h" using j(2,4) by (simp add: unat_gt_0)
    from hibit_loop [OF this, of 5 0] unat_bignum [of h] obtain k where
      k: "hibit_loop (2 ^ 5) h 0 = word_of_nat k" "k < 64" "2 ^ k \<le> unat h" "unat h < 2 ^ Suc k" by auto
    have "drop (Suc j) x = replicate (length x - Suc j) 0" using j(5) by (auto intro: nth_equalityI)
    then have "x = take j x @ h # replicate (length x - Suc j) 0"
      using j(1,4) by (metis append_take_drop_id Cons_nth_drop_Suc)
    then have "mpv x = mpv (take j x) + 2 ^ (64 * length (take j x)) * unat h"
      by (metis mpv_append mpv.simps(2) mpv_replicate mult_0_right add_0_right)
    then have v: "mpv x = mpv (take j x) + 2 ^ (64 * j) * unat h" using j(1) by simp
    have t: "mpv (take j x) < 2 ^ (64 * j)" by (simp add: mpv_take)
    have n: "unat (mp_get_nbits x) = 64 * j + k + 1"
    proof -
      have "mp_get_nbits x = word_of_nat (64 * j + k + 1)" unfolding nb j(3) k(1) by (simp add: push_bit_eq_mult mult.commute)
      moreover have "64 * j + k + 1 < 2 ^ 64" using assms j(1) k(2) by simp
      ultimately show ?thesis by (simp only: unat_of_nat take_bit_nat_eq_self len_of_numeral_defs) simp
    qed
    have "2 ^ (64 * j + k) \<le> mpv x" using k(3) by (simp add: v power_add trans_le_add2)
    moreover have "mpv x < 2 ^ (64 * j + k + 1)"
    proof -
      have "2 ^ (64 * j) * (unat h + 1) \<le> 2 ^ (64 * j) * 2 ^ Suc k" using k(4) by (intro mult_le_mono2) simp
      then show ?thesis using t by (simp add: v power_add)
    qed
    ultimately show ?thesis unfolding n by (auto dest: order_less_le_trans [of 0])
  qed
  then show "mpv x < 2 ^ unat (mp_get_nbits x)" "mpv x \<noteq> 0 \<Longrightarrow> 2 ^ (unat (mp_get_nbits x) - 1) \<le> mpv x"
    "mpv x \<noteq> 0 \<Longrightarrow> 0 < unat (mp_get_nbits x)" "mpv x = 0 \<Longrightarrow> mp_get_nbits x = 0" by blast+
qed

subsection \<open>The wire formats\<close>

definition be_bytes :: "mp_int \<Rightarrow> nat \<Rightarrow> byte list" where
  "be_bytes x n = rev (List.map (mp_get_byte x) [0..<n])"

definition ssh2_bytes :: "mp_int \<Rightarrow> byte list" where
  "ssh2_bytes x = (let n = unat ((mp_get_nbits x + 8) div 8)
     in PUT_32BIT_MSB_FIRST (ucast ((mp_get_nbits x + 8) div 8)) @ be_bytes x n)"

definition ssh1_bytes :: "mp_int \<Rightarrow> byte list" where
  "ssh1_bytes x = PUT_16BIT_MSB_FIRST (ucast (ucast (mp_get_nbits x) :: u32)) @ be_bytes x (unat ((mp_get_nbits x + 7) div 8))"

lemma length_be_bytes [simp]: "length (be_bytes x n) = n"
  by (simp add: be_bytes_def)

lemma be_bytes_value: "le_value (rev (be_bytes x n)) = mpv x mod 256 ^ n"
  by (simp add: be_bytes_def le_value_get_bytes)

lemma be_bytes_unique: "le_value (rev p) = mpv x \<Longrightarrow> be_bytes x (length p) = p"
proof -
  assume v: "le_value (rev p) = mpv x"
  then have "mpv x < 256 ^ length p" using le_value_bound [of "rev p"] by simp
  with v have "le_value (rev (be_bytes x (length p))) = le_value (rev p)" by (simp add: be_bytes_value)
  from le_value_inj [OF _ this] show ?thesis by simp
qed

context binary_sink
begin

lemma put_byte_law:
  "inv s \<Longrightarrow> BinarySink_put_byte wr s b = Some s' \<Longrightarrow> contents s' = contents s @ [b] \<and> inv s'"
  unfolding BinarySink_put_byte_def by (rule write_law)

lemma put_mp_bytes_law:
  "inv s \<Longrightarrow> put_mp_bytes wr s x n = Some s' \<Longrightarrow> contents s' = contents s @ be_bytes x n \<and> inv s'"
proof (induction n arbitrary: s)
  case 0
  then show ?case by (simp add: be_bytes_def)
next
  case (Suc n)
  then obtain s1 where s1: "BinarySink_put_byte wr s (mp_get_byte x n) = Some s1" "put_mp_bytes wr s1 x n = Some s'"
    by (auto split: option.splits)
  with put_byte_law [OF Suc.prems(1) s1(1)] Suc.IH [of s1] show ?case by (simp add: be_bytes_def)
qed

lemma put_mp_ssh2_law:
  assumes "inv s" and "BinarySink_put_mp_ssh2 wr s x = Some s'"
  shows "contents s' = contents s @ ssh2_bytes x \<and> inv s'"
proof -
  from assms(2) obtain s1 where s1: "wr s (PUT_32BIT_MSB_FIRST (ucast ((mp_get_nbits x + 8) div 8))) = Some s1"
    "put_mp_bytes wr s1 x (unat ((mp_get_nbits x + 8) div 8)) = Some s'"
    by (auto simp: BinarySink_put_mp_ssh2_def BinarySink_put_uint32_def Let_def split: option.splits)
  with write_law [OF assms(1) s1(1)] put_mp_bytes_law [OF _ s1(2)] show ?thesis by (simp add: ssh2_bytes_def Let_def)
qed

lemma put_mp_ssh1_law:
  assumes "inv s" and "BinarySink_put_mp_ssh1 wr s x = Some s'"
  shows "contents s' = contents s @ ssh1_bytes x \<and> inv s' \<and> mp_get_nbits x < 0x10000"
proof -
  from assms(2) obtain s1 where s1: "wr s (PUT_16BIT_MSB_FIRST (ucast (ucast (mp_get_nbits x) :: u32))) = Some s1"
    "put_mp_bytes wr s1 x (unat ((mp_get_nbits x + 7) div 8)) = Some s'" "mp_get_nbits x < 0x10000"
    by (auto simp: BinarySink_put_mp_ssh1_def BinarySink_put_uint16_def Let_def split: option.splits if_splits)
  with write_law [OF assms(1) s1(1)] put_mp_bytes_law [OF _ s1(2)] show ?thesis by (simp add: ssh1_bytes_def)
qed

end

text \<open>The test with which \<open>get_mp_ssh2\<close> rejects an encoding, in terms of the value encoded.\<close>

definition ssh2_bad :: "byte list \<Rightarrow> bool" where
  "ssh2_bad p \<longleftrightarrow> length p > 0 \<and> (p ! 0 AND 0x80 \<noteq> 0 \<or> (p ! 0 = 0 \<and> (length p \<le> 1 \<or> \<not> p ! 1 AND 0x80 \<noteq> 0)))"

lemma top_bit_byte: "b AND 0x80 \<noteq> 0 \<longleftrightarrow> 128 \<le> unat (b :: byte)"
proof -
  have "(0x80 :: byte) = push_bit 7 1" by simp
  then have "b AND 0x80 \<noteq> 0 \<longleftrightarrow> bit b 7" by (simp only: bit_iff_and_push_bit_not_eq_0)
  also have "\<dots> \<longleftrightarrow> bit (unat b) 7" by (simp add: bit_unsigned_iff)
  also have "\<dots> \<longleftrightarrow> odd (unat b div 2 ^ 7)" by (rule bit_iff_odd)
  also have "\<dots> \<longleftrightarrow> 128 \<le> unat b"
  proof -
    have "unat b div 2 ^ 7 < 2" using unat_byte_less [of b] by (intro less_mult_imp_div_less) simp
    then have "unat b div 2 ^ 7 = 0 \<or> unat b div 2 ^ 7 = 1" by linarith
    then show ?thesis by (auto simp: div_eq_0_iff)
  qed
  finally show ?thesis .
qed

lemma top_byte_cmp: "l < N \<Longrightarrow> l + N * a < N * k \<longleftrightarrow> a < (k :: nat)"
proof -
  assume l: "l < N"
  show ?thesis
  proof
    assume "l + N * a < N * k"
    then have "N * a < N * k" by linarith
    then show "a < k" by simp
  next
    assume "a < k"
    then have "N * (a + 1) \<le> N * k" by (intro mult_le_mono2) simp
    then show "l + N * a < N * k" using l by (simp add: distrib_left)
  qed
qed

lemma scale_cmp: "x * 2 < 256 * n \<longleftrightarrow> x < n * (128 :: nat)" "x * 512 < 256 * (256 * n) \<longleftrightarrow> x < n * (128 :: nat)"
  "n * 1 \<le> y \<Longrightarrow> 256 * n \<le> (x + y) * (512 :: nat)"
  by auto

lemma ssh2_bad_value:
  assumes "p \<noteq> []"
  shows "ssh2_bad p \<longleftrightarrow> \<not> (le_value (rev p) * 2 < 256 ^ length p \<and> 256 ^ length p \<le> le_value (rev p) * 512)"
proof -
  obtain a q where p: "p = a # q" using assms by (cases p) auto
  let ?l = "le_value (rev q)" and ?N = "256 ^ length q"
  have l: "?l < ?N" using le_value_bound [of "rev q"] by simp
  define V where "V = le_value (rev p)"
  have v: "V = ?l + ?N * unat a" by (simp add: V_def p le_value_append)
  have len: "256 ^ length p = 256 * ?N" by (simp add: p)
  have "V * 2 < 256 ^ length p \<longleftrightarrow> ?l + ?N * unat a < ?N * 128" unfolding v len by (rule scale_cmp(1))
  also have "\<dots> \<longleftrightarrow> unat a < 128" by (rule top_byte_cmp [OF l])
  finally have up: "V * 2 < 256 ^ length p \<longleftrightarrow> unat a < 128" .
  show ?thesis
  proof (cases "a = 0")
    case False
    then have "1 \<le> unat a" by (simp add: Suc_le_eq unat_gt_0)
    then have "?N * 1 \<le> ?N * unat a" by (rule mult_le_mono2)
    then have "256 ^ length p \<le> V * 512" unfolding v len by (rule scale_cmp(3))
    then show ?thesis using False unfolding V_def [symmetric] up by (simp add: ssh2_bad_def p top_bit_byte not_less)
  next
    case zero: True
    show ?thesis
    proof (cases q)
      case Nil
      then show ?thesis using zero by (simp add: ssh2_bad_def p)
    next
      case (Cons b r)
      let ?m = "le_value (rev r)" and ?M = "256 ^ length r"
      have m: "?m < ?M" using le_value_bound [of "rev r"] by simp
      have "V = ?m + ?M * unat b" by (simp add: v zero Cons le_value_append)
      then have "V * 512 < 256 ^ length p \<longleftrightarrow> ?m + ?M * unat b < ?M * 128"
        unfolding len by (simp only: Cons list.size power_Suc add_0_right add_Suc_right power_add scale_cmp(2))
      also have "\<dots> \<longleftrightarrow> unat b < 128" by (rule top_byte_cmp [OF m])
      finally have "256 ^ length p \<le> V * 512 \<longleftrightarrow> 128 \<le> unat b" by (simp only: not_less [symmetric])
      moreover have "V * 2 < 256 ^ length p" using up zero by simp
      ultimately show ?thesis unfolding V_def [symmetric] using zero Cons top_bit_byte [of 0] top_bit_byte [of b] by (auto simp: ssh2_bad_def p)
    qed
  qed
qed


text \<open>The number of bytes written is the only one the reader accepts.\<close>

lemma unat_add_div: "unat (w :: u64) + k < 2 ^ 64 \<Longrightarrow> unat ((w + word_of_nat k) div 8) = (unat w + k) div 8"
proof -
  assume a: "unat w + k < 2 ^ 64"
  have "w + word_of_nat k = word_of_nat (unat w + k)" by simp
  then have "unat (w + word_of_nat k) = unat w + k" using a by (simp only: unat_of_nat take_bit_nat_eq_self) simp
  then show ?thesis by (simp add: unat_div)
qed

lemma nbits_bound: "length x < 2 ^ 58 \<Longrightarrow> unat (mp_get_nbits x) \<le> 64 * length x"
proof (cases "mpv x = 0")
  case False
  assume l: "length x < 2 ^ 58"
  from mp_get_nbits(2) [OF l False] mpv_bound [of x] have "(2 :: nat) ^ (unat (mp_get_nbits x) - 1) < 2 ^ (64 * length x)"
    by linarith
  then have "unat (mp_get_nbits x) - 1 < 64 * length x" by simp
  then show ?thesis by simp
qed (simp add: mp_get_nbits)

lemma nbits_value:
  assumes "length x < 2 ^ 58" and "2 ^ k \<le> mpv x" and "mpv x < 2 ^ Suc k"
  shows "mp_get_nbits x = word_of_nat (Suc k)"
proof -
  let ?n = "unat (mp_get_nbits x)"
  have nz: "mpv x \<noteq> 0" using assms(2) by (metis le_zero_eq power_not_zero zero_neq_numeral)
  note b = mp_get_nbits(1) [OF assms(1)] mp_get_nbits(2,3) [OF assms(1) nz]
  have "(2 :: nat) ^ (?n - 1) < 2 ^ Suc k" using le_less_trans [OF b(2) assms(3)] .
  moreover have "(2 :: nat) ^ k < 2 ^ ?n" using le_less_trans [OF assms(2) b(1)] .
  ultimately have "?n - 1 < Suc k" "k < ?n" by (simp_all only: power_strict_increasing_iff one_less_numeral_iff semiring_norm)
  then have "?n = Suc k" by linarith
  moreover have "word_of_nat ?n = mp_get_nbits x" by simp
  ultimately show ?thesis by metis
qed

lemma nbits_unique:
  assumes "length x < 2 ^ 58" and "length y < 2 ^ 58" and "mpv x = mpv y"
  shows "mp_get_nbits x = mp_get_nbits y"
proof (cases "mpv x = 0")
  case True
  then show ?thesis using assms by (simp add: mp_get_nbits(4))
next
  case False
  have le: "unat (mp_get_nbits a) \<le> unat (mp_get_nbits b)"
    if "length a < 2 ^ 58" "length b < 2 ^ 58" "mpv a = mpv b" "mpv a \<noteq> 0" for a b
  proof -
    have "(2 :: nat) ^ (unat (mp_get_nbits a) - 1) < 2 ^ unat (mp_get_nbits b)"
      using le_less_trans [OF mp_get_nbits(2) [OF that(1,4), unfolded that(3)] mp_get_nbits(1) [OF that(2)]] .
    then show ?thesis by simp
  qed
  show ?thesis using le [OF assms False] le [OF assms(2,1) assms(3) [symmetric]] False assms(3)
    by (simp add: word_unat_eq_iff)
qed

lemma nbits_plus: "length x < 2 ^ 57 \<Longrightarrow> unat ((mp_get_nbits x + 8) div 8) = (unat (mp_get_nbits x) + 8) div 8"
  "length x < 2 ^ 57 \<Longrightarrow> unat ((mp_get_nbits x + 7) div 8) = (unat (mp_get_nbits x) + 7) div 8"
  using unat_add_div [of "mp_get_nbits x" 8] unat_add_div [of "mp_get_nbits x" 7] nbits_bound [of x] by simp_all

lemma ssh2_size:
  assumes "length x < 2 ^ 57" and "mpv x \<noteq> 0"
  shows "n = unat ((mp_get_nbits x + 8) div 8) \<longleftrightarrow> 1 \<le> n \<and> mpv x * 2 < 256 ^ n \<and> 256 ^ n \<le> mpv x * 512"
proof -
  define nb where "nb = unat (mp_get_nbits x)"
  have l: "length x < 2 ^ 58" using assms(1) by simp
  note b = mp_get_nbits(1) [OF l, folded nb_def] mp_get_nbits(2,3) [OF l assms(2), folded nb_def]
  have p: "(256 :: nat) ^ k = 2 ^ (8 * k)" for k by (simp add: power_mult)
  have nb2: "2 ^ nb \<le> mpv x * 2"
  proof -
    have "2 * 2 ^ (nb - 1) = (2 :: nat) ^ nb" using b(3) by (cases nb) simp_all
    then show ?thesis using b(2) by linarith
  qed
  have "n = (nb + 8) div 8 \<longleftrightarrow> 1 \<le> n \<and> mpv x * 2 < 256 ^ n \<and> 256 ^ n \<le> mpv x * 512"
  proof
    assume "n = (nb + 8) div 8"
    then have n: "1 \<le> n" "nb + 1 \<le> 8 * n" "8 * n \<le> nb + 8" by simp_all
    have "mpv x * 2 < 2 ^ (nb + 1)" using b(1) by simp
    also have "\<dots> \<le> 2 ^ (8 * n)" using n(2) by (intro power_increasing) simp_all
    finally have up: "mpv x * 2 < 256 ^ n" by (simp only: p)
    have "(2 :: nat) ^ (8 * n) \<le> 2 ^ (nb + 8)" using n(3) by (intro power_increasing) simp_all
    also have "\<dots> = 2 ^ nb * 256" by (simp add: power_add)
    also have "\<dots> \<le> mpv x * 2 * 256" using nb2 by (intro mult_le_mono1)
    finally have "256 ^ n \<le> mpv x * 512" by (simp add: p)
    with n(1) up show "1 \<le> n \<and> mpv x * 2 < 256 ^ n \<and> 256 ^ n \<le> mpv x * 512" by simp
  next
    assume a: "1 \<le> n \<and> mpv x * 2 < 256 ^ n \<and> 256 ^ n \<le> mpv x * 512"
    then have "(2 :: nat) ^ nb < 2 ^ (8 * n)" using nb2 unfolding p by linarith
    then have u: "nb < 8 * n" by simp
    have "mpv x * 512 < 2 ^ nb * 512" using b(1) by simp
    also have "\<dots> = 2 ^ (nb + 9)" by (simp add: power_add)
    finally have "(2 :: nat) ^ (8 * n) < 2 ^ (nb + 9)" using a unfolding p by linarith
    then have "8 * n < nb + 9" by simp
    with u show "n = (nb + 8) div 8" by (intro div_nat_eqI [symmetric]) simp_all
  qed
  then show ?thesis by (simp only: nbits_plus(1) [OF assms(1)] nb_def)
qed

lemma get_string_here:
  assumes "src_inv src" "src_err src = BSE_NO_ERROR" "here src = PUT_32BIT_MSB_FIRST (word_of_nat (length p)) @ p @ rest"
    and "length p < 2 ^ 32"
  shows "BinarySource_get_string src = (p, src\<lparr>src_pos := src_pos src + 4 + length p\<rparr>)"
  using get_field_encode [OF assms(1,2), of "F_string p" rest] assms(3,4)
  by (cases "BinarySource_get_string src") (simp add: add.assoc)

lemma get_mp_ssh2_here:
  assumes "src_inv src" "src_err src = BSE_NO_ERROR" "here src = PUT_32BIT_MSB_FIRST (word_of_nat (length p)) @ p @ rest"
    and "length p < 2 ^ 32"
  shows "BinarySource_get_mp_ssh2 src =
    (if ssh2_bad p then Some (mp_from_integer 0, src\<lparr>src_pos := src_pos src + 4 + length p, src_err := BSE_INVALID\<rparr>)
     else map_option (\<lambda>x. (x, src\<lparr>src_pos := src_pos src + 4 + length p\<rparr>)) (mp_from_bytes_be p))"
  using assms(2) by (simp add: BinarySource_get_mp_ssh2_def get_string_here [OF assms] ssh2_bad_def)

lemma get_mp_ssh1_here:
  assumes "src_inv src" "src_err src = BSE_NO_ERROR" "here src = PUT_16BIT_MSB_FIRST (ucast (v :: u32)) @ p @ rest"
    and "v < 0x10000" and "length p = unat ((v + 7) div 8)"
  shows "BinarySource_get_mp_ssh1 src =
    (case mp_from_bytes_be p of None \<Rightarrow> None | Some x \<Rightarrow>
      if mp_get_nbits x > ucast v then Some (mp_from_integer 0, src\<lparr>src_pos := src_pos src + 2 + length p, src_err := BSE_INVALID\<rparr>)
      else Some (x, src\<lparr>src_pos := src_pos src + 2 + length p\<rparr>))"
proof -
  have "ucast (ucast v :: u16) = v"
  proof (rule bit_word_eqI)
    fix n assume "n < LENGTH(32)"
    have "unat v < 2 ^ 16" using assms(4) by (simp add: word_less_nat_alt)
    then have "v = take_bit 16 v" by (simp add: word_unat_eq_iff unsigned_take_bit_eq take_bit_nat_eq_self)
    then have "bit v n \<longleftrightarrow> n < 16 \<and> bit v n" by (metis bit_take_bit_iff)
    then show "bit (ucast (ucast v :: u16) :: u32) n = bit v n" by (auto simp: bit_ucast_iff)
  qed
  with get_field_encode [OF assms(1,2), of "F_uint16 (ucast v)" "p @ rest"] assms(1-3)
  have u: "BinarySource_get_uint16 src = (v, src\<lparr>src_pos := src_pos src + 2\<rparr>)"
    by (simp add: BinarySource_get_uint16_def avail_here consume_here GET_PUT_16)
  let ?s = "src\<lparr>src_pos := src_pos src + 2\<rparr>"
  have "here ?s = p @ rest" "src_inv ?s"
    using assms(1,3) here_length [OF assms(1)] here_advance [of src 2] by (simp_all add: src_inv_def)
  with get_field_encode [of ?s "F_data p" rest] assms(2)
  have d: "BinarySource_get_data ?s (length p) = (p, src\<lparr>src_pos := src_pos src + 2 + length p\<rparr>)"
    by (cases "BinarySource_get_data ?s (length p)") simp
  show ?thesis using assms(2) d by (simp add: BinarySource_get_mp_ssh1_def u assms(5) split: option.splits)
qed


lemma mpv_from_integer [simp]: "mpv (mp_from_integer n) = unat n"
  by (simp add: mp_from_integer_def)

lemma be_bytes_exact:
  assumes "mpv x < 256 ^ n" and "n < 2 ^ 64"
  shows "\<exists>y. mp_from_bytes_be (be_bytes x n) = Some y \<and> length y = max ((n + 7) div 8) 1 \<and> mpv y = mpv x"
  using mp_from_bytes_be [of "be_bytes x n"] assms by (simp add: be_bytes_value)

lemma ssh2_bad_be_bytes:
  assumes "length x < 2 ^ 57" and "n = unat ((mp_get_nbits x + 8) div 8)"
  shows "ssh2_bad (be_bytes x n) \<longleftrightarrow> mpv x = 0" and "mpv x < 256 ^ n"
proof -
  have n: "1 \<le> n" using nbits_plus(1) [OF assms(1)] unfolding assms(2) by simp
  then have ne: "be_bytes x n \<noteq> []" by (metis length_be_bytes list.size(3) not_one_le_zero)
  have c: "mpv x = 0 \<or> mpv x * 2 < 256 ^ n \<and> 256 ^ n \<le> mpv x * 512"
    using ssh2_size [OF assms(1)] assms(2) by blast
  then show lt: "mpv x < 256 ^ n" by auto
  show "ssh2_bad (be_bytes x n) \<longleftrightarrow> mpv x = 0"
    unfolding ssh2_bad_value [OF ne] using lt c by (auto simp: be_bytes_value)
qed

text \<open>C34: The wire formats of multiprecision integers: a number written in the SSH-1 format and one written
  in the SSH-2 format after it, on an empty string buffer, are read back with the same values, each
  reader stopping just behind its number; except that the SSH-2 encoding of zero, which is written as
  one zero byte, is refused by the reader as invalid.\<close>

theorem mp_wire_roundtrip:
  assumes "strbuf_new_general malloc_ok nm = Some b"
    and "BinarySink_put_mp_ssh1 (strbuf_BinarySink_write malloc_ok) b x = Some b1"
    and "BinarySink_put_mp_ssh2 (strbuf_BinarySink_write malloc_ok) b1 y = Some b2"
    and "length x < 2 ^ 28" and "length y < 2 ^ 28"
  shows "\<exists>u v s1 s2. BinarySource_get_mp_ssh1 (BinarySource_INIT (sb_bytes b2)) = Some (u, s1) \<and>
    BinarySource_get_mp_ssh2 s1 = Some (v, s2) \<and> mpv u = mpv x \<and> mpv v = mpv y \<and> src_err s1 = BSE_NO_ERROR \<and>
    src_err s2 = (if mpv y = 0 then BSE_INVALID else BSE_NO_ERROR) \<and>
    src_pos s1 = length (sb_bytes b1) \<and> src_pos s2 = length (sb_bytes b2)"
proof -
  define v n m where "v = (ucast (mp_get_nbits x) :: u32)" and "n = unat ((mp_get_nbits x + 7) div 8)"
    and "m = unat ((mp_get_nbits y + 8) div 8)"
  have l: "length x < 2 ^ 58" "length x < 2 ^ 57" "length y < 2 ^ 57" using assms(4,5) by simp_all
  from sb_sink.put_mp_ssh1_law [OF _ assms(2)] strbuf_inv_new [OF assms(1)]
  have b1: "sb_bytes b1 = ssh1_bytes x" "strbuf_inv b1" "mp_get_nbits x < 0x10000" by simp_all
  from sb_sink.put_mp_ssh2_law [OF b1(2) assms(3)] have b2: "sb_bytes b2 = ssh1_bytes x @ ssh2_bytes y"
    by (simp add: b1(1))
  have nb: "unat (mp_get_nbits x) < 65536" using b1(3) by (simp add: word_less_nat_alt)
  then have v: "unat v = unat (mp_get_nbits x)" by (simp add: v_def unsigned_ucast_eq take_bit_nat_eq_self)
  have n: "n = (unat (mp_get_nbits x) + 7) div 8" unfolding n_def by (rule nbits_plus(2) [OF l(2)])
  have "mpv x < 2 ^ (8 * n)"
    using less_le_trans [OF mp_get_nbits(1) [OF l(1)] power_increasing [of _ "8 * n"]] n by simp
  then have xn: "mpv x < 256 ^ n" by (simp add: power_mult)
  have n64: "n < 2 ^ 64" using n nb by simp
  obtain u where u: "mp_from_bytes_be (be_bytes x n) = Some u"
    "length u = max ((n + 7) div 8) 1" "mpv u = mpv x" using be_bytes_exact [OF xn n64] by auto
  have "length u < 2 ^ 58" using u(2) n nb by simp
  then have nbu: "mp_get_nbits u = mp_get_nbits x" using l(1) u(3) by (rule nbits_unique)
  let ?s = "BinarySource_INIT (sb_bytes b2)"
  have h1: "here ?s = PUT_16BIT_MSB_FIRST (ucast v) @ be_bytes x n @ ssh2_bytes y"
    by (simp add: here_def b2 ssh1_bytes_def v_def n_def)
  have vn: "length (be_bytes x n) = unat ((v + 7) div 8)"
  proof -
    have "unat (v + 7) = unat v + 7" using v nb by (simp add: unat_word_ariths)
    then show ?thesis by (simp add: n v unat_div)
  qed
  have v16: "v < 0x10000" using v nb by (simp add: word_less_nat_alt)
  have vv: "ucast v = mp_get_nbits x" using v nb by (simp add: word_unat_eq_iff unsigned_ucast_eq take_bit_nat_eq_self)
  let ?s1 = "?s\<lparr>src_pos := 2 + n\<rparr>"
  have g1: "BinarySource_get_mp_ssh1 ?s = Some (u, ?s1)"
    using get_mp_ssh1_here [OF src_inv_INIT src_err_INIT h1 v16 vn] by (simp add: u(1) nbu vv)
  have p1: "length (sb_bytes b1) = 2 + n" by (simp add: b1(1) ssh1_bytes_def n_def)
  have m: "m < 2 ^ 32" using nbits_plus(1) [OF l(3)] nbits_bound [of y] assms(5) by (simp add: m_def)
  have h2: "here ?s1 = PUT_32BIT_MSB_FIRST (word_of_nat (length (be_bytes y m))) @ be_bytes y m @ []"
    by (simp add: here_def b2 ssh1_bytes_def ssh2_bytes_def n_def m_def of_nat_unat)
  have i1: "src_inv ?s1" by (simp add: src_inv_def b2 ssh1_bytes_def n_def)
  from be_bytes_exact [OF ssh2_bad_be_bytes(2) [OF l(3) m_def]] m obtain w where
    w: "mp_from_bytes_be (be_bytes y m) = Some w" "mpv w = mpv y" by auto
  have len2: "length (sb_bytes b2) = 2 + n + 4 + m"
    by (simp add: b2 ssh1_bytes_def ssh2_bytes_def n_def m_def Let_def)
  have "BinarySource_get_mp_ssh2 ?s1 = Some (if mpv y = 0
      then (mp_from_integer 0, ?s\<lparr>src_pos := 2 + n + 4 + m, src_err := BSE_INVALID\<rparr>) else (w, ?s\<lparr>src_pos := 2 + n + 4 + m\<rparr>))"
    using get_mp_ssh2_here [OF i1 _ h2] m by (simp add: ssh2_bad_be_bytes(1) [OF l(3) m_def] w(1))
  then show ?thesis using g1 u(3) w(2) p1 len2 by auto
qed


lemma mp_wire_roundtrip_witness:
  "\<exists>b b1 b2. strbuf_new_general (\<lambda>_. True) False = Some b \<and>
     BinarySink_put_mp_ssh1 (strbuf_BinarySink_write (\<lambda>_. True)) b [0x1234] = Some b1 \<and>
     BinarySink_put_mp_ssh2 (strbuf_BinarySink_write (\<lambda>_. True)) b1 [0x80, 0] = Some b2 \<and>
     (\<exists>u v s1 s2. BinarySource_get_mp_ssh1 (BinarySource_INIT (sb_bytes b2)) = Some (u, s1) \<and>
       BinarySource_get_mp_ssh2 s1 = Some (v, s2) \<and> mpv u = 0x1234 \<and> mpv v = 0x80 \<and> src_pos s2 = length (sb_bytes b2))"
proof -
  define b where "b = \<lparr>sb_size = 512, sb_nm = False, sb_bytes = []\<rparr>"
  define b1 where "b1 = \<lparr>sb_size = 512, sb_nm = False, sb_bytes = [0, 13, 0x12, 0x34 :: byte]\<rparr>"
  define b2 where "b2 = \<lparr>sb_size = 512, sb_nm = False, sb_bytes = [0, 13, 0x12, 0x34, 0, 0, 0, 2, 0, 0x80 :: byte]\<rparr>"
  have n: "mp_get_nbits [0x1234] = 13" "mp_get_nbits [0x80, 0] = 8"
    using nbits_value [of "[0x1234]" 12] nbits_value [of "[0x80, 0]" 7] by simp_all
  have y: "mp_get_byte [0x1234] 0 = 0x34" "mp_get_byte [0x1234] 1 = 0x12" "mp_get_byte [0x80, 0] 0 = 0x80"
    "mp_get_byte [0x80, 0] 1 = 0" by (simp_all add: mp_get_byte_def mp_word_def)
  note defs = b_def b1_def b2_def strbuf_BinarySink_write_def safegrowarray_def SIZE_MAX_def sb_len_def n
    BinarySink_put_byte_def BinarySink_put_uint16_def BinarySink_put_uint32_def
    PUT_16BIT_MSB_FIRST_def PUT_32BIT_MSB_FIRST_def
  have m: "put_mp_bytes wr s x 2 = (case BinarySink_put_byte wr s (mp_get_byte x 1) of None \<Rightarrow> None
      | Some bs \<Rightarrow> BinarySink_put_byte wr bs (mp_get_byte x 0))" for wr :: "strbuf sink_write" and s x
    by (simp add: numeral_2_eq_2 split: option.splits)
  have b: "strbuf_new_general (\<lambda>_. True) False = Some b"
    "BinarySink_put_mp_ssh1 (strbuf_BinarySink_write (\<lambda>_. True)) b [0x1234] = Some b1"
    "BinarySink_put_mp_ssh2 (strbuf_BinarySink_write (\<lambda>_. True)) b1 [0x80, 0] = Some b2"
    by (simp add: b_def strbuf_new_general_def safemalloc_def SIZE_MAX_def)
      (simp_all add: BinarySink_put_mp_ssh1_def BinarySink_put_mp_ssh2_def Let_def m y [unfolded One_nat_def] defs)
  from mp_wire_roundtrip [OF b] b show ?thesis by simp blast
qed

text \<open>The encoding of zero is not the one its own reader accepts.\<close>

lemma put_mp_bytes_list: "put_mp_bytes (\<lambda>s d. Some (s @ d)) s x n = Some (s @ be_bytes x n)"
  by (induction n arbitrary: s) (simp_all add: be_bytes_def BinarySink_put_byte_def)

lemma put_mp_ssh2_list: "BinarySink_put_mp_ssh2 (\<lambda>s d. Some (s @ d)) s x = Some (s @ ssh2_bytes x)"
  by (simp add: BinarySink_put_mp_ssh2_def BinarySink_put_uint32_def put_mp_bytes_list ssh2_bytes_def Let_def)

lemma PUT_GET_32: "length b = 4 \<Longrightarrow> PUT_32BIT_MSB_FIRST (GET_32BIT_MSB_FIRST b) = b"
proof -
  assume "length b = 4"
  then obtain a0 a1 a2 a3 where b: "b = [a0, a1, a2, a3]" by (auto simp: length_4_conv)
  have s: "bit (push_bit m (ucast x :: u32)) (k + n) \<longleftrightarrow> m \<le> k + n \<and> k + n < 32 \<and> bit x (k + n - m)" for m k n and x :: byte
    by (auto simp: bit_push_bit_iff bit_ucast_iff)
  have z: "8 \<le> n \<Longrightarrow> \<not> bit x n" for x :: byte and n using bit_imp_le_length [of x n] by auto
  have e: "ucast (drop_bit k (GET_32BIT_MSB_FIRST b)) = (y :: byte)"
    if "(k, y) \<in> {(0, a3), (8, a2), (16, a1), (24, a0)}" for k y
  proof (rule bit_word_eqI)
    fix n assume "n < LENGTH(8)"
    then have n: "n < 8" by simp
    show "bit (ucast (drop_bit k (GET_32BIT_MSB_FIRST b)) :: byte) n = bit y n"
      using that n s [of 0 a3 k n] by (auto simp: b GET_32BIT_MSB_FIRST_def bit_ucast_iff bit_drop_bit_eq bit_or_iff s z)
  qed
  show ?thesis unfolding PUT_32BIT_MSB_FIRST_def using e [of 24 a0] e [of 16 a1] e [of 8 a2] e [of 0 a3] by (simp add: b)
qed

lemma get_string_split:
  assumes "src_inv src" and "BinarySource_get_string src = (p, s1)" and "src_err s1 = BSE_NO_ERROR"
  shows "src_err src = BSE_NO_ERROR" and "src_pos s1 = src_pos src + 4 + length p" and "length p < 2 ^ 32"
    and "take (4 + length p) (here src) = PUT_32BIT_MSB_FIRST (word_of_nat (length p)) @ p"
proof -
  let ?h = "take 4 (here src)"
  have e: "src_err src = BSE_NO_ERROR" and l4: "4 \<le> length (here src)"
    using assms by (auto simp: BinarySource_get_string_def BinarySource_data_avail_def here_length split: if_splits)
  show "src_err src = BSE_NO_ERROR" by (rule e)
  let ?s = "src\<lparr>src_pos := src_pos src + 4\<rparr>" and ?n = "unat (GET_32BIT_MSB_FIRST ?h)"
  have i: "src_inv ?s" using assms(1) l4 here_length [OF assms(1)] by (simp add: src_inv_def)
  have g: "BinarySource_get_string src =
      (case BinarySource_data_avail ?s ?n of (False, src) \<Rightarrow> ([], src) | (True, src) \<Rightarrow> consume src ?n)"
    by (simp add: BinarySource_get_string_def avail_here [OF assms(1) e l4] consume_here Let_def)
  have ln: "?n \<le> length (here ?s)"
    using g assms(2,3) i e by (auto simp: BinarySource_data_avail_def here_length split: if_splits)
  have r: "p = take ?n (drop 4 (here src))" "s1 = src\<lparr>src_pos := src_pos src + 4 + ?n\<rparr>"
    using assms(2) g avail_here [OF i _ ln] e here_advance [of src 4] by (simp_all add: consume_here)
  have lp: "length p = ?n" using r(1) ln here_advance [of src 4] by simp
  show "src_pos s1 = src_pos src + 4 + length p" by (simp add: r(2) lp)
  show "length p < 2 ^ 32" unfolding lp using unsigned_less [of "GET_32BIT_MSB_FIRST ?h"] by simp
  have "PUT_32BIT_MSB_FIRST (word_of_nat (length p)) = ?h" unfolding lp using l4 by (simp add: PUT_GET_32)
  then show "take (4 + length p) (here src) = PUT_32BIT_MSB_FIRST (word_of_nat (length p)) @ p"
    by (simp add: take_add lp flip: r(1))
qed


text \<open>C35: The SSH-2 format is canonical: whenever \<open>get_mp_ssh2\<close> accepts a nonzero number without an error,
  the bytes it consumed, at whatever position of whatever data, are exactly those \<open>put_mp_ssh2\<close> writes
  for that number, so no number has two encodings.\<close>

theorem mp_ssh2_canonical:
  assumes "src_inv src" and "BinarySource_get_mp_ssh2 src = Some (x, src')" and "src_err src' = BSE_NO_ERROR"
    and "mpv x \<noteq> 0"
  shows "BinarySink_put_mp_ssh2 (\<lambda>s d. Some (s @ d)) [] x = Some (take (src_pos src' - src_pos src) (here src))"
proof -
  obtain p s1 where g: "BinarySource_get_string src = (p, s1)" by fastforce
  have e: "src_err s1 = BSE_NO_ERROR" "\<not> ssh2_bad p" "mp_from_bytes_be p = Some x" "src' = s1"
    using assms(2,3) by (auto simp: BinarySource_get_mp_ssh2_def g ssh2_bad_def split: if_splits)
  note s = get_string_split [OF assms(1) g e(1)]
  from mp_from_bytes_be [of p] s(3) e(3) have x: "length x = max ((length p + 7) div 8) 1" "mpv x = le_value (rev p)" by auto
  have p: "p \<noteq> []" using x(2) assms(4) by auto
  have l: "length x < 2 ^ 57" using x(1) s(3) by simp
  have n: "length p = unat ((mp_get_nbits x + 8) div 8)"
    using ssh2_bad_value [OF p] e(2) p unfolding ssh2_size [OF l assms(4)] x(2) by (simp add: Suc_le_eq)
  have "ssh2_bytes x = PUT_32BIT_MSB_FIRST (word_of_nat (length p)) @ be_bytes x (length p)"
    by (simp add: ssh2_bytes_def Let_def n)
  also have "be_bytes x (length p) = p" using be_bytes_unique x(2) by metis
  finally show ?thesis using s(2,4) e(4) by (simp add: put_mp_ssh2_list add.commute)
qed

lemma mp_ssh2_canonical_witness:
  "\<exists>x src'. BinarySource_get_mp_ssh2 (BinarySource_INIT [0, 0, 0, 2, 0, 0x80, 7]) = Some (x, src') \<and>
     BinarySink_put_mp_ssh2 (\<lambda>s d. Some (s @ d)) [] x = Some [0, 0, 0, 2, 0, 0x80]"
proof -
  let ?s = "BinarySource_INIT [0, 0, 0, 2, 0, 0x80, 7]"
  have g: "BinarySource_get_mp_ssh2 ?s = Some ([0x80], ?s\<lparr>src_pos := 6\<rparr>)"
    by (simp add: BinarySource_get_mp_ssh2_def BinarySource_get_string_def BinarySource_data_avail_def consume_def
      BinarySource_INIT_def GET_32BIT_MSB_FIRST_def mp_from_bytes_be_def mp_from_bytes_int_def mp_make_sized_def)
  from mp_ssh2_canonical [OF src_inv_INIT g] g show ?thesis by (auto simp: here_def)
qed

text \<open>The encoding of zero, by contrast, is not one the reader accepts.\<close>

lemma mp_ssh2_zero:
  "BinarySink_put_mp_ssh2 (\<lambda>s d. Some (s @ d)) [] [0] = Some [0, 0, 0, 1, 0]"
  "map_option (src_err \<circ> snd) (BinarySource_get_mp_ssh2 (BinarySource_INIT [0, 0, 0, 1, 0])) = Some BSE_INVALID"
  by code_simp+


end
