(* ===== verification/MpMonty.thy ===== *)
theory MpMonty
  imports MpMul MpWire
begin

text \<open>
  Inverses modulo powers of two and Montgomery arithmetic (\<open>crypto/mpint.c\<close>). A function that reaches
  a failed assertion, in itself or in the multiplication it calls, is \<open>None\<close>.
\<close>

subsection \<open>Inverses modulo a power of two\<close>

text \<open>One round of the loop of \<open>mp_invert_mod_2to\<close>: \<open>r\<close> holds the inverse modulo \<open>2^b\<close>. \<open>pool\<close> is the
  scratch space left for one iteration, \<open>mul_scratch\<close> the part set aside for the multiplications.\<close>

definition invert_step :: "mp_int \<Rightarrow> nat \<Rightarrow> nat \<Rightarrow> nat \<Rightarrow> mp_int \<Rightarrow> mp_int option" where
  "invert_step x pool mul_scratch b r =
     (let Bw = (b + BIGNUM_INT_BITS - 1) div BIGNUM_INT_BITS;
          B2w = (2 * b + BIGNUM_INT_BITS - 1) div BIGNUM_INT_BITS
      in case mp_alloc_from_scratch pool Bw of None \<Rightarrow> None | Some pool \<Rightarrow>
        let x0 = mp_reduce_mod_2to (mp_copy_into Bw x) b; r0 = mp_make_alias r 0 Bw in
        case mp_alloc_from_scratch pool B2w of None \<Rightarrow> None | Some pool \<Rightarrow>
        (case mp_mul_internal B2w x0 r0 mul_scratch of None \<Rightarrow> None | Some Kshift \<Rightarrow>
        (case mp_alloc_from_scratch pool Bw of None \<Rightarrow> None | Some pool \<Rightarrow>
        let K = mp_rshift_fixed_into Bw Kshift b in
        case mp_alloc_from_scratch pool Bw of None \<Rightarrow> None | Some pool \<Rightarrow>
        let x1 = mp_reduce_mod_2to (mp_rshift_fixed_into Bw x b) b in
        case mp_mul_internal (length (mp_make_alias Kshift 0 Bw)) r0 x1 mul_scratch of None \<Rightarrow> None | Some r0x1 \<Rightarrow>
        let r0x1 = mp_add_into (length r0x1) r0x1 K; r0x1 = mp_neg_into (length r0x1) r0x1 in
        case mp_alloc_from_scratch pool Bw of None \<Rightarrow> None | Some pool \<Rightarrow>
        (case mp_mul_internal Bw r0 r0x1 mul_scratch of None \<Rightarrow> None | Some r1 \<Rightarrow>
        let r1 = mp_reduce_mod_2to r1 b;
            K = mp_lshift_fixed_into Bw r1 (b mod BIGNUM_INT_BITS);
            Bpos = b div BIGNUM_INT_BITS;
            r1_position = mp_make_alias r Bpos (B2w - Bpos)
        in Some (take Bpos r @ mp_add_into (length r1_position) r1_position K @ drop (Bpos + length r1_position) r)))))"

function invert_loop :: "mp_int \<Rightarrow> nat \<Rightarrow> nat \<Rightarrow> nat \<Rightarrow> nat \<Rightarrow> mp_int \<Rightarrow> mp_int option" where
  "invert_loop x pool mul_scratch p b r =
     (if b = 0 \<or> \<not> b < p then Some r
      else case invert_step x pool mul_scratch b r of None \<Rightarrow> None
        | Some r \<Rightarrow> invert_loop x pool mul_scratch p (b * 2) r)"
  by pat_completeness auto
termination by (relation "measure (\<lambda>(x, pool, ms, p, b, r). p - b)") auto

declare invert_loop.simps [simp del]

definition mp_invert_mod_2to :: "mp_int \<Rightarrow> nat \<Rightarrow> mp_int option" where
  "mp_invert_mod_2to x p =
     (if \<not> length x > 0 then None
      else if \<not> x ! 0 AND 1 \<noteq> 0 then None
      else if \<not> p > 0 then None
      else
        let rw = (p + BIGNUM_INT_BITS - 1) div BIGNUM_INT_BITS; rw = max rw 1 in
        case mp_make_sized rw of None \<Rightarrow> None | Some r \<Rightarrow>
        let mul_scratchsize = mp_mul_scratchspace (2 * rw) rw rw in
        case mp_make_sized (6 * rw + mul_scratchsize) of None \<Rightarrow> None | Some scratch_orig \<Rightarrow>
        (case mp_alloc_from_scratch (length scratch_orig) mul_scratchsize of None \<Rightarrow> None | Some pool \<Rightarrow>
        let r = r[0 := 1] in
        case invert_loop x pool mul_scratchsize p 1 r of None \<Rightarrow> None | Some r \<Rightarrow>
        Some (mp_reduce_mod_2to r p)))"

subsection \<open>Montgomery arithmetic\<close>

record MontyContext =
  mc_m :: mp_int
  mc_rbits :: nat
  mc_rw :: nat
  mc_pw :: nat
  mc_minus_minv_mod_r :: mp_int
  mc_powers_of_r_mod_m :: "mp_int list"
  mc_scratch :: nat

definition monty_scratch_size :: "MontyContext \<Rightarrow> nat" where
  "monty_scratch_size mc =
     3 * mc_rw mc + mc_pw mc + mp_mul_scratchspace (mc_pw mc) (mc_rw mc) (mc_rw mc)"

text \<open>The reduction step, with the scratch space that is left.\<close>

definition monty_reduce_internal :: "MontyContext \<Rightarrow> mp_int \<Rightarrow> nat \<Rightarrow> mp_int option" where
  "monty_reduce_internal mc x scratch =
     (let x_lo = mp_make_alias x 0 (mc_rbits mc) in
      case mp_alloc_from_scratch scratch (mc_rw mc) of None \<Rightarrow> None | Some scratch \<Rightarrow>
      (case mp_mul_internal (mc_rw mc) x_lo (mc_minus_minv_mod_r mc) scratch of None \<Rightarrow> None | Some k \<Rightarrow>
      (case mp_alloc_from_scratch scratch (mc_pw mc) of None \<Rightarrow> None | Some scratch \<Rightarrow>
      (case mp_mul_internal (mc_pw mc) (mc_m mc) k scratch of None \<Rightarrow> None | Some mk \<Rightarrow>
      let mk = mp_add_into (length mk) x mk;
          toret = mp_make_alias mk (mc_rw mc) (length mk - mc_rw mc)
      in Some (mp_cond_sub_into (length toret) toret (mc_m mc) (mp_cmp_hs toret (mc_m mc)))))))"

definition monty_mul_into :: "MontyContext \<Rightarrow> nat \<Rightarrow> mp_int \<Rightarrow> mp_int \<Rightarrow> mp_int option" where
  "monty_mul_into mc rw x y =
     (if \<not> length x \<le> mc_rw mc then None
      else if \<not> length y \<le> mc_rw mc then None
      else case mp_alloc_from_scratch (mc_scratch mc) (2 * mc_rw mc) of None \<Rightarrow> None | Some scratch \<Rightarrow>
        (case mp_mul_into (2 * mc_rw mc) x y of None \<Rightarrow> None | Some tmp \<Rightarrow>
          map_option (mp_copy_into rw) (monty_reduce_internal mc tmp scratch)))"

definition monty_mul :: "MontyContext \<Rightarrow> mp_int \<Rightarrow> mp_int \<Rightarrow> mp_int option" where
  "monty_mul mc x y =
     (case mp_make_sized (mc_rw mc) of None \<Rightarrow> None | Some toret \<Rightarrow> monty_mul_into mc (length toret) x y)"

definition monty_modulus :: "MontyContext \<Rightarrow> mp_int" where "monty_modulus mc = mc_m mc"

definition monty_identity :: "MontyContext \<Rightarrow> mp_int" where
  "monty_identity mc = mc_powers_of_r_mod_m mc ! 0"

definition monty_export_into :: "MontyContext \<Rightarrow> nat \<Rightarrow> mp_int \<Rightarrow> mp_int option" where
  "monty_export_into mc rw x =
     (if \<not> length x \<le> 2 * mc_rw mc then None
      else map_option (mp_copy_into rw) (monty_reduce_internal mc x (mc_scratch mc)))"

definition monty_export :: "MontyContext \<Rightarrow> mp_int \<Rightarrow> mp_int option" where
  "monty_export mc x =
     (case mp_make_sized (mc_rw mc) of None \<Rightarrow> None | Some toret \<Rightarrow> monty_export_into mc (length toret) x)"

definition monty_reduce :: "MontyContext \<Rightarrow> mp_int \<Rightarrow> mp_int option" where
  "monty_reduce mc x = map_option (mp_copy_into (length x)) (monty_reduce_internal mc x (mc_scratch mc))"

text \<open>The loop of \<open>monty_pow\<close>; \<open>tw\<close> is the number of words of \<open>tmp\<close>.\<close>

function monty_pow_loop ::
    "MontyContext \<Rightarrow> mp_int \<Rightarrow> nat \<Rightarrow> nat \<Rightarrow> mp_int \<Rightarrow> mp_int \<Rightarrow> mp_int option" where
  "monty_pow_loop mc exponent tw i square out =
     (case Option.bind (mp_mul_into tw out square) (monty_reduce mc) of None \<Rightarrow> None | Some tmp \<Rightarrow>
      let out = mp_select_into (length out) out tmp (mp_get_bit exponent i); i = i + 1 in
      if i \<ge> length exponent * BIGNUM_INT_BITS then Some out
      else case Option.bind (mp_mul_into tw square square) (monty_reduce mc) of None \<Rightarrow> None | Some tmp \<Rightarrow>
        monty_pow_loop mc exponent tw i (mp_copy_into (length square) tmp) out)"
  by pat_completeness auto
termination by (relation "measure (\<lambda>(mc, e, tw, i, s, out). length e * BIGNUM_INT_BITS - i)") auto

declare monty_pow_loop.simps [simp del]

definition monty_pow :: "MontyContext \<Rightarrow> mp_int \<Rightarrow> mp_int \<Rightarrow> mp_int option" where
  "monty_pow mc base exponent =
     (case mp_copy base of None \<Rightarrow> None | Some square \<Rightarrow>
      (case mp_copy (mc_powers_of_r_mod_m mc ! 0) of None \<Rightarrow> None | Some out \<Rightarrow>
      (case mp_make_sized (mc_rw mc * 2) of None \<Rightarrow> None | Some tmp \<Rightarrow>
       monty_pow_loop mc exponent (length tmp) 0 square out)))"

subsection \<open>Shifts and masks\<close>

lemma bit_mpv_map: "bit (mpv (List.map f [0..<n])) i \<longleftrightarrow> i < 64 * n \<and> bit (f (i div 64)) (i mod 64)"
proof -
  have "i div 64 < n \<longleftrightarrow> i < 64 * n" by (simp add: div_less_iff_less_mult mult.commute)
  then show ?thesis by (auto simp: bit_mpv mp_word_def)
qed

lemma bit_mpv_at: "t < 64 \<Longrightarrow> bit (mpv a) (64 * q + t) \<longleftrightarrow> bit (mp_word a q) t"
  by (simp add: bit_mpv)

lemma word_bit_64: "64 \<le> n \<Longrightarrow> \<not> bit (x :: BignumInt) n"
  using bit_imp_le_length [of x n] by auto

lemma mp_rshift_fixed_into:
  "length (mp_rshift_fixed_into rw a bits) = rw" "mpv (mp_rshift_fixed_into rw a bits) = mpv a div 2 ^ bits mod 2 ^ (64 * rw)"
proof -
  show "length (mp_rshift_fixed_into rw a bits) = rw" by (simp add: mp_rshift_fixed_into_def Let_def)
  let ?ws = "bits div 64" and ?o = "bits mod 64"
  let ?f = "\<lambda>i. if ?o \<noteq> 0 then drop_bit ?o (mp_word a (i + ?ws)) OR push_bit (64 - ?o) (mp_word a (i + ?ws + 1))
      else mp_word a (i + ?ws)"
  have f: "bit (?f q) t \<longleftrightarrow> bit (mpv a) (64 * q + t + bits)" if t: "t < 64" for q t
  proof (cases "t + ?o < 64")
    case True
    have "64 * q + t + bits = 64 * (q + ?ws) + (t + ?o)" by simp
    then have "bit (mpv a) (64 * q + t + bits) \<longleftrightarrow> bit (mp_word a (q + ?ws)) (t + ?o)" using bit_mpv_at [OF True] by metis
    then show ?thesis using True t by (auto simp: bit_or_iff bit_drop_bit_eq bit_push_bit_iff add.commute)
  next
    case False
    have o: "?o < 64" by simp
    have lt: "t + ?o - 64 < 64" using t o by linarith
    have "64 * q + t + bits = 64 * (q + ?ws) + (t + ?o)" by simp
    then have "64 * q + t + bits = 64 * (q + ?ws + 1) + (t + ?o - 64)" using False by simp
    then have "bit (mpv a) (64 * q + t + bits) \<longleftrightarrow> bit (mp_word a (q + ?ws + 1)) (t + ?o - 64)"
      using bit_mpv_at [OF lt] by metis
    moreover have "t - (64 - ?o) = t + ?o - 64" "64 - ?o \<le> t" "?o \<noteq> 0" using False t o by linarith+
    moreover have "\<not> bit (mp_word a (q + ?ws)) (?o + t)" using False by (intro word_bit_64) simp
    ultimately show ?thesis using t by (simp add: bit_or_iff bit_drop_bit_eq bit_push_bit_iff)
  qed
  have e: "mp_rshift_fixed_into rw a bits = List.map ?f [0..<rw]"
    by (simp add: mp_rshift_fixed_into_def Let_def)
  have "mpv (List.map ?f [0..<rw]) = take_bit (64 * rw) (drop_bit bits (mpv a))"
  proof (rule bit_eqI)
    fix i :: nat
    have "64 * (i div 64) + i mod 64 = (i :: nat)" by simp
    then show "bit (mpv (List.map ?f [0..<rw])) i = bit (take_bit (64 * rw) (drop_bit bits (mpv a))) i"
      using f [of "i mod 64" "i div 64"] by (simp only: bit_mpv_map bit_take_bit_iff bit_drop_bit_eq) (simp add: add.commute)
  qed
  then show "mpv (mp_rshift_fixed_into rw a bits) = mpv a div 2 ^ bits mod 2 ^ (64 * rw)"
    unfolding e by (simp only: take_bit_eq_mod drop_bit_eq_div)
qed

lemma mp_lshift_fixed_into:
  "length (mp_lshift_fixed_into rw a bits) = rw" "mpv (mp_lshift_fixed_into rw a bits) = mpv a * 2 ^ bits mod 2 ^ (64 * rw)"
proof -
  show "length (mp_lshift_fixed_into rw a bits) = rw" by (simp add: mp_lshift_fixed_into_def Let_def)
  let ?ws = "bits div 64" and ?o = "bits mod 64"
  let ?f = "\<lambda>i. if i < ?ws then 0 else if ?o \<noteq> 0 then
      (if i > ?ws then push_bit ?o (mp_word a (i - ?ws)) OR drop_bit (64 - ?o) (mp_word a (i - ?ws - 1))
       else push_bit ?o (mp_word a (i - ?ws))) else mp_word a (i - ?ws)"
  have b: "64 * ?ws + ?o = bits" "?o < 64" by simp_all
  have f: "bit (?f q) t \<longleftrightarrow> bits \<le> 64 * q + t \<and> bit (mpv a) (64 * q + t - bits)" if t: "t < 64" for q t
  proof -
    consider (below) "q < ?ws" | (at) "?ws \<le> q" "?o \<le> t" | (edge) "q = ?ws" "t < ?o" | (above) "?ws < q" "t < ?o" by linarith
    then show ?thesis
    proof cases
      case below
      then have "64 * q + t < bits" using b t by linarith
      then show ?thesis using below by simp
    next
      case at
      have "64 * q + t - bits = 64 * (q - ?ws) + (t - ?o)" "bits \<le> 64 * q + t" using at b by linarith+
      moreover have "t - ?o < 64" using t by simp
      moreover have "\<not> bit (mp_word a (q - ?ws - 1)) (64 - ?o + t)" using at by (intro word_bit_64) simp
      ultimately show ?thesis using at t bit_mpv_at [of "t - ?o" a "q - ?ws"]
        by (auto simp: bit_or_iff bit_push_bit_iff bit_drop_bit_eq)
    next
      case edge
      then have "\<not> bits \<le> 64 * q + t" using b by linarith
      then show ?thesis using edge by (simp add: bit_push_bit_iff)
    next
      case above
      have e: "64 * q + t - bits = 64 * (q - ?ws - 1) + (64 - ?o + t)" "bits \<le> 64 * q + t" using above b by linarith+
      have "64 - ?o + t < 64" using above b by linarith
      then have "bit (mpv a) (64 * q + t - bits) \<longleftrightarrow> bit (mp_word a (q - ?ws - 1)) (64 - ?o + t)"
        unfolding e(1) by (rule bit_mpv_at)
      then show ?thesis using above e(2) by (simp add: bit_or_iff bit_push_bit_iff bit_drop_bit_eq)
    qed
  qed
  have e: "mp_lshift_fixed_into rw a bits = List.map ?f [0..<rw]"
    by (simp add: mp_lshift_fixed_into_def Let_def)
  have "mpv (List.map ?f [0..<rw]) = take_bit (64 * rw) (push_bit bits (mpv a))"
  proof (rule bit_eqI)
    fix i :: nat
    have "64 * (i div 64) + i mod 64 = (i :: nat)" by simp
    then show "bit (mpv (List.map ?f [0..<rw])) i = bit (take_bit (64 * rw) (push_bit bits (mpv a))) i"
      using f [of "i mod 64" "i div 64"] by (simp only: bit_mpv_map bit_take_bit_iff bit_push_bit_iff) simp
  qed
  then show "mpv (mp_lshift_fixed_into rw a bits) = mpv a * 2 ^ bits mod 2 ^ (64 * rw)"
    unfolding e by (simp only: take_bit_eq_mod push_bit_eq_mult)
qed


lemma for_words_zero: "for_words (\<lambda>i m. (f i AND m, 0)) i n (0 :: BignumInt) = (replicate n 0, 0)"
  by (induction n arbitrary: i) simp_all

lemma mp_reduce_mod_2to:
  "length (mp_reduce_mod_2to x p) = length x" "mpv (mp_reduce_mod_2to x p) = mpv x mod 2 ^ p"
proof -
  define w t where "w = p div 64" and "t = p mod 64"
  have p: "p = 64 * w + t" "t < 64" by (simp_all add: w_def t_def)
  have m: "push_bit t (1 :: BignumInt) - 1 = mask t" by (simp add: mask_eq_exp_minus_1 push_bit_eq_mult)
  have r: "mp_reduce_mod_2to x p = take w x @ fst (for_words (\<lambda>i m. (mp_word x i AND m, 0)) w (length x - w) (mask t))"
    by (simp add: mp_reduce_mod_2to_def Let_def w_def t_def flip: m [unfolded t_def])
  then show "length (mp_reduce_mod_2to x p) = length x" by simp
  show "mpv (mp_reduce_mod_2to x p) = mpv x mod 2 ^ p"
  proof (cases "w < length x")
    case False
    then have "mpv x < 2 ^ p" by (intro less_le_trans [OF mpv_bound] power_increasing) (simp_all add: p)
    then show ?thesis using False by (simp add: r)
  next
    case True
    let ?d = "drop (Suc w) x"
    obtain k where k: "length x - w = Suc k" using True by (metis Suc_diff_Suc)
    have "mp_reduce_mod_2to x p = take w x @ (x ! w AND mask t) # replicate k 0"
      using True by (simp add: r k for_words_zero mp_word_def)
    then have l: "mpv (mp_reduce_mod_2to x p) = mpv (take w x) + 2 ^ (64 * w) * take_bit t (unat (x ! w))"
      using True by (simp add: min_absorb2 unsigned_take_bit_eq flip: take_bit_eq_mask)
    have "x = take w x @ x ! w # ?d" using True by (simp add: Cons_nth_drop_Suc)
    then have "mpv x = mpv (take w x) + 2 ^ (64 * length (take w x)) * mpv (x ! w # ?d)" by (metis mpv_append)
    then have x: "mpv x = mpv (take w x) + 2 ^ (64 * w) * (unat (x ! w) + 2 ^ 64 * mpv ?d)" using True by (simp add: min_absorb2)
    have t: "mpv (take w x) < 2 ^ (64 * w)" by (simp add: mpv_take)
    have "(2 :: nat) ^ t dvd 2 ^ 64 * mpv ?d" using p(2) by (intro dvd_mult2 le_imp_power_dvd) simp
    then have "(unat (x ! w) + 2 ^ 64 * mpv ?d) mod 2 ^ t = take_bit t (unat (x ! w))"
      by (metis add_0_right dvd_imp_mod_0 mod_add_right_eq take_bit_eq_mod)
    moreover have "mpv x mod (2 ^ (64 * w) * 2 ^ t) =
        2 ^ (64 * w) * ((unat (x ! w) + 2 ^ 64 * mpv ?d) mod 2 ^ t) + mpv (take w x)"
      unfolding mod_mult2_eq x using t by simp
    ultimately show ?thesis unfolding l by (simp add: p(1) power_add)
  qed
qed

subsection \<open>Inverses\<close>

lemma mul_scratch_enough:
  assumes "w \<le> 2 * n" and "length a \<le> n" and "length b \<le> n"
  shows "min w (max (length a) (length b)) * 6 \<le> mp_mul_scratchspace (2 * n) n n"
  using assms by (simp add: mp_mul_scratchspace_def mp_mul_scratchspace_unary_def Let_def)

lemma mod_power_le: "m \<le> n \<Longrightarrow> x mod 2 ^ n mod 2 ^ m = x mod (2 :: nat) ^ m"
  by (simp add: mod_mod_cancel le_imp_power_dvd)

text \<open>The arithmetic of one round: \<open>x\<close> has the inverse \<open>r\<close> modulo \<open>B\<close>.\<close>

lemma newton_identity:
  fixes x r B r1 k x0 x1 u q :: int
  assumes "x0 * r = 1 + B * k" and "r1 = r * (- (r * x1 + k)) + B * u" and "x = x0 + B * x1 + B * B * q"
  shows "x * (r + B * r1) = 1 + B * B * (x1 * r1 + q * (r + B * r1) - k * (r * x1 + k) + x0 * u)"
  using assms by algebra

lemma newton_round:
  fixes x r B :: nat
  assumes "1 < B" and "x * r mod B = 1" and "r < B" and "r1 < B"
    and "k = (x mod B) * r div B mod B" and "x1 = x div B mod B"
    and "int r1 mod int B = int r * (- (int r * int x1 + int k)) mod int B"
  shows "x * (r + B * r1) mod (B * B) = 1" and "r + B * r1 < B * B"
proof -
  define x0 where "x0 = x mod B"
  have m: "x0 * r mod B = 1" using assms(2) by (simp add: x0_def mod_mult_left_eq)
  have "x0 * r < B * B" using assms(1,3) unfolding x0_def by (intro mult_strict_mono) simp_all
  then have "x0 * r div B < B" by (intro less_mult_imp_div_less)
  then have "k = x0 * r div B" by (simp add: assms(5) flip: x0_def)
  moreover have "x0 * r = B * (x0 * r div B) + x0 * r mod B" by simp
  ultimately have k: "x0 * r = 1 + B * k" using m by (metis add.commute)
  have "x = x0 + B * (x div B)" by (simp add: x0_def)
  moreover have "x div B = x1 + B * (x div B div B)" by (simp add: assms(6))
  ultimately have x: "x = x0 + B * x1 + B * B * (x div B div B)" by (metis add.assoc distrib_left mult.assoc)
  from assms(7) obtain u where u: "int r1 = int r * (- (int r * int x1 + int k)) + int B * u"
    by (metis mod_eqE mult.commute diff_add_cancel add.commute)
  have "int (x * (r + B * r1)) mod int (B * B) = 1 mod int (B * B)"
  proof -
    have "int x0 * int r = 1 + int B * int k" using k by (metis of_nat_1 of_nat_add of_nat_mult)
    moreover have "int x = int x0 + int B * int x1 + int B * int B * int (x div B div B)"
      using x by (metis of_nat_add of_nat_mult)
    ultimately have "int x * (int r + int B * int r1) = 1 + int B * int B *
        (int x1 * int r1 + int (x div B div B) * (int r + int B * int r1) - int k * (int r * int x1 + int k) + int x0 * u)"
      using u by (intro newton_identity)
    then show ?thesis by (simp only: of_nat_mult of_nat_add mod_mult_self2)
  qed
  moreover have "1 < B * B" using assms(1) by (metis less_trans mult_strict_mono nat_mult_1 zero_le zero_less_one)
  ultimately show "x * (r + B * r1) mod (B * B) = 1"
    by (metis mod_less of_nat_1 of_nat_eq_iff zmod_int)
  have "B * (r1 + 1) \<le> B * B" using assms(4) by (intro mult_le_mono2) simp
  then show "r + B * r1 < B * B" using assms(3) by simp
qed

lemma words_for: "b \<le> 64 * ((b + 63) div 64)" "64 * ((b + 63) div 64) < b + (64 :: nat)"
  by simp_all

text \<open>Where the new half of the inverse goes.\<close>

lemma place_half:
  assumes "length r = n" and "mpv r < 2 ^ b" and "v = mpv r + mpv k * 2 ^ (64 * q)" and "v < 2 ^ (2 * b)"
    and "2 * b \<le> 64 * m" and "q \<le> n" and "q \<le> m" and "pos = take (m - q) (drop q r)"
  shows "length (take q r @ mp_add_into (length pos) pos k @ drop (q + length pos) r) = n"
    and "mpv (take q r @ mp_add_into (length pos) pos k @ drop (q + length pos) r) = v mod 2 ^ (64 * n)"
proof -
  define l s where "l = length pos" and "s = take (q + l) r"
  have l: "l = min (m - q) (n - q)" by (simp add: l_def assms(1,8) min.commute)
  have ls: "length s = q + l" "q \<le> length s" using l assms(1,6) by (simp_all add: s_def)
  have pos: "pos = drop q s" "take q r = take q s"
    using l by (simp_all add: s_def drop_take assms(8) l_def) (auto simp: min_def assms(1))
  have a: "take q r @ mp_add_into l pos k = add_at s q k"
    using pos ls by (simp add: add_at_def Let_def)
  have r: "take q r @ mp_add_into (length pos) pos k @ drop (q + length pos) r = add_at s q k @ drop (q + l) r"
    using a by (simp flip: l_def)
  show "length (take q r @ mp_add_into (length pos) pos k @ drop (q + length pos) r) = n"
    unfolding r using ls add_at_value(1) [OF ls(2)] l assms(1,6) by simp
  have av: "mpv (add_at s q k) = (mpv s + mpv k * 2 ^ (64 * q)) mod 2 ^ (64 * (q + l))"
    using add_at_value(2) [OF ls(2), of k] by (simp only: ls(1) mult.commute)
  show "mpv (take q r @ mp_add_into (length pos) pos k @ drop (q + length pos) r) = v mod 2 ^ (64 * n)"
  proof (cases "n \<le> m")
    case True
    then have "q + l = n" using l assms(6) by simp
    then have n: "s = r" "drop (q + l) r = []" by (simp_all add: s_def assms(1))
    show ?thesis unfolding r n(2) append_Nil2 av assms(3) using n(1) \<open>q + l = n\<close> by simp
  next
    case False
    then have m: "q + l = m" "m \<le> n" using l assms(7) by simp_all
    have p: "(2 :: nat) ^ (2 * b) \<le> 2 ^ (64 * m)" "(2 :: nat) ^ b \<le> 2 ^ (64 * m)" "(2 :: nat) ^ (2 * b) \<le> 2 ^ (64 * n)"
      using assms(5) m(2) by (intro power_increasing; simp)+
    have small: "mpv r < 2 ^ (64 * m)" using assms(2) p(2) by (rule less_le_trans)
    then have "mpv s = mpv r" "mpv (drop (q + l) r) = 0" by (simp_all add: s_def m mpv_take mpv_drop)
    moreover have "v mod 2 ^ (64 * m) = v" "v mod 2 ^ (64 * n) = v"
      using less_le_trans [OF assms(4) p(1)] less_le_trans [OF assms(4) p(3)] by simp_all
    ultimately show ?thesis unfolding r by (simp add: av m flip: assms(3))
  qed
qed

lemma half_position:
  assumes "b = 2 ^ j" and "v < 2 ^ b" and "w = (b + 63) div 64"
  shows "v * 2 ^ (b mod 64) mod 2 ^ (64 * w) * 2 ^ (64 * (b div 64)) = v * (2 :: nat) ^ b"
proof (cases "6 \<le> j")
  case True
  then have "(2 :: nat) ^ 6 dvd b" unfolding assms(1) by (rule le_imp_power_dvd)
  then have d: "b mod 64 = 0" "64 * (b div 64) = b" by simp_all
  have "v < 2 ^ (64 * w)" using assms(2,3) by (rule_tac less_le_trans [OF assms(2) power_increasing]) simp_all
  then show ?thesis by (simp only: d) simp
next
  case False
  then have "b \<le> 2 ^ 5" unfolding assms(1) by (intro power_increasing) simp_all
  then have b: "b \<le> 32" by simp
  have "0 < b" by (simp add: assms(1))
  then have w: "w = 1" using b by (simp add: assms(3))
  have "v * 2 ^ b < 2 ^ b * 2 ^ b" using assms(2) by simp
  also have "\<dots> = 2 ^ (b + b)" by (simp only: power_add)
  also have "\<dots> \<le> (2 :: nat) ^ 64" using b by (intro power_increasing) simp_all
  finally show ?thesis using b by (simp add: w)
qed

lemma invert_step:
  assumes "b = 2 ^ j" and "b \<le> 64 * n" and "length r = n" and "mpv r < 2 ^ b"
    and "mpv x * mpv r mod 2 ^ b = 1" and "6 * n \<le> pool"
  shows "\<exists>r'. invert_step x pool (mp_mul_scratchspace (2 * n) n n) b r = Some r' \<and> length r' = n \<and>
    (\<exists>v. v < 2 ^ (2 * b) \<and> mpv x * v mod 2 ^ (2 * b) = 1 \<and> mpv r' = v mod 2 ^ (64 * n))"
proof -
  define w w2 where "w = (b + 63) div 64" and "w2 = (2 * b + 63) div 64"
  have w: "b \<le> 64 * w" "w \<le> n" "w \<le> w2" "2 * b \<le> 64 * w2" "w2 \<le> 2 * n" "b div 64 \<le> w"
    using assms(2) by (simp_all add: w_def w2_def)
  have pool: "mp_alloc_from_scratch pool w = Some (pool - w)"
    "mp_alloc_from_scratch (pool - w) w2 = Some (pool - (w + w2))"
    "mp_alloc_from_scratch (pool - (w + w2)) w = Some (pool - (w + w2 + w))"
    "mp_alloc_from_scratch (pool - (w + w2 + w)) w = Some (pool - (w + w2 + w + w))"
    "mp_alloc_from_scratch (pool - (w + w2 + w + w)) w = Some (pool - (w + w2 + w + w + w))"
    using w assms(6) by (simp_all add: mp_alloc_from_scratch_def)
  let ?B = "(2 :: nat) ^ b" and ?W = "(2 :: nat) ^ (64 * w)" and ?ms = "mp_mul_scratchspace (2 * n) n n"
  have BW: "?B dvd ?W" "?B \<le> ?W" using w(1) by (simp_all add: le_imp_power_dvd power_increasing)
  define x0 r0 where "x0 = mp_reduce_mod_2to (mp_copy_into w x) b" and "r0 = take w r"
  have x0: "length x0 = w" "mpv x0 = mpv x mod ?B" using w(1) by (simp_all add: x0_def mp_reduce_mod_2to mod_power_le)
  have r0: "length r0 \<le> n" "mpv r0 = mpv r" using w less_le_trans [OF assms(4) BW(2)] by (simp_all add: r0_def mpv_take assms(3))
  obtain ks where ks: "mp_mul_internal w2 x0 r0 ?ms = Some ks" "length ks = w2" "mpv ks = mpv x0 * mpv r0 mod 2 ^ (64 * w2)"
    using mp_mul_internal [OF mul_scratch_enough, of w2 n x0 r0] w x0(1) r0(1) by auto
  have "mpv x0 * mpv r0 < ?B * ?B" unfolding x0(2) r0(2) using assms(4) by (intro mult_strict_mono) simp_all
  moreover have "?B * ?B \<le> 2 ^ (64 * w2)" using w(4) by (simp flip: power_add)
  ultimately have kv: "mpv ks = mpv x mod ?B * mpv r" "mpv x mod ?B * mpv r div ?B < ?B"
    using ks(3) by (simp_all add: x0(2) r0(2) less_mult_imp_div_less)
  define K x1 where "K = mp_rshift_fixed_into w ks b" and "x1 = mp_reduce_mod_2to (mp_rshift_fixed_into w x b) b"
  have K: "length K = w" "mpv K = mpv x mod ?B * mpv r div ?B mod ?B"
    using less_le_trans [OF kv(2) BW(2)] kv(2) by (simp_all add: K_def mp_rshift_fixed_into kv(1))
  have x1: "length x1 = w" "mpv x1 = mpv x div ?B mod ?B"
    using w(1) by (simp_all add: x1_def mp_reduce_mod_2to mp_rshift_fixed_into mod_power_le)
  obtain p where p: "mp_mul_internal w r0 x1 ?ms = Some p" "length p = w" "mpv p = mpv r0 * mpv x1 mod ?W"
    using mp_mul_internal [OF mul_scratch_enough, of w n r0 x1] w x1(1) r0(1) by auto
  define q where "q = mp_neg_into w (mp_add_into w p K)"
  have q: "length q = w" "int (mpv q) = (- (int (mpv r) * int (mpv x1) + int (mpv K))) mod int ?W"
    by (simp_all add: q_def mp_neg_into mp_add_into p(3) r0(2) zmod_int mod_minus_eq mod_add_left_eq)
  obtain t where t: "mp_mul_internal w r0 q ?ms = Some t" "length t = w" "mpv t = mpv r0 * mpv q mod ?W"
    using mp_mul_internal [OF mul_scratch_enough, of w n r0 q] w q(1) r0(1) by auto
  define r1 where "r1 = mp_reduce_mod_2to t b"
  have r1: "mpv r1 = mpv r * mpv q mod ?B" using w(1) by (simp add: r1_def mp_reduce_mod_2to t(3) r0(2) mod_power_le)
  have r1i: "int (mpv r1) mod int ?B = int (mpv r) * (- (int (mpv r) * int (mpv x1) + int (mpv K))) mod int ?B"
  proof -
    have "int (mpv q) mod int ?B = (- (int (mpv r) * int (mpv x1) + int (mpv K))) mod int ?B"
      unfolding q(2) using BW(1) by (intro mod_mod_cancel) (simp only: int_dvd_int_iff)
    then show ?thesis unfolding r1 zmod_int of_nat_mult by (simp only: mod_mod_trivial) (rule mod_mult_cong; simp)
  qed
  have B1: "1 < ?B" by (rule one_less_power) (simp_all add: assms(1))
  have r1B: "mpv r1 < ?B" by (simp add: r1)
  note nr = newton_round [OF B1 assms(5,4) r1B K(2) x1(2) r1i]
  define k where "k = mp_lshift_fixed_into w r1 (b mod 64)"
  have kk: "mpv k * 2 ^ (64 * (b div 64)) = mpv r1 * ?B"
    unfolding k_def mp_lshift_fixed_into by (rule half_position [OF assms(1) r1B w_def])
  define pos where "pos = take (w2 - b div 64) (drop (b div 64) r)"
  have v: "mpv r + ?B * mpv r1 = mpv r + mpv k * 2 ^ (64 * (b div 64))" by (simp add: kk mult.commute)
  have v2: "mpv r + ?B * mpv r1 < 2 ^ (2 * b)" using nr(2) by (simp add: mult_2 power_add)
  note ph = place_half [OF assms(3,4) v v2 w(4) le_trans [OF w(6,2)] le_trans [OF w(6,3)] pos_def]
  have bw: "(b + 64 - 1) div 64 = w" "(2 * b + 64 - 1) div 64 = w2" by (simp_all add: w_def w2_def add.commute)
  have lk: "length (take w ks) = w" using ks(2) w(3) by simp
  have "invert_step x pool ?ms b r =
      Some (take (b div 64) r @ mp_add_into (length pos) pos k @ drop (b div 64 + length pos) r)"
    unfolding invert_step_def Let_def BIGNUM_INT_BITS_def bw mp_make_alias_eq drop_0
    by (simp only: pool option.case ks(1) lk p(1,2) t(1) mp_add_into(1) flip: x0_def r0_def K_def x1_def q_def r1_def k_def pos_def)
  then show ?thesis using ph v2 nr(1) by (auto simp: mult_2 power_add)
qed

lemma invert_loop:
  assumes "b = 2 ^ j" and "0 < p" and "p \<le> 64 * n" and "length r = n" and "6 * n \<le> pool"
    and "v < 2 ^ b" and "mpv x * v mod 2 ^ b = 1" and "mpv r = v mod 2 ^ (64 * n)"
  shows "\<exists>r'. invert_loop x pool (mp_mul_scratchspace (2 * n) n n) p b r = Some r' \<and> length r' = n \<and>
    mpv x * mpv r' mod 2 ^ p = 1"
  using assms(1,4,6-8)
proof (induction "p - b" arbitrary: b r v j rule: less_induct)
  case less
  have b0: "0 < b" by (simp add: less.prems(1))
  show ?case
  proof (cases "b < p")
    case False
    have "mpv x * mpv r mod 2 ^ p = mpv x * (v mod 2 ^ (64 * n) mod 2 ^ p) mod 2 ^ p"
      by (simp add: less.prems(5) mod_mult_right_eq)
    also have "\<dots> = mpv x * v mod 2 ^ b mod 2 ^ p"
      using False assms(3) by (simp add: mod_power_le mod_mult_right_eq)
    also have "\<dots> = 1" using assms(2) by (simp add: less.prems(4))
    finally show ?thesis using False b0 less.prems(2) by (subst invert_loop.simps) simp
  next
    case True
    then have le: "b \<le> 64 * n" using assms(3) by simp
    have "v < 2 ^ (64 * n)" using less.prems(3) le by (rule_tac less_le_trans [OF _ power_increasing]) simp_all
    then have r: "mpv r = v" using less.prems(5) by simp
    from invert_step [OF less.prems(1) le less.prems(2) _ _ assms(5), of x] less.prems(3,4) obtain r' v' where
      r': "invert_step x pool (mp_mul_scratchspace (2 * n) n n) b r = Some r'" "length r' = n"
        "v' < 2 ^ (2 * b)" "mpv x * v' mod 2 ^ (2 * b) = 1" "mpv r' = v' mod 2 ^ (64 * n)"
      unfolding r by blast
    have "p - b * 2 < p - b" using True b0 by simp
    from less.hyps [OF this _ r'(2), of "Suc j" v'] r'(3-5) less.prems(1)
    show ?thesis using True b0 r'(1) by (subst invert_loop.simps) (simp add: mult.commute)
  qed
qed

lemma odd_mpv: "x \<noteq> [] \<Longrightarrow> x ! 0 AND 1 \<noteq> 0 \<longleftrightarrow> odd (mpv x)"
proof -
  assume "x \<noteq> []"
  then obtain w ws where x: "x = w # ws" by (cases x) auto
  have "even (mpv x) \<longleftrightarrow> even (unat w)" by (simp add: x)
  moreover have "bit (unat w) 0 \<longleftrightarrow> bit w 0" by (simp only: bit_unsigned_iff) simp
  ultimately show ?thesis by (simp add: x and_one_eq bit_0 mod2_eq_if)
qed

text \<open>C37: \<open>mp_invert_mod_2to\<close> always returns for an odd number and a nonzero \<open>p\<close>, never runs out of its
  preallocated scratch space, and gives the inverse modulo \<open>2^p\<close>, reduced, in the words that \<open>p\<close> bits need.\<close>

theorem mp_invert_mod_2to:
  assumes "odd (mpv x)" and "0 < p"
  shows "\<exists>r. mp_invert_mod_2to x p = Some r \<and> length r = (p + 63) div 64 \<and> mpv r < 2 ^ p \<and>
    mpv x * mpv r mod 2 ^ p = 1"
proof -
  define n where "n = (p + 63) div 64"
  have x: "x \<noteq> []" using assms(1) by auto
  have n: "p \<le> 64 * n" "0 < n" using assms(2) by (simp_all add: n_def)
  let ?ms = "mp_mul_scratchspace (2 * n) n n" and ?r = "(replicate n (0 :: BignumInt))[0 := 1]"
  obtain m where m: "n = Suc m" using n(2) by (cases n) auto
  have r: "length ?r = n" "mpv ?r = 1" by (simp_all add: m)
  have "(1 :: nat) < 2 ^ (64 * n)" using n(2) by (intro one_less_power) simp_all
  then have "mpv ?r = 1 mod 2 ^ (64 * n)" by (simp only: r mod_less)
  from invert_loop [of 1 0 p n ?r "6 * n" 1 x, OF _ assms(2) n(1) r(1) _ _ _ this] assms(1)
  obtain r' where r': "invert_loop x (6 * n) ?ms p 1 ?r = Some r'" "length r' = n" "mpv x * mpv r' mod 2 ^ p = 1"
    by (auto simp: odd_iff_mod_2_eq_one)
  have "mp_invert_mod_2to x p = Some (mp_reduce_mod_2to r' p)"
    using x assms odd_mpv [OF x] r'(1) n(2) n_def [unfolded add.commute [of p], symmetric]
    by (simp add: mp_invert_mod_2to_def Let_def mp_make_sized_def mp_alloc_from_scratch_def)
  then show ?thesis
    using r' by (simp add: mp_reduce_mod_2to mod_mult_right_eq flip: n_def)
qed

lemma mp_invert_mod_2to_witness:
  "odd (mpv [7]) \<and> (\<exists>r. mp_invert_mod_2to [7] 100 = Some r \<and> length r = 2 \<and> 7 * mpv r mod 2 ^ 100 = 1)"
proof -
  have v: "mpv [7] = 7" by simp
  from mp_invert_mod_2to [of "[7]" 100, unfolded v] show ?thesis by (auto simp: v)
qed

subsection \<open>Montgomery form\<close>

abbreviation mc_R :: "MontyContext \<Rightarrow> nat" where "mc_R mc \<equiv> 2 ^ (64 * mc_rw mc)"
abbreviation mc_M :: "MontyContext \<Rightarrow> nat" where "mc_M mc \<equiv> mpv (mc_m mc)"

text \<open>What \<open>monty_new\<close> establishes, and the numbers that are in Montgomery form.\<close>

definition monty_ok :: "MontyContext \<Rightarrow> bool" where
  "monty_ok mc \<longleftrightarrow> 0 < mc_rw mc \<and> length (mc_m mc) = mc_rw mc \<and> odd (mc_M mc) \<and> mc_rbits mc = 64 * mc_rw mc \<and>
     mc_pw mc = 2 * mc_rw mc + 1 \<and> length (mc_minus_minv_mod_r mc) = mc_rw mc \<and>
     (mc_M mc * mpv (mc_minus_minv_mod_r mc) + 1) mod mc_R mc = 0 \<and>
     mc_powers_of_r_mod_m mc \<noteq> [] \<and> length (mc_powers_of_r_mod_m mc ! 0) = mc_rw mc \<and>
     mpv (mc_powers_of_r_mod_m mc ! 0) = mc_R mc mod mc_M mc \<and> mc_scratch mc = monty_scratch_size mc"

definition monty_rep :: "MontyContext \<Rightarrow> nat \<Rightarrow> mp_int \<Rightarrow> bool" where
  "monty_rep mc a x \<longleftrightarrow> length x = mc_rw mc \<and> mpv x = a * mc_R mc mod mc_M mc"

lemma cancel_power_2:
  fixes M x y :: nat
  assumes "odd M" and "x * 2 ^ k mod M = y * 2 ^ k mod M"
  shows "x mod M = y mod M"
proof -
  have "int M dvd int x * 2 ^ k - int y * 2 ^ k"
    using assms(2) by (metis mod_eq_dvd_iff of_nat_mod of_nat_mult of_nat_numeral of_nat_power)
  then have "int M dvd (int x - int y) * 2 ^ k" by (simp add: left_diff_distrib)
  moreover have "coprime (int M) (2 ^ k)" using assms(1) by (simp add: coprime_right_2_iff_odd)
  ultimately have "int M dvd int x - int y" by (simp add: coprime_dvd_mult_left_iff)
  then show ?thesis by (metis mod_eq_dvd_iff of_nat_eq_iff of_nat_mod)
qed

lemma monty_sizes:
  assumes "monty_ok mc"
  shows "mc_M mc < mc_R mc" "0 < mc_M mc" "mc_M mc < mc_R mc"
    "mp_mul_scratchspace (mc_pw mc) (mc_rw mc) (mc_rw mc) = mc_rw mc * 6"
proof -
  from assms have l: "length (mc_m mc) = mc_rw mc" "odd (mc_M mc)" "mc_pw mc = 2 * mc_rw mc + 1" by (simp_all add: monty_ok_def)
  then show "mc_M mc < mc_R mc" "mc_M mc < mc_R mc" using mpv_bound [of "mc_m mc"] by simp_all
  show "0 < mc_M mc" using l(2) by (auto intro: Nat.gr0I)
  show "mp_mul_scratchspace (mc_pw mc) (mc_rw mc) (mc_rw mc) = mc_rw mc * 6"
    by (simp add: l(3) mp_mul_scratchspace_def mp_mul_scratchspace_unary_def Let_def min_def)
qed

text \<open>One conditional subtraction is enough.\<close>

lemma cond_sub_reduces:
  assumes "mpv t < 2 * mpv m" and "length t = n"
  shows "mpv (mp_cond_sub_into n t m (mp_cmp_hs t m)) = mpv t mod mpv m"
proof -
  have lt: "mpv t < 2 ^ (64 * n)" using mpv_bound [of t] assms(2) by simp
  have "int (mpv (mp_cond_sub_into n t m (mp_cmp_hs t m))) = int (mpv t mod mpv m)"
  proof (cases "mpv m \<le> mpv t")
    case True
    then have "mpv t mod mpv m = mpv t - mpv m" using assms(1) by (simp add: le_mod_geq)
    moreover have "int (mpv t - mpv m) mod 2 ^ (64 * n) = int (mpv t - mpv m)"
      using lt by (intro mod_pos_pos_trivial) (simp_all add: less_imp_diff_less nat_less_numeral_power_cancel_iff flip: of_nat_less_iff)
    ultimately show ?thesis using True by (simp add: mp_cond_sub_into mp_cmp_hs of_nat_diff)
  next
    case False
    have "int (mpv t) mod 2 ^ (64 * n) = int (mpv t)" using lt by (metis mod_less of_nat_mod of_nat_numeral of_nat_power)
    then show ?thesis using False by (simp add: mp_cond_sub_into mp_cmp_hs)
  qed
  then show ?thesis by (simp only: of_nat_eq_iff)
qed

lemma monty_reduce_internal:
  assumes ok: "monty_ok mc" and "length x \<le> 2 * mc_rw mc" and "mpv x < mc_M mc * mc_R mc"
    and "mc_rw mc + mc_pw mc + mc_rw mc * 6 \<le> scratch"
  shows "\<exists>t. monty_reduce_internal mc x scratch = Some t \<and> length t = mc_rw mc + 1 \<and> mpv t < mc_M mc \<and>
    mpv t * mc_R mc mod mc_M mc = mpv x mod mc_M mc"
proof -
  let ?n = "mc_rw mc" and ?R = "mc_R mc" and ?M = "mc_M mc" and ?i = "mc_minus_minv_mod_r mc" and ?X = "mpv x"
  from ok have mc: "0 < ?n" "length (mc_m mc) = ?n" "mc_rbits mc = 64 * ?n" "mc_pw mc = 2 * ?n + 1" "length ?i = ?n"
    "(?M * mpv ?i + 1) mod ?R = 0" by (simp_all add: monty_ok_def)
  note M = monty_sizes [OF ok]
  have xlo: "mp_make_alias x 0 (mc_rbits mc) = x" using assms(2) mc(1) by (simp add: mc(3))
  have alloc: "mp_alloc_from_scratch scratch ?n = Some (scratch - ?n)"
    "mp_alloc_from_scratch (scratch - ?n) (mc_pw mc) = Some (scratch - ?n - mc_pw mc)"
    using assms(4) by (simp_all add: mp_alloc_from_scratch_def)
  have "min ?n (max (length x) (length ?i)) * 6 \<le> scratch - ?n"
    using assms(4) min.cobounded1 [of ?n "max (length x) (length ?i)"] by linarith
  from mp_mul_internal [OF this] obtain k where k: "mp_mul_internal ?n x ?i (scratch - ?n) = Some k" "length k = ?n"
    "mpv k = ?X * mpv ?i mod ?R" by blast
  have "min (mc_pw mc) (max (length (mc_m mc)) (length k)) * 6 \<le> scratch - ?n - mc_pw mc"
    using assms(4) by (simp add: mc(2,4) k(2))
  from mp_mul_internal [OF this] obtain mk where
    mk: "mp_mul_internal (mc_pw mc) (mc_m mc) k (scratch - ?n - mc_pw mc) = Some mk" "length mk = mc_pw mc"
      "mpv mk = ?M * mpv k mod 2 ^ (64 * mc_pw mc)" by blast
  have "mpv k < ?R" by (simp add: k(3))
  then have Mk: "?M * mpv k < ?M * ?R" using M(2) by simp
  have le: "?M * ?R \<le> ?R * ?R" using M(1) by (intro mult_le_mono1 less_imp_le)
  have "?M * ?R + ?M * ?R \<le> 2 * (?R * ?R)" unfolding mult_2 by (rule add_mono [OF le le])
  also have "\<dots> = 2 ^ (64 * ?n + 64 * ?n + 1)" by (simp only: power_add power_one_right mult.commute)
  also have "\<dots> \<le> 2 ^ (64 * mc_pw mc)" by (intro power_increasing) (simp_all add: mc(4))
  finally have big: "?M * ?R + ?M * ?R \<le> 2 ^ (64 * mc_pw mc)" .
  define s where "s = mp_add_into (mc_pw mc) x mk"
  have s: "length s = mc_pw mc" "mpv s = ?X + ?M * mpv k"
    using less_le_trans [OF add_strict_mono [OF assms(3) Mk] big] less_le_trans [OF trans_less_add2 [OF Mk] big]
    by (simp_all add: s_def mp_add_into mk(3))
  define t where "t = take (mc_pw mc - ?n) (drop ?n s)"
  have lt: "length t = ?n + 1" by (simp add: t_def s mc(4))
  have tv: "mpv t = (?X + ?M * mpv k) div ?R"
  proof -
    have "take (mc_pw mc - ?n) (drop ?n s) = drop ?n s" by (simp add: s)
    then show ?thesis by (simp add: t_def mpv_drop s)
  qed
  have "(?X + ?M * mpv k) mod ?R = (?X * (?M * mpv ?i + 1)) mod ?R"
  proof -
    have "(?X + ?M * mpv k) mod ?R = (?X + ?M * (?X * mpv ?i)) mod ?R"
      unfolding k(3) by (metis mod_add_right_eq mod_mult_right_eq)
    also have "?X + ?M * (?X * mpv ?i) = ?X * (?M * mpv ?i + 1)" by (simp add: algebra_simps)
    finally show ?thesis .
  qed
  also have "\<dots> = 0" using mc(6) by (metis mod_0 mod_mult_right_eq mult_0_right)
  finally have tR: "mpv t * ?R = ?X + ?M * mpv k" unfolding tv by (simp add: mod_eq_0_iff_dvd)
  have "?X + ?M * mpv k < 2 * ?M * ?R" using add_strict_mono [OF assms(3) Mk] by (simp only: mult_2 distrib_right)
  then have "mpv t < 2 * ?M" unfolding tR [symmetric] by simp
  note v = cond_sub_reduces [OF this lt, folded lt]
  define u where "u = mp_cond_sub_into (length t) t (mc_m mc) (mp_cmp_hs t (mc_m mc))"
  have u: "length u = ?n + 1" "mpv u = mpv t mod ?M" using v by (simp_all only: u_def mp_cond_sub_into(1) lt)
  have "monty_reduce_internal mc x scratch = Some u"
    unfolding monty_reduce_internal_def Let_def xlo
    by (simp only: alloc option.case k(1) mk(1,2) mp_make_alias_eq s(1) flip: s_def t_def u_def)
  moreover have "mpv u * ?R mod ?M = ?X mod ?M" unfolding u(2) by (simp add: mod_mult_left_eq tR)
  moreover have "mpv u < ?M" unfolding u(2) using M(2) by simp
  ultimately show ?thesis using u(1) by blast
qed

text \<open>Products of numbers in Montgomery form.\<close>

lemma monty_rep_less: "monty_ok mc \<Longrightarrow> monty_rep mc a x \<Longrightarrow> length x = mc_rw mc \<and> mpv x < mc_M mc"
  using monty_sizes(2) [of mc] by (simp add: monty_rep_def)

lemma mp_mul_into:
  assumes "0 < rw" and "0 < length a \<or> 0 < length b"
  shows "\<exists>r. mp_mul_into rw a b = Some r \<and> length r = rw \<and> mpv r = mpv a * mpv b mod 2 ^ (64 * rw)"
proof -
  let ?s = "mp_mul_scratchspace rw (length a) (length b)"
  have "0 < ?s" using assms by (simp add: mp_mul_scratchspace_def mp_mul_scratchspace_unary_def Let_def less_max_iff_disj)
  then have "mp_make_sized ?s = Some (replicate ?s 0)" by (simp add: mp_make_sized_def)
  moreover have "min rw (max (length a) (length b)) * 6 \<le> ?s"
    by (simp add: mp_mul_scratchspace_def mp_mul_scratchspace_unary_def Let_def)
  ultimately show ?thesis using mp_mul_internal [of rw a b ?s] by (simp add: mp_mul_into_def)
qed

lemma monty_product:
  assumes ok: "monty_ok mc" and x: "monty_rep mc a x" and y: "monty_rep mc b y"
    and sc: "mc_rw mc + mc_pw mc + mc_rw mc * 6 \<le> scratch"
  shows "\<exists>p t. mp_mul_into (2 * mc_rw mc) x y = Some p \<and> length p = 2 * mc_rw mc \<and>
    monty_reduce_internal mc p scratch = Some t \<and> length t = mc_rw mc + 1 \<and> mpv t = a * b * mc_R mc mod mc_M mc"
proof -
  let ?n = "mc_rw mc" and ?R = "mc_R mc" and ?M = "mc_M mc"
  have n: "0 < ?n" "odd ?M" using ok by (simp_all add: monty_ok_def)
  note M = monty_sizes [OF ok]
  note lx = monty_rep_less [OF ok x] and ly = monty_rep_less [OF ok y]
  have "mpv x * mpv y < ?M * ?M" using lx ly by (intro mult_strict_mono) simp_all
  also have "?M * ?M \<le> ?M * ?R" using M(1) by (intro mult_le_mono2) simp
  finally have lt: "mpv x * mpv y < ?M * ?R" .
  have "?M * ?R \<le> ?R * ?R" using M(1) by (intro mult_le_mono1 less_imp_le)
  also have "\<dots> = 2 ^ (64 * (2 * ?n))" by (simp only: mult_2 distrib_left power_add)
  finally have big: "?M * ?R \<le> 2 ^ (64 * (2 * ?n))" .
  obtain p where p: "mp_mul_into (2 * ?n) x y = Some p" "length p = 2 * ?n" "mpv p = mpv x * mpv y"
    using mp_mul_into [of "2 * ?n" x y] n(1) lx less_le_trans [OF lt big] by auto
  obtain t where t: "monty_reduce_internal mc p scratch = Some t" "length t = ?n + 1" "mpv t < ?M"
    "mpv t * ?R mod ?M = mpv p mod ?M"
    using monty_reduce_internal [OF ok _ _ sc, of p] p lt by auto
  have "mpv t * ?R mod ?M = (a * ?R mod ?M) * (b * ?R mod ?M) mod ?M"
    using t(4) x y by (simp add: p(3) monty_rep_def)
  also have "\<dots> = (a * b * ?R) * ?R mod ?M" by (simp add: mod_mult_eq mult_ac)
  finally have "mpv t mod ?M = a * b * ?R mod ?M" by (rule cancel_power_2 [OF n(2)])
  with t(3) have "mpv t = a * b * ?R mod ?M" by simp
  with p t show ?thesis by blast
qed

lemma monty_scratch: "monty_ok mc \<Longrightarrow> mc_scratch mc = 3 * mc_rw mc + mc_pw mc + mc_rw mc * 6"
  using monty_sizes(4) [of mc] by (simp add: monty_ok_def monty_scratch_size_def)

lemma copy_rep:
  assumes "monty_ok mc" and "mpv t = a * mc_R mc mod mc_M mc"
  shows "mpv (mp_copy_into (mc_rw mc) t) = mpv t" "monty_rep mc a (mp_copy_into (mc_rw mc) t)"
proof -
  have "mpv t < mc_R mc" using assms monty_sizes [OF assms(1)] by (metis less_trans mod_less_divisor)
  then show "mpv (mp_copy_into (mc_rw mc) t) = mpv t" by simp
  then show "monty_rep mc a (mp_copy_into (mc_rw mc) t)" using assms(2) by (simp add: monty_rep_def)
qed

lemma monty_mul:
  assumes "monty_ok mc" and "monty_rep mc a x" and "monty_rep mc b y"
  shows "\<exists>r. monty_mul mc x y = Some r \<and> monty_rep mc (a * b) r"
proof -
  have n: "0 < mc_rw mc" using assms(1) by (simp add: monty_ok_def)
  have sc: "mc_rw mc + mc_pw mc + mc_rw mc * 6 \<le> mc_scratch mc - 2 * mc_rw mc" "2 * mc_rw mc \<le> mc_scratch mc"
    using monty_scratch [OF assms(1)] by simp_all
  obtain p t where p: "mp_mul_into (2 * mc_rw mc) x y = Some p"
    "monty_reduce_internal mc p (mc_scratch mc - 2 * mc_rw mc) = Some t" "mpv t = a * b * mc_R mc mod mc_M mc"
    using monty_product [OF assms sc(1)] by blast
  have l: "length x = mc_rw mc" "length y = mc_rw mc" using assms(2,3) by (simp_all add: monty_rep_def)
  have "monty_mul mc x y = Some (mp_copy_into (mc_rw mc) t)"
    using n by (simp add: monty_mul_def mp_make_sized_def monty_mul_into_def mp_alloc_from_scratch_def sc(2) l p(1,2))
  with copy_rep(2) [OF assms(1) p(3)] show ?thesis by blast
qed

text \<open>The same through \<open>monty_reduce\<close>, as the power loop does it.\<close>

lemma pow_product:
  assumes "monty_ok mc" and "monty_rep mc a x" and "monty_rep mc b y"
  shows "\<exists>tmp. Option.bind (mp_mul_into (2 * mc_rw mc) x y) (monty_reduce mc) = Some tmp \<and>
    mpv tmp = a * b * mc_R mc mod mc_M mc"
proof -
  have "mc_rw mc + mc_pw mc + mc_rw mc * 6 \<le> mc_scratch mc" using monty_scratch [OF assms(1)] by simp
  from monty_product [OF assms this] obtain p t where
    p: "mp_mul_into (2 * mc_rw mc) x y = Some p" "length p = 2 * mc_rw mc"
      "monty_reduce_internal mc p (mc_scratch mc) = Some t" "mpv t = a * b * mc_R mc mod mc_M mc" by blast
  have "mpv t < mc_R mc" using p(4) monty_sizes [OF assms(1)] by (metis less_trans mod_less_divisor)
  also have "mc_R mc \<le> 2 ^ (64 * (2 * mc_rw mc))" by (intro power_increasing) simp_all
  finally have "mpv (mp_copy_into (2 * mc_rw mc) t) = mpv t" by (simp only: mp_copy_into_facts mod_less)
  then show ?thesis using p by (simp add: monty_reduce_def)
qed

subsection \<open>Powers\<close>

lemma mod_power_Suc_bit: "e mod 2 ^ Suc i = e mod 2 ^ i + (if bit e i then 2 ^ i else (0 :: nat))"
proof -
  have "e mod (2 ^ i * 2) = 2 ^ i * (e div 2 ^ i mod 2) + e mod 2 ^ i" by (rule mod_mult2_eq)
  then show ?thesis by (auto simp: bit_iff_odd mult.commute odd_iff_mod_2_eq_one)
qed

lemma monty_pow_loop:
  assumes ok: "monty_ok mc" and "i < 64 * length e"
    and "monty_rep mc (a ^ (2 ^ i)) square" and "monty_rep mc (a ^ (mpv e mod 2 ^ i)) out"
  shows "\<exists>r. monty_pow_loop mc e (2 * mc_rw mc) i square out = Some r \<and> monty_rep mc (a ^ mpv e) r"
  using assms(2-4)
proof (induction "64 * length e - i" arbitrary: i square out rule: less_induct)
  case less
  from pow_product [OF ok less.prems(3,2)] obtain tmp where
    tmp: "Option.bind (mp_mul_into (2 * mc_rw mc) out square) (monty_reduce mc) = Some tmp"
      "mpv tmp = a ^ (mpv e mod 2 ^ i) * a ^ (2 ^ i) * mc_R mc mod mc_M mc" by blast
  let ?out = "mp_select_into (length out) out tmp (mp_get_bit e i)"
  have lo: "length out = mc_rw mc" using less.prems(3) by (simp add: monty_rep_def)
  have out: "monty_rep mc (a ^ (mpv e mod 2 ^ Suc i)) ?out"
  proof (cases "bit (mpv e) i")
    case True
    then have "mp_get_bit e i AND 1 = 1" by (simp add: mp_get_bit)
    moreover have "monty_rep mc (a ^ (mpv e mod 2 ^ i + 2 ^ i)) (mp_copy_into (mc_rw mc) tmp)"
      by (rule copy_rep(2) [OF ok]) (simp add: tmp(2) power_add)
    ultimately show ?thesis using True by (simp only: mp_select_into lo mod_power_Suc_bit if_True refl)
  next
    case False
    then have "mp_get_bit e i AND 1 = 0" by (simp add: mp_get_bit)
    moreover have "mp_copy_into (mc_rw mc) out = out" by (simp add: mp_copy_into_def lo Let_def)
    moreover have "mpv e mod 2 ^ Suc i = mpv e mod 2 ^ i" using False by (simp only: mod_power_Suc_bit if_False add_0_right)
    ultimately show ?thesis using less.prems(3) by (simp add: mp_select_into lo del: power_Suc)
  qed
  show ?case
  proof (cases "Suc i < 64 * length e")
    case False
    have "mpv e < 2 ^ Suc i"
      using False by (intro less_le_trans [OF mpv_bound] power_increasing) simp_all
    then have "mpv e mod 2 ^ Suc i = mpv e" by simp
    with out show ?thesis using False tmp(1) by (subst monty_pow_loop.simps) (simp add: Let_def mult.commute)
  next
    case True
    from pow_product [OF ok less.prems(2,2)] obtain sq where
      sq: "Option.bind (mp_mul_into (2 * mc_rw mc) square square) (monty_reduce mc) = Some sq"
        "mpv sq = a ^ (2 ^ i) * a ^ (2 ^ i) * mc_R mc mod mc_M mc" by blast
    have "a ^ 2 ^ Suc i = a ^ 2 ^ i * a ^ 2 ^ i" by (simp add: mult_2 flip: power_add)
    then have "monty_rep mc (a ^ 2 ^ Suc i) (mp_copy_into (mc_rw mc) sq)"
      using sq(2) by (intro copy_rep(2) [OF ok]) simp
    moreover have "64 * length e - Suc i < 64 * length e - i" using True by simp
    ultimately obtain r where
      "monty_pow_loop mc e (2 * mc_rw mc) (Suc i) (mp_copy_into (mc_rw mc) sq) ?out = Some r"
      "monty_rep mc (a ^ mpv e) r" using less.hyps [OF _ True _ out] by blast
    moreover have "length square = mc_rw mc" using less.prems(2) by (simp add: monty_rep_def)
    ultimately show ?thesis using True tmp(1) sq(1)
      by (subst monty_pow_loop.simps) (simp add: Let_def mult.commute)
  qed
qed

lemma monty_export:
  assumes "monty_ok mc" and "monty_rep mc a x"
  shows "\<exists>r. monty_export mc x = Some r \<and> mpv r = a mod mc_M mc"
proof -
  have n: "0 < mc_rw mc" "odd (mc_M mc)" using assms(1) by (simp_all add: monty_ok_def)
  note M = monty_sizes [OF assms(1)] and x = monty_rep_less [OF assms]
  have "mc_M mc * 1 \<le> mc_M mc * mc_R mc" by (intro mult_le_mono2) simp
  with x have lt: "mpv x < mc_M mc * mc_R mc" by linarith
  have sc: "mc_rw mc + mc_pw mc + mc_rw mc * 6 \<le> mc_scratch mc" using monty_scratch [OF assms(1)] by simp
  from monty_reduce_internal [OF assms(1) _ lt sc] x obtain t where
    t: "monty_reduce_internal mc x (mc_scratch mc) = Some t" "mpv t < mc_M mc"
      "mpv t * mc_R mc mod mc_M mc = mpv x mod mc_M mc" by auto
  have "mpv t * mc_R mc mod mc_M mc = a * mc_R mc mod mc_M mc" using t(3) assms(2) by (simp add: monty_rep_def)
  then have "mpv t mod mc_M mc = a mod mc_M mc" by (rule cancel_power_2 [OF n(2)])
  then have v: "mpv t = a mod mc_M mc" using t(2) by simp
  have "mpv t < mc_R mc" using t(2) M(1) by (rule less_trans)
  then have "mpv (mp_copy_into (mc_rw mc) t) = mpv t" by simp
  moreover have "monty_export mc x = Some (mp_copy_into (mc_rw mc) t)"
    using n(1) x t(1) by (simp add: monty_export_def mp_make_sized_def monty_export_into_def)
  ultimately show ?thesis using v by simp
qed

text \<open>C36: Modular exponentiation in Montgomery form: given a context as \<open>monty_new\<close> sets it up and a base in
  Montgomery form, \<open>monty_pow\<close> with any exponent returns without failing an assertion or running out of
  its scratch space, and exporting the result gives exactly the power modulo the modulus; so does
  \<open>monty_mul\<close> for a product.\<close>

theorem monty_pow_mul:
  assumes "monty_ok mc" and "monty_rep mc a x" and "monty_rep mc b y" and "e \<noteq> []"
  shows "\<exists>p q r s. monty_pow mc x e = Some p \<and> monty_export mc p = Some q \<and> mpv q = a ^ mpv e mod mpv (mc_m mc) \<and>
    monty_mul mc x y = Some r \<and> monty_export mc r = Some s \<and> mpv s = a * b mod mpv (mc_m mc)"
proof -
  have n: "0 < mc_rw mc" using assms(1) by (simp add: monty_ok_def)
  let ?one = "mc_powers_of_r_mod_m mc ! 0"
  have one: "monty_rep mc (a ^ (mpv e mod 2 ^ 0)) ?one" using assms(1) by (simp add: monty_ok_def monty_rep_def)
  have sq: "monty_rep mc (a ^ (2 ^ 0)) x" using assms(2) by simp
  have "0 < 64 * length e" using assms(4) by simp
  from monty_pow_loop [OF assms(1) this sq one] obtain p where
    p: "monty_pow_loop mc e (2 * mc_rw mc) 0 x ?one = Some p" "monty_rep mc (a ^ mpv e) p" by blast
  have "length x = mc_rw mc" "length ?one = mc_rw mc" using assms(1,2) by (simp_all add: monty_ok_def monty_rep_def)
  then have "monty_pow mc x e = Some p"
    using n p(1) by (simp add: monty_pow_def mp_copy_def mp_from_words_def mp_make_sized_def mult.commute)
  with monty_export [OF assms(1) p(2)] monty_mul [OF assms(1-3)] monty_export [OF assms(1)] show ?thesis by blast
qed

definition monty7 :: MontyContext where
  "monty7 = \<lparr>mc_m = [7], mc_rbits = 64, mc_rw = 1, mc_pw = 3, mc_minus_minv_mod_r = [0x9249249249249249],
     mc_powers_of_r_mod_m = [[2], [4], [1]], mc_scratch = 12\<rparr>"

lemma monty_pow_mul_witness:
  "monty_ok monty7 \<and> monty_rep monty7 3 [6] \<and> (\<exists>p q. monty_pow monty7 [6] [5] = Some p \<and>
     monty_export monty7 p = Some q \<and> mpv q = 3 ^ 5 mod 7)"
proof -
  have ok: "monty_ok monty7"
    by (simp add: monty_ok_def monty7_def monty_scratch_size_def mp_mul_scratchspace_def mp_mul_scratchspace_unary_def Let_def)
  have x: "monty_rep monty7 3 [6]" by (simp add: monty_rep_def monty7_def)
  from monty_pow_mul [OF ok x x, of "[5]"] ok x show ?thesis by (auto simp: monty7_def)
qed

end
