(* ===== verification/Callback.thy ===== *)
theory Callback
  imports Prelude
begin

text \<open>
  The queue of callbacks that the event loop runs (\<open>callback.c\<close>). The list from \<open>cbhead\<close> to \<open>cbtail\<close> is a
  list of entries; an \<open>IdempotentCallback\<close> is known by its address. The functions that are queued are the
  application's: what matters of them is which functions of this file they call when they run, so a run of
  one is the list of the calls it makes, which may be any list (a callback does not run the queue itself).
\<close>

subsection \<open>The queue\<close>

datatype cb_ctx = IC nat | Ctx nat

datatype cb_fn = run_idempotent_callback | Fn nat

record callback =
  cb_fn :: cb_fn
  cb_ctx :: cb_ctx

record IdempotentCallback =
  ic_fn :: nat
  ic_ctx :: cb_ctx
  ic_queued :: bool

datatype cb_event = Notified | Ran nat cb_ctx

record cb_state =
  cbcurr :: "callback option"
  cbqueue :: "callback list"
  notify_frontend :: bool
  ics :: "nat \<Rightarrow> IdempotentCallback"
  cb_log :: "cb_event list"

definition request_callback_notifications :: "bool \<Rightarrow> cb_state \<Rightarrow> cb_state" where
  "request_callback_notifications fn s = s\<lparr>notify_frontend := fn\<rparr>"

definition queue_toplevel_callback :: "cb_fn \<Rightarrow> cb_ctx \<Rightarrow> cb_state \<Rightarrow> cb_state" where
  "queue_toplevel_callback fn ctx s =
     (let s = (if notify_frontend s \<and> cbqueue s = [] \<and> cbcurr s = None then s\<lparr>cb_log := cb_log s @ [Notified]\<rparr> else s)
      in s\<lparr>cbqueue := cbqueue s @ [\<lparr>cb_fn = fn, cb_ctx = ctx\<rparr>]\<rparr>)"

definition queue_idempotent_callback :: "nat \<Rightarrow> cb_state \<Rightarrow> cb_state" where
  "queue_idempotent_callback ic s =
     (if ic_queued (ics s ic) then s
      else queue_toplevel_callback run_idempotent_callback (IC ic)
        (s\<lparr>ics := (ics s)(ic := (ics s ic)\<lparr>ic_queued := True\<rparr>)\<rparr>))"

definition belongs_to :: "(nat \<Rightarrow> IdempotentCallback) \<Rightarrow> cb_ctx \<Rightarrow> callback \<Rightarrow> bool" where
  "belongs_to m ctx cb \<longleftrightarrow> cb_ctx cb = ctx \<or>
     (cb_fn cb = run_idempotent_callback \<and> (case cb_ctx cb of IC ic \<Rightarrow> ic_ctx (m ic) = ctx | Ctx _ \<Rightarrow> False))"

text \<open>The loop of \<open>delete_callbacks_for_context\<close>, which moves what stays to the new list.\<close>

fun delete_loop :: "(nat \<Rightarrow> IdempotentCallback) \<Rightarrow> cb_ctx \<Rightarrow> callback list \<Rightarrow> callback list \<Rightarrow> callback list" where
  "delete_loop m ctx [] new = new"
| "delete_loop m ctx (cb # cbhead) new =
     (if belongs_to m ctx cb then delete_loop m ctx cbhead new else delete_loop m ctx cbhead (new @ [cb]))"

definition delete_callbacks_for_context :: "cb_ctx \<Rightarrow> cb_state \<Rightarrow> cb_state" where
  "delete_callbacks_for_context ctx s = s\<lparr>cbqueue := delete_loop (ics s) ctx (cbqueue s) []\<rparr>"

definition toplevel_callback_pending :: "cb_state \<Rightarrow> bool" where
  "toplevel_callback_pending s \<longleftrightarrow> cbcurr s \<noteq> None \<or> cbqueue s \<noteq> []"

subsection \<open>Running callbacks\<close>

text \<open>The calls an application makes into this file.\<close>

datatype cb_call =
    Queue nat cb_ctx
  | Queue_idempotent nat
  | Delete cb_ctx
  | Request_notifications bool

fun cb_call_step :: "cb_call \<Rightarrow> cb_state \<Rightarrow> cb_state" where
  "cb_call_step (Queue f ctx) s = queue_toplevel_callback (Fn f) ctx s"
| "cb_call_step (Queue_idempotent ic) s = queue_idempotent_callback ic s"
| "cb_call_step (Delete ctx) s = delete_callbacks_for_context ctx s"
| "cb_call_step (Request_notifications b) s = request_callback_notifications b s"

definition run_user :: "cb_call list \<Rightarrow> nat \<Rightarrow> cb_ctx \<Rightarrow> cb_state \<Rightarrow> cb_state" where
  "run_user cs f ctx s = fold cb_call_step cs (s\<lparr>cb_log := cb_log s @ [Ran f ctx]\<rparr>)"

text \<open>\<open>cs\<close> are the calls that the function makes when it is run.\<close>

fun run_callback :: "cb_call list \<Rightarrow> cb_fn \<Rightarrow> cb_ctx \<Rightarrow> cb_state \<Rightarrow> cb_state" where
  "run_callback cs run_idempotent_callback (IC ic) s =
     (let s = s\<lparr>ics := (ics s)(ic := (ics s ic)\<lparr>ic_queued := False\<rparr>)\<rparr>
      in run_user cs (ic_fn (ics s ic)) (ic_ctx (ics s ic)) s)"
| "run_callback cs run_idempotent_callback (Ctx _) s = s"
| "run_callback cs (Fn f) ctx s = run_user cs f ctx s"

definition run_toplevel_callbacks :: "cb_call list \<Rightarrow> cb_state \<Rightarrow> cb_state \<times> bool" where
  "run_toplevel_callbacks cs s =
     (case cbqueue s of
        [] \<Rightarrow> (s, False)
      | cb # cbhead \<Rightarrow>
         let s = s\<lparr>cbcurr := Some cb, cbqueue := cbhead\<rparr>;
             s = run_callback cs (cb_fn cb) (cb_ctx cb) s
         in (s\<lparr>cbcurr := None\<rparr>, True))"

text \<open>What the rest of the program does: it makes calls, and its event loop runs a callback.\<close>

datatype cb_op = Call cb_call | Run "cb_call list"

fun cb_op_step :: "cb_op \<Rightarrow> cb_state \<Rightarrow> cb_state" where
  "cb_op_step (Call c) s = cb_call_step c s"
| "cb_op_step (Run cs) s = fst (run_toplevel_callbacks cs s)"

definition turns :: "cb_op list \<Rightarrow> nat" where
  "turns ops = length (filter (\<lambda>op. case op of Run cs \<Rightarrow> True | Call c \<Rightarrow> False) ops)"

definition cb_init :: "(nat \<Rightarrow> IdempotentCallback) \<Rightarrow> cb_state" where
  "cb_init m = \<lparr>cbcurr = None, cbqueue = [], notify_frontend = False, ics = (\<lambda>i. (m i)\<lparr>ic_queued := False\<rparr>), cb_log = []\<rparr>"

subsection \<open>Invariant\<close>

text \<open>The entries of a callback in the queue; every idempotent entry names an \<open>IdempotentCallback\<close>.\<close>

definition ic_entry :: "nat \<Rightarrow> callback" where
  "ic_entry ic = \<lparr>cb_fn = run_idempotent_callback, cb_ctx = IC ic\<rparr>"

definition cb_inv :: "(nat \<Rightarrow> IdempotentCallback) \<Rightarrow> cb_state \<Rightarrow> bool" where
  "cb_inv m s \<longleftrightarrow> (\<forall>ic. ic_fn (ics s ic) = ic_fn (m ic) \<and> ic_ctx (ics s ic) = ic_ctx (m ic)) \<and>
     (\<forall>ic. count_list (cbqueue s) (ic_entry ic) \<le> (if ic_queued (ics s ic) then 1 else 0)) \<and>
     (\<forall>cb \<in> set (cbqueue s). cb_fn cb = run_idempotent_callback \<longrightarrow> (\<exists>ic. cb = ic_entry ic))"

lemma delete_loop_filter: "delete_loop m ctx q new = new @ filter (\<lambda>cb. \<not> belongs_to m ctx cb) q"
  by (induction q arbitrary: new) simp_all

lemma count_list_filter_le: "count_list (filter P xs) x \<le> count_list xs x"
  by (induction xs) auto

lemma Fn_not_ic_entry [simp]: "\<lparr>cb_fn = Fn f, cb_ctx = ctx\<rparr> \<noteq> ic_entry ic" "ic_entry ic = ic_entry ic' \<longleftrightarrow> ic = ic'"
  "\<lparr>cb_fn = run_idempotent_callback, cb_ctx = IC ic\<rparr> = ic_entry ic' \<longleftrightarrow> ic = ic'"
  by (auto simp: ic_entry_def)

lemma queue_fields [simp]:
  "cbqueue (queue_toplevel_callback fn ctx s) = cbqueue s @ [\<lparr>cb_fn = fn, cb_ctx = ctx\<rparr>]"
  "ics (queue_toplevel_callback fn ctx s) = ics s" "cbcurr (queue_toplevel_callback fn ctx s) = cbcurr s"
  by (simp_all add: queue_toplevel_callback_def Let_def)

lemma cb_inv_count: "cb_inv m s \<Longrightarrow> ic_queued (ics s ic) \<Longrightarrow> count_list (cbqueue s) (ic_entry ic) \<le> Suc 0"
  "cb_inv m s \<Longrightarrow> \<not> ic_queued (ics s ic) \<Longrightarrow> count_list (cbqueue s) (ic_entry ic) = 0"
  by (auto simp: cb_inv_def dest: spec [of _ ic])

lemma cb_inv_fewer:
  assumes "cb_inv m s" and "\<And>e. count_list q e \<le> count_list (cbqueue s) e" and "set q \<subseteq> set (cbqueue s)"
  shows "cb_inv m (s\<lparr>cbcurr := c, cbqueue := q\<rparr>)" "cb_inv m (s\<lparr>cbqueue := q\<rparr>)"
proof -
  have "count_list q (ic_entry ic) \<le> (if ic_queued (ics s ic) then 1 else 0)" for ic
    using assms(1) by (intro le_trans [OF assms(2)]) (simp add: cb_inv_def)
  then show "cb_inv m (s\<lparr>cbcurr := c, cbqueue := q\<rparr>)" "cb_inv m (s\<lparr>cbqueue := q\<rparr>)"
    using assms(1,3) by (simp_all add: cb_inv_def subset_iff)
qed

lemma call_inv: "cb_inv m s \<Longrightarrow> cb_inv m (cb_call_step c s)"
proof (cases c)
  case (Queue f ctx)
  then show "cb_inv m s \<Longrightarrow> ?thesis" by (auto simp: cb_inv_def)
next
  case (Queue_idempotent ic)
  assume i: "cb_inv m s"
  then have "count_list (cbqueue s) (ic_entry ic) = 0" if "\<not> ic_queued (ics s ic)"
    using that by (auto simp: cb_inv_def dest: spec [of _ ic])
  moreover note cb_inv_count [OF i]
  ultimately show ?thesis using i Queue_idempotent
    by (auto simp: cb_inv_def queue_idempotent_callback_def split: if_splits)
next
  case (Delete ctx)
  assume i: "cb_inv m s"
  then show ?thesis
    unfolding Delete cb_call_step.simps delete_callbacks_for_context_def delete_loop_filter append_Nil
    by (rule cb_inv_fewer(2)) (auto simp: count_list_filter_le)
next
  case (Request_notifications b)
  then show "cb_inv m s \<Longrightarrow> ?thesis" by (simp add: cb_inv_def request_callback_notifications_def)
qed

lemma calls_inv: "cb_inv m s \<Longrightarrow> cb_inv m (fold cb_call_step cs s)"
  by (induction cs arbitrary: s) (simp_all add: call_inv)

lemma run_user_inv: "cb_inv m s \<Longrightarrow> cb_inv m (run_user cs f ctx s)"
  unfolding run_user_def by (rule calls_inv) (simp add: cb_inv_def)

lemma run_inv: "cb_inv m s \<Longrightarrow> cb_inv m (fst (run_toplevel_callbacks cs s))"
proof (cases "cbqueue s")
  case Nil
  then show "cb_inv m s \<Longrightarrow> ?thesis" by (simp add: run_toplevel_callbacks_def)
next
  case (Cons cb q)
  assume i: "cb_inv m s"
  let ?s = "s\<lparr>cbcurr := Some cb, cbqueue := q\<rparr>"
  have s: "cb_inv m ?s" by (rule cb_inv_fewer(1) [OF i]) (auto simp: Cons)
  have "cb_inv m (run_callback cs (cb_fn cb) (cb_ctx cb) ?s)"
  proof (cases "cb_fn cb")
    case run_idempotent_callback
    with i Cons obtain ic where ic: "cb = ic_entry ic" by (auto simp: cb_inv_def)
    have "count_list q (ic_entry ic) = 0"
      using i Cons ic by (auto simp: cb_inv_def dest: spec [of _ ic] split: if_splits)
    then have "cb_inv m (?s\<lparr>ics := (ics s)(ic := (ics s ic)\<lparr>ic_queued := False\<rparr>)\<rparr>)"
      using s cb_inv_count [OF s] by (auto simp: cb_inv_def)
    then show ?thesis by (simp add: ic ic_entry_def Let_def run_user_inv)
  next
    case (Fn f)
    then show ?thesis using run_user_inv [OF s] by simp
  qed
  then show ?thesis by (simp add: run_toplevel_callbacks_def Cons cb_inv_def)
qed

lemma ops_inv: "cb_inv m s \<Longrightarrow> cb_inv m (fold cb_op_step ops s)"
proof (induction ops arbitrary: s)
  case (Cons a ops)
  then show ?case by (cases a) (simp_all add: call_inv run_inv)
qed simp

subsection \<open>Progress\<close>

definition ran :: "(nat \<Rightarrow> IdempotentCallback) \<Rightarrow> callback \<Rightarrow> cb_event" where
  "ran m cb = (case cb_fn cb of
       Fn f \<Rightarrow> Ran f (cb_ctx cb)
     | run_idempotent_callback \<Rightarrow> (case cb_ctx cb of IC ic \<Rightarrow> Ran (ic_fn (m ic)) (ic_ctx (m ic)) | Ctx _ \<Rightarrow> Notified))"

definition spares :: "(nat \<Rightarrow> IdempotentCallback) \<Rightarrow> callback \<Rightarrow> cb_call list \<Rightarrow> bool" where
  "spares m cb cs \<longleftrightarrow> (\<forall>ctx. Delete ctx \<in> set cs \<longrightarrow> \<not> belongs_to m ctx cb)"

lemma belongs_to_inv: "cb_inv m s \<Longrightarrow> belongs_to (ics s) ctx cb = belongs_to m ctx cb"
  by (cases "cb_ctx cb") (simp_all add: belongs_to_def cb_inv_def)

text \<open>An entry in the queue with at most \<open>n\<close> entries before it, and a log that starts with \<open>l\<close>.\<close>

definition waits :: "callback \<Rightarrow> nat \<Rightarrow> cb_event list \<Rightarrow> cb_state \<Rightarrow> bool" where
  "waits cb n l s \<longleftrightarrow> (\<exists>pre post l'. cbqueue s = pre @ cb # post \<and> length pre \<le> n \<and> cb_log s = l @ l')"

definition has_run :: "cb_event \<Rightarrow> cb_event list \<Rightarrow> cb_state \<Rightarrow> bool" where
  "has_run e l s \<longleftrightarrow> (\<exists>l'. cb_log s = l @ l' \<and> e \<in> set l')"

lemma waits_queue: "waits cb n l s \<Longrightarrow> waits cb n l (queue_toplevel_callback fn ctx s)"
proof -
  assume "waits cb n l s"
  then obtain pre post l' where q: "cbqueue s = pre @ cb # post" "length pre \<le> n" "cb_log s = l @ l'"
    by (auto simp: waits_def)
  then have "cbqueue (queue_toplevel_callback fn ctx s) = pre @ cb # (post @ [\<lparr>cb_fn = fn, cb_ctx = ctx\<rparr>])" by simp
  moreover have "\<exists>l''. cb_log (queue_toplevel_callback fn ctx s) = l @ l''"
    by (simp add: queue_toplevel_callback_def Let_def q)
  ultimately show ?thesis using q(2) unfolding waits_def by blast
qed

lemma waits_call:
  assumes "cb_inv m s" and "waits cb n l s" and "\<And>ctx. c = Delete ctx \<Longrightarrow> \<not> belongs_to m ctx cb"
  shows "waits cb n l (cb_call_step c s)"
proof (cases c)
  case (Queue f ctx)
  with assms(2) show ?thesis by (simp add: waits_queue)
next
  case (Queue_idempotent ic)
  have "waits cb n l (s\<lparr>ics := f\<rparr>)" for f using assms(2) by (simp add: waits_def)
  with Queue_idempotent assms(2) show ?thesis by (simp add: queue_idempotent_callback_def waits_queue)
next
  case (Delete ctx)
  from assms(2) obtain pre post l' where q: "cbqueue s = pre @ cb # post" "length pre \<le> n" "cb_log s = l @ l'"
    by (auto simp: waits_def)
  have "\<not> belongs_to (ics s) ctx cb" using assms(3) [OF Delete] belongs_to_inv [OF assms(1)] by simp
  then show ?thesis using q le_trans [OF length_filter_le q(2)]
    by (auto simp: Delete waits_def delete_callbacks_for_context_def delete_loop_filter)
next
  case (Request_notifications b)
  with assms(2) show ?thesis by (simp add: waits_def request_callback_notifications_def)
qed

lemma waits_calls:
  "cb_inv m s \<Longrightarrow> waits cb n l s \<Longrightarrow> spares m cb cs \<Longrightarrow> waits cb n l (fold cb_call_step cs s)"
proof (induction cs arbitrary: s)
  case (Cons c cs)
  then show ?case by (simp add: spares_def call_inv waits_call)
qed simp

lemma has_run_call: "has_run e l s \<Longrightarrow> has_run e l (cb_call_step c s)"
  by (cases c) (auto simp: has_run_def queue_toplevel_callback_def queue_idempotent_callback_def Let_def
    delete_callbacks_for_context_def request_callback_notifications_def)

lemma has_run_calls: "has_run e l s \<Longrightarrow> has_run e l (fold cb_call_step cs s)"
  by (induction cs arbitrary: s) (simp_all add: has_run_call)

lemma has_run_user: "has_run e l s \<Longrightarrow> has_run e l (run_user cs f ctx s)"
  unfolding run_user_def by (rule has_run_calls) (auto simp: has_run_def)

lemma run_callback_cases:
  obtains (ran) f c s' where "run_callback cs fn ctx s = run_user cs f c s'" "cb_log s' = cb_log s"
    "cbqueue s' = cbqueue s"
  | (none) "run_callback cs fn ctx s = s"
  by (cases "(cs, fn, ctx, s)" rule: run_callback.cases) (auto simp: Let_def)

lemma has_run_op: "has_run e l s \<Longrightarrow> has_run e l (cb_op_step op s)"
proof (cases op)
  case (Run cs)
  assume h: "has_run e l s"
  show ?thesis
  proof (cases "cbqueue s")
    case (Cons cb q)
    let ?s = "s\<lparr>cbcurr := Some cb, cbqueue := q\<rparr>"
    have "has_run e l (run_callback cs (cb_fn cb) (cb_ctx cb) ?s)"
    proof (cases rule: run_callback_cases [of cs "cb_fn cb" "cb_ctx cb" ?s])
      case (ran f c s')
      then have "has_run e l s'" using h by (simp add: has_run_def)
      then show ?thesis unfolding ran(1) by (rule has_run_user)
    next
      case none
      then show ?thesis using h by (simp add: has_run_def)
    qed
    then show ?thesis using Run by (simp add: run_toplevel_callbacks_def Cons Let_def has_run_def)
  qed (use Run h in \<open>simp add: run_toplevel_callbacks_def\<close>)
qed (simp add: has_run_call)

lemma has_run_ops: "has_run e l s \<Longrightarrow> has_run e l (fold cb_op_step ops s)"
  by (induction ops arbitrary: s) (simp_all add: has_run_op)

text \<open>One turn of the event loop moves a waiting entry one place on, or runs it.\<close>

lemma run_ic_inv:
  assumes "cb_inv m s" and "cbqueue s = ic_entry ic # q"
  shows "cb_inv m (s\<lparr>cbcurr := c, cbqueue := q, ics := (ics s)(ic := (ics s ic)\<lparr>ic_queued := False\<rparr>)\<rparr>)"
proof -
  have s: "cb_inv m (s\<lparr>cbcurr := c, cbqueue := q\<rparr>)" by (rule cb_inv_fewer(1) [OF assms(1)]) (auto simp: assms(2))
  have "count_list q (ic_entry ic) = 0"
    using assms by (auto simp: cb_inv_def dest: spec [of _ ic] split: if_splits)
  then show ?thesis using s cb_inv_count [OF s] by (auto simp: cb_inv_def)
qed

lemma run_callback_head:
  assumes i: "cb_inv m s" and q: "cbqueue s = cb # q"
  obtains f c s' where "run_callback cs (cb_fn cb) (cb_ctx cb) (s\<lparr>cbcurr := Some cb, cbqueue := q\<rparr>) = run_user cs f c s'"
    "cb_inv m s'" "cbqueue s' = q" "cb_log s' = cb_log s" "ran m cb = Ran f c"
proof (cases "cb_fn cb")
  case run_idempotent_callback
  with i q obtain ic where ic: "cb = ic_entry ic" by (auto simp: cb_inv_def)
  show ?thesis
    by (rule that [of _ _ "s\<lparr>cbcurr := Some cb, cbqueue := q, ics := (ics s)(ic := (ics s ic)\<lparr>ic_queued := False\<rparr>)\<rparr>"])
      (use i run_ic_inv [OF i q [unfolded ic], of "Some cb"] in \<open>simp_all add: ic ic_entry_def ran_def Let_def cb_inv_def\<close>)
next
  case (Fn f)
  have "cb_inv m (s\<lparr>cbcurr := Some cb, cbqueue := q\<rparr>)" by (rule cb_inv_fewer(1) [OF i]) (auto simp: q)
  then show ?thesis by (intro that [of f "cb_ctx cb" "s\<lparr>cbcurr := Some cb, cbqueue := q\<rparr>"]) (simp_all add: Fn ran_def)
qed

lemma run_waits:
  assumes i: "cb_inv m s" and w: "waits cb n l s" and spare: "spares m cb cs"
  shows "has_run (ran m cb) l (cb_op_step (Run cs) s) \<or> (0 < n \<and> waits cb (n - 1) l (cb_op_step (Run cs) s))"
proof -
  obtain pre post l' where q: "cbqueue s = pre @ cb # post" "length pre \<le> n" "cb_log s = l @ l'"
    using w by (auto simp: waits_def)
  obtain hd q' where hq: "cbqueue s = hd # q'" using q(1) by (metis neq_Nil_conv append_is_Nil_conv list.distinct(1))
  obtain f c s' where r: "run_callback cs (cb_fn hd) (cb_ctx hd) (s\<lparr>cbcurr := Some hd, cbqueue := q'\<rparr>) = run_user cs f c s'"
    "cb_inv m s'" "cbqueue s' = q'" "cb_log s' = cb_log s" "ran m hd = Ran f c"
    by (rule run_callback_head [OF i hq])
  have step: "cb_op_step (Run cs) s = (run_user cs f c s')\<lparr>cbcurr := None\<rparr>"
    by (simp add: run_toplevel_callbacks_def hq r(1) Let_def)
  show ?thesis
  proof (cases pre)
    case Nil
    have "has_run (ran m cb) l (s'\<lparr>cb_log := cb_log s' @ [Ran f c]\<rparr>)"
      using Nil q(1,3) hq r(4,5) by (auto simp: has_run_def)
    then have "has_run (ran m cb) l (run_user cs f c s')" unfolding run_user_def by (rule has_run_calls)
    then show ?thesis unfolding step by (simp add: has_run_def)
  next
    case (Cons a pre')
    have "waits cb (n - 1) l (s'\<lparr>cb_log := cb_log s' @ [Ran f c]\<rparr>)"
      using Cons q hq r(3,4) by (auto simp: waits_def)
    then have "waits cb (n - 1) l (run_user cs f c s')"
      unfolding run_user_def using r(2) spare by (intro waits_calls) (simp_all add: cb_inv_def)
    then show ?thesis unfolding step using Cons q(2) by (simp add: waits_def)
  qed
qed

lemma waits_ops:
  assumes "cb_inv m s" and "waits cb n l s" and "\<And>cs. Run cs \<in> set ops \<Longrightarrow> spares m cb cs"
    and "\<And>ctx. Call (Delete ctx) \<in> set ops \<Longrightarrow> \<not> belongs_to m ctx cb" and "n < turns ops"
  shows "has_run (ran m cb) l (fold cb_op_step ops s)"
  using assms
proof (induction ops arbitrary: s n)
  case (Cons op ops)
  show ?case
  proof (cases op)
    case (Call c)
    have "waits cb n l (cb_call_step c s)" using Cons.prems Call by (intro waits_call) auto
    then show ?thesis using Cons.prems Call by (auto intro!: Cons.IH call_inv simp: turns_def)
  next
    case (Run cs)
    have "has_run (ran m cb) l (cb_op_step (Run cs) s) \<or> (0 < n \<and> waits cb (n - 1) l (cb_op_step (Run cs) s))"
      by (rule run_waits [OF Cons.prems(1,2)]) (simp add: Cons.prems(3) Run)
    then show ?thesis
    proof
      assume "has_run (ran m cb) l (cb_op_step (Run cs) s)"
      then show ?thesis unfolding Run fold_simps by (rule has_run_ops)
    next
      assume "0 < n \<and> waits cb (n - 1) l (cb_op_step (Run cs) s)"
      then show ?thesis unfolding Run fold_simps using Cons.prems Run
        by (intro Cons.IH) (auto simp: run_inv turns_def)
    qed
  qed
qed (simp add: turns_def)

subsection \<open>What the queue promises\<close>

lemma cb_init_inv: "cb_inv m (cb_init m)"
  by (simp add: cb_inv_def cb_init_def)

text \<open>C38: A callback that has been queued is run: once the event loop has made as many turns as there are
  entries up to and including it, whatever calls the rest of the program and the callbacks themselves have
  made between (queueing others, or itself again, included), as long as none of them deletes the callbacks
  of its context. It is run with its own function and context, an idempotent callback with those of its
  structure.\<close>

theorem callback_is_run:
  assumes "s = fold cb_op_step before (cb_init m)" and "cbqueue s = pre @ cb # post" and "length pre < turns ops"
    and "\<forall>ctx. Call (Delete ctx) \<in> set ops \<longrightarrow> \<not> belongs_to m ctx cb"
    and "\<forall>cs ctx. Run cs \<in> set ops \<and> Delete ctx \<in> set cs \<longrightarrow> \<not> belongs_to m ctx cb"
  shows "\<exists>log. cb_log (fold cb_op_step ops s) = cb_log s @ log \<and> ran m cb \<in> set log"
proof -
  have "has_run (ran m cb) (cb_log s) (fold cb_op_step ops s)"
  proof (rule waits_ops)
    show "cb_inv m s" unfolding assms(1) by (rule ops_inv [OF cb_init_inv])
    show "waits cb (length pre) (cb_log s) s" using assms(2) by (auto simp: waits_def)
    show "spares m cb cs" if "Run cs \<in> set ops" for cs using assms(5) that by (auto simp: spares_def)
  qed (use assms(3,4) in auto)
  then show ?thesis by (simp add: has_run_def)
qed

definition example_ic :: "nat \<Rightarrow> IdempotentCallback" where
  "example_ic i = \<lparr>ic_fn = 7 + i, ic_ctx = Ctx i, ic_queued = False\<rparr>"

theorem callback_is_run_witness:
  "\<exists>log. cb_log (fold cb_op_step [Run [Queue 1 (Ctx 5), Queue_idempotent 3], Call (Delete (Ctx 5)), Run [Queue_idempotent 3]]
      (fold cb_op_step [Call (Queue 2 (Ctx 4)), Call (Queue_idempotent 3)] (cb_init example_ic))) =
    cb_log (fold cb_op_step [Call (Queue 2 (Ctx 4)), Call (Queue_idempotent 3)] (cb_init example_ic)) @ log \<and>
    ran example_ic (ic_entry 3) \<in> set log"
  by (rule callback_is_run [OF refl, where pre = "[\<lparr>cb_fn = Fn 2, cb_ctx = Ctx 4\<rparr>]" and post = "[]"])
    (auto simp: turns_def belongs_to_def ic_entry_def example_ic_def cb_init_def queue_idempotent_callback_def)

text \<open>C39: However the program queues, deletes and runs callbacks, an \<open>IdempotentCallback\<close> has at most one
  entry in the queue, and none while its \<open>queued\<close> flag is clear; queueing it appends its entry when the
  flag is clear, and changes nothing when it is set. Its function and its context stay what they were.\<close>

theorem idempotent_queued_once:
  "let s = fold cb_op_step ops (cb_init m) in
     count_list (cbqueue s) (ic_entry ic) \<le> (if ic_queued (ics s ic) then 1 else 0) \<and>
     cbqueue (queue_idempotent_callback ic s) = cbqueue s @ (if ic_queued (ics s ic) then [] else [ic_entry ic]) \<and>
     ic_fn (ics s ic) = ic_fn (m ic) \<and> ic_ctx (ics s ic) = ic_ctx (m ic)"
proof -
  have "cb_inv m (fold cb_op_step ops (cb_init m))" by (rule ops_inv [OF cb_init_inv])
  then show ?thesis by (simp add: Let_def cb_inv_def queue_idempotent_callback_def ic_entry_def)
qed

end
