(* ===== verification/Spec2Isabelle.thy ===== *)
theory Spec2Isabelle
  imports Strbuf Bufchain Marshal Wildcard Utf8 Telnet Base64 Kcrypt Tree234 Conf Ldisc MpMul MpWire MpMonty Callback
begin

text \<open>
  A verification library for KiTTY, the PuTTY 0.76b derivative in \<open>src/0.76b_My_PuTTY\<close>, with KiTTY's
  own files in \<open>src\<close>. It covers the parts that have a contract of their own: the containers and the
  marshalling layer everything else rests on, the wildcard matcher, the UTF-8 coder, the Telnet backend,
  the line discipline, the base64 codecs and KiTTY's password encryption, the configuration store, and
  the multiprecision arithmetic under the SSH cryptography.

  \<^bold>\<open>How the parts interact.\<close> Backends queue output in a \<open>bufchain\<close>; protocol and agent code builds
  messages in a \<open>strbuf\<close> through the \<open>BinarySink\<close> interface and reads them with a \<open>BinarySource\<close>. The
  configuration (\<open>conf.c\<close>) is a counted 2-3-4 tree (\<open>tree234.c\<close>) and is saved and restored through the
  same two interfaces. The wildcard matcher serves file transfer, the UTF-8 coder the terminal.
  \<open>bcrypt.c\<close> frames an encrypted string and writes it with its base64 coder; \<open>kitty_crypt.c\<close> stores
  passwords with it. The line discipline (\<open>ldisc.c\<close>) stands between the terminal and the backend: it reads
  the configuration, edits the line and sends it to the Telnet model. Multiprecision integers
  (\<open>mpint.c\<close>) are written to a \<open>BinarySink\<close> and read from a \<open>BinarySource\<close>.

  \<^bold>\<open>Theories and sources.\<close>
  \<^item> \<^verbatim>\<open>Prelude\<close>: bytes, words, C strings, the byte-order macros of \<open>misc.h\<close>, shared lemmas.
  \<^item> \<^verbatim>\<open>Strbuf\<close>: \<open>utils/memory.c\<close> (\<open>safemalloc\<close>, \<open>saferealloc\<close>, \<open>safegrowarray\<close>) and the string buffers of
    \<open>utils/utils.c\<close>. A buffer is its allocated size and its bytes; success of \<open>malloc\<close> is a parameter.
  \<^item> \<^verbatim>\<open>Bufchain\<close>: the bufchain of \<open>utils/utils.c\<close>, a list of granules with the room left in each.
  \<^item> \<^verbatim>\<open>Marshal\<close>: \<open>utils/marshal.c\<close>, \<open>marshal.h\<close>. A sink is any state with a write function; the locale
    for sinks is interpreted on the string buffer.
  \<^item> \<^verbatim>\<open>Wildcard\<close>: \<open>utils/wildcard.c\<close>, with the language of wildcards as the specification.
  \<^item> \<^verbatim>\<open>Utf8\<close>: \<open>charset/utf8.c\<close> and \<open>encode_utf8\<close>. The decoder state is its 32-bit word.
  \<^item> \<^verbatim>\<open>Telnet\<close>: \<open>otherbackends/telnet.c\<close>. The backend's state is a record, what it does to the network and
    to the seat is an event list in order; received data is one step per byte.
  \<^item> \<^verbatim>\<open>Base64\<close>: the four base64 codecs (\<open>bcrypt/bcrypt.c\<close>, \<open>utils/utils.c\<close>, \<open>base64/base64.c\<close>,
    \<open>far2l/cencode.c\<close> and \<open>cdecode.c\<close>).
  \<^item> \<^verbatim>\<open>Kcrypt\<close>: \<open>bcrypt/bcrypt.c\<close> and \<open>kitty_crypt.c\<close>. The system's random numbers, key derivation and
    AES-GCM are the fields of a record; what is relied on is that decryption inverts encryption, and the
    lengths.
  \<^item> \<^verbatim>\<open>Tree234\<close>: \<open>utils/tree234.c\<close>. A node is a value with its kids, counts and elements; the parent
    pointers are the path of the descent. Invariant \<open>wf234\<close>: balanced, one to three elements in a node,
    every recorded count right. The locale \<open>key_order\<close> turns a tree sorted by a key into a map.
  \<^item> \<^verbatim>\<open>Conf\<close>: \<open>utils/conf.c\<close>, the option table of \<open>putty.h\<close>, and the Windows \<open>Filename\<close> and \<open>FontSpec\<close>. The
    store is the tree of entries; \<open>key_order\<close> is interpreted on its comparison function.
  \<^item> \<^verbatim>\<open>Ldisc\<close>: \<open>ldisc.c\<close> over the models of the Telnet backend and of the configuration. The edited line
    and its length, the quoting flag and the special-key flag are the state; what is echoed is an event. A read
    or a decrement below the start of the line is \<open>None\<close>.
  \<^item> \<^verbatim>\<open>Mpint\<close>, \<^verbatim>\<open>MpMul\<close>, \<^verbatim>\<open>MpWire\<close>, \<^verbatim>\<open>MpMonty\<close>: \<open>crypto/mpint.c\<close> and \<open>mpint_i.h\<close> with 64-bit words. A number is the list
    of its words; a destination is the number of words it has; scratch space is the number of words left.
  \<^item> \<^verbatim>\<open>Callback\<close>: \<open>callback.c\<close>. The list of entries is the state; the run of a callback is the list of calls
    it makes into this file, which may be any.

  \<^bold>\<open>What the lemmas show.\<close> Round trips: marshalling, UTF-8, base64 (four codecs), Telnet data and window
  size, encryption, password storage, the configuration. Refinement: the bufchain is a FIFO queue, the
  2-3-4 tree a list and, by key, a map. The line typed into the line
  discipline arrives at the peer of the Telnet connection. Karatsuba multiplication is equivalent to the
  product, in scratch space proved sufficient; numbers survive the SSH wire formats, and the SSH-2 reader
  accepts one encoding per number; the doubling iteration inverts odd numbers modulo a power of two, and
  powers and products in Montgomery form export to the modular ones in a context satisfying \<open>monty_ok\<close>,
  what \<open>monty_new\<close> establishes. Liveness: every queued callback is run within as many turns of the event loop as
  there are entries up to it. Invariants: the 2-3-4 tree under deletion, the Telnet option state
  in every reachable state, the cursor of the line discipline kept level with its line, bounds of every buffer
  the code allocates by hand. Safety: no read outside the marshalled data, and none before the line that is edited.
  Types: a configuration read from any bytes is typed. Decision: \<open>wc_match\<close>
  answers exactly for the language of the wildcard. Errors: malformed wildcards, ill-formed UTF-8,
  truncated marshalled data, encrypted text with a wrong header. Termination: a search of a 2-3-4 tree
  ends for any comparison, with an element that satisfies the relation as the comparison sees it; the loops are total functions with a measure, and the two that have none in
  the types (\<open>find_loop\<close>, \<open>conf_clear\<close>) are option-valued, with theorems that they return.

  \<^bold>\<open>Conventions.\<close> A failed assertion, an abort of the allocator or a read outside an array is \<open>None\<close>; a
  \<open>NULL\<close> result is an inner \<open>None\<close>. A C \<open>int\<close> that can wrap is a 32-bit word, one that is bounded by
  the size of an object a HOL integer with the bound written out. No fuel is used.

  \<^bold>\<open>Not modelled.\<close> Windows GUI, terminal emulation and rendering, sockets and process handling: they are
  effects on system interfaces. The SSH protocol layers are coroutines over packet queues; of the
  cryptography only the arithmetic of \<open>mpint.c\<close> is modelled, without division
  (\<open>mp_divmod_into\<close>, hence \<open>mp_mod\<close>, \<open>monty_new\<close> and \<open>monty_import\<close>), gcd and roots. Freeing and wiping memory has no effect on the model.
\<close>

end
